(* ===== verification/Prelude.thy ===== *)
theory Prelude
  imports Main "HOL-Library.Word" "HOL-Library.Sublist" "HOL-Library.Signed_Division"
begin

unbundle bit_operations_syntax

text \<open>
  Shared vocabulary of the development: the machine integer types of the C sources, the
  faults a C function can end in (a failed \<^verbatim>\<open>assert\<close> or \<^verbatim>\<open>abort\<close>, an access outside an
  object or through a null pointer, a division by zero, a loop that never ends, an exception nobody
  catches), the result type \<open>fault + 'a\<close>, and the generic facts on words, signed differences and lists
  that the component theories use. The collections \<open>word_conv\<close> (reading words as numbers)
  and \<open>fault_simps\<close> (sequencing of fallible steps) are extended by the components.
\<close>

named_theorems word_conv \<open>reading word expressions as numbers\<close>
named_theorems fault_simps \<open>sequencing of fallible steps\<close>

section \<open>Machine types\<close>

type_synonym byte = "8 word"
type_synonym u16 = "16 word"
type_synonym u32 = "32 word"
type_synonym bytes = "byte list"

text \<open>
  \<open>s32\<close> is the conversion to a 32-bit two's complement \<^verbatim>\<open>int\<close>: the identity on values in
  range, and the wrap-around of the conversion otherwise.
\<close>

definition s32 :: "int \<Rightarrow> int" where
  "s32 k = sint (word_of_int k :: u32)"

lemma s32_id [simp]: "- (2 ^ 31) \<le> k \<Longrightarrow> k < 2 ^ 31 \<Longrightarrow> s32 k = k"
  by (simp add: s32_def signed_of_int signed_take_bit_int_eq_self)

lemma s32_range: "- (2 ^ 31) \<le> s32 k \<and> s32 k < 2 ^ 31"
  using sint_ge [of "word_of_int k :: u32"] sint_lt [of "word_of_int k :: u32"]
  by (simp add: s32_def)

section \<open>Faults\<close>

datatype fault = Assert_failed | Out_of_bounds | Division_by_zero | Diverged | Exception

type_synonym 'a res = "fault + 'a"

definition rbind :: "'a res \<Rightarrow> ('a \<Rightarrow> 'b res) \<Rightarrow> 'b res" where
  "rbind r f = (case r of Inl e \<Rightarrow> Inl e | Inr x \<Rightarrow> f x)"

lemma rbind_simps [simp, fault_simps]:
  "rbind (Inl e) f = Inl e"
  "rbind (Inr x) f = f x"
  by (simp_all add: rbind_def)

lemma rbind_Inr_iff [fault_simps]:
  "rbind r f = Inr y \<longleftrightarrow> (\<exists>x. r = Inr x \<and> f x = Inr y)"
  by (cases r) simp_all

section \<open>Words\<close>

lemma uint_lt_32: "uint (w :: u32) < 2 ^ 32"
  using uint_lt2p [of w] by simp

lemma unat_lt_32: "unat (w :: u32) < 2 ^ 32"
  using unsigned_less [of w, where ?'a=nat] by simp

lemma s32_uint: "s32 (uint d) = sint (d :: u32)" by (simp add: s32_def)

lemma uint_lt_iff: "uint (d :: u32) < 2^31 \<longleftrightarrow> unat d < 2^31"
  by (simp only: unat_eq_nat_uint nat_less_iff [OF uint_ge_0]) simp

lemma sint_small: "unat (d :: u32) < 2 ^ 31 \<Longrightarrow> sint d = uint d"
proof -
  assume "unat d < 2^31"
  then have "uint d < 2^31" by (simp only: uint_lt_iff)
  then have "s32 (uint d) = uint d" using uint_ge_0[of d] by (intro s32_id) linarith+
  then show ?thesis by (simp only: s32_uint)
qed

lemma sint_large: "2 ^ 31 \<le> unat (d :: u32) \<Longrightarrow> sint d = uint d - 2 ^ 32"
proof -
  assume "2 ^ 31 \<le> unat d"
  then have ge: "2 ^ 31 \<le> uint d" using uint_lt_iff[of d] by linarith
  have "(2 ^ 32 :: u32) = 0" by simp
  then have "(word_of_int (uint d - 2 ^ 32) :: u32) = d"
    by (simp only: of_int_diff of_int_power of_int_numeral word_of_int_uint diff_zero)
  then have "sint d = s32 (uint d - 2 ^ 32)"
    by (simp only: s32_def)
  also have "\<dots> = uint d - 2 ^ 32"
    using ge uint_lt_32 [of d] by (intro s32_id) simp_all
  finally show ?thesis .
qed

lemma sint_nonneg_iff [word_conv]: "0 \<le> sint (d :: u32) \<longleftrightarrow> unat d < 2 ^ 31"
proof (cases "unat d < 2 ^ 31")
  case False
  then have "sint d = uint d - 2 ^ 32" by (intro sint_large) linarith
  then show ?thesis using False uint_lt_32 [of d] by linarith
qed (simp only: sint_small uint_ge_0)

lemma sint_neg_iff [word_conv]: "sint (d :: u32) < 0 \<longleftrightarrow> 2 ^ 31 \<le> unat d"
  using sint_nonneg_iff [of d] by linarith

lemma sint_pos_iff [word_conv]: "0 < sint (d :: u32) \<longleftrightarrow> 0 < unat d \<and> unat d < 2 ^ 31"
  using sint_nonneg_iff [of d] sint_small[of d] uint_nat[of d] by linarith

lemma uint_int_iff [simp]:
  "uint (w :: 'a :: len word) < int n \<longleftrightarrow> unat w < n"
  "uint w \<le> int n \<longleftrightarrow> unat w \<le> n"
  "int n < uint w \<longleftrightarrow> n < unat w"
  "int n \<le> uint w \<longleftrightarrow> n \<le> unat w"
  "uint w = int n \<longleftrightarrow> unat w = n"
  unfolding uint_nat by (simp_all only: of_nat_less_iff of_nat_le_iff of_nat_eq_iff)

lemma unat_word_of_int: "0 \<le> k \<Longrightarrow> k < 2 ^ 32 \<Longrightarrow> unat (word_of_int k :: u32) = nat k"
proof -
  assume "0 \<le> k" "k < 2 ^ 32"
  then have "uint (word_of_int k :: u32) = k" by (simp add: uint_word_of_int_eq take_bit_int_eq_self)
  then show ?thesis by (simp only: unat_eq_nat_uint)
qed

lemma unat_add_small: "unat a + unat b < 2 ^ 32 \<Longrightarrow> unat (a + b :: u32) = unat a + unat b"
  by (simp add: unat_word_ariths)

lemma unat_Suc_small: "unat a + 1 < 2 ^ 32 \<Longrightarrow> unat (a + 1 :: u32) = unat a + 1"
  by (simp add: unat_word_ariths)

lemma unat_diff_ge: "b \<le> a \<Longrightarrow> unat (a - b :: u32) = unat a - unat b"
  by (simp add: unat_sub word_le_nat_alt)

lemma byte_and_255 [simp]: "ucast (x AND 255 :: 'a :: len word) = (ucast x :: byte)"
proof (rule bit_word_eqI)
  fix n
  have "(255 :: 'a word) = mask 8" by (simp add: mask_eq_exp_minus_1)
  then have "bit (255 :: 'a word) n \<longleftrightarrow> n < 8 \<and> n < LENGTH('a)"
    by (simp only: bit_mask_iff min_less_iff_conj conj_commute) simp
  then show "bit (ucast (x AND 255) :: byte) n = bit (ucast x :: byte) n" if "n < LENGTH(8)"
    using that by (auto simp: bit_simps dest: bit_imp_le_length)
qed

lemma byte_add_push:
  "ucast (a :: byte) + push_bit 8 x = ucast a OR push_bit 8 (x :: 'a :: len word)"
  by (rule disjunctive_add) (auto simp: bit_simps dest: bit_imp_le_length)

section \<open>Big-endian numbers\<close>

definition be16 :: "byte \<Rightarrow> byte \<Rightarrow> u16" where
  "be16 a b = push_bit 8 (ucast a) OR ucast b"

definition be32 :: "byte \<Rightarrow> byte \<Rightarrow> byte \<Rightarrow> byte \<Rightarrow> u32" where
  "be32 a b c d = push_bit 24 (ucast a) OR push_bit 16 (ucast b) OR push_bit 8 (ucast c) OR ucast d"

lemma be16_split: "be16 (ucast (drop_bit 8 sq)) (ucast sq) = sq"
  unfolding be16_def by (rule bit_word_eqI) (auto simp: bit_simps)

lemma be32_split:
  "be32 (ucast (drop_bit 24 w)) (ucast (drop_bit 16 w)) (ucast (drop_bit 8 w)) (ucast w) = w"
proof (rule bit_word_eqI)
  fix n assume "n < LENGTH(32)"
  consider "n < 8" | "8 \<le> n" "n < 16" | "16 \<le> n" "n < 24" | "24 \<le> n" by linarith
  then show "bit (be32 (ucast (drop_bit 24 w)) (ucast (drop_bit 16 w)) (ucast (drop_bit 8 w)) (ucast w)) n = bit w n"
    unfolding be32_def using \<open>n < LENGTH(32)\<close> by cases (auto simp: bit_simps)
qed

section \<open>Lists\<close>

lemma sorted_wrt_snoc:
  "sorted_wrt P (xs @ [x]) \<longleftrightarrow> sorted_wrt P xs \<and> (\<forall>y \<in> set xs. P y x)"
  by (simp add: sorted_wrt_append)

lemma Ball_map_cong:
  assumes "map P xs = map P ys"
  shows "(\<forall>x \<in> set xs. P x) \<longleftrightarrow> (\<forall>x \<in> set ys. P x)"
proof -
  have "set (map P xs) = set (map P ys)" by (simp only: assms)
  then show ?thesis by (auto 0 4)
qed

end
