(* ===== verification/Kcp_Codec.thy ===== *)
theory Kcp_Codec
  imports Prelude
begin

unbundle bit_operations_syntax

text \<open>
  The basic layer of \<^verbatim>\<open>ikcp.c\<close>: the protocol constants, the little-endian encoders and
  decoders of the wire format and the small arithmetic helpers. A decoder that would read
  past the end of its buffer is \<^const>\<open>None\<close>. The encoders have two compiled variants: the
  byte-wise one (big-endian hosts and hosts that must align, the ARM camera board among
  them) and a \<^verbatim>\<open>memcpy\<close> of the object representation (x86); both are modelled and shown
  equal on a little-endian host. The locale \<open>byte_codec\<close> is the contract the parser of
  \<^verbatim>\<open>ikcp_input\<close> relies on.
\<close>

section \<open>Constants\<close>

definition IKCP_RTO_NDL :: u32 where "IKCP_RTO_NDL = 30"
definition IKCP_RTO_MIN :: u32 where "IKCP_RTO_MIN = 100"
definition IKCP_RTO_DEF :: u32 where "IKCP_RTO_DEF = 200"
definition IKCP_RTO_MAX :: u32 where "IKCP_RTO_MAX = 60000"
definition IKCP_CMD_PUSH :: u32 where "IKCP_CMD_PUSH = 81"
definition IKCP_CMD_ACK :: u32 where "IKCP_CMD_ACK = 82"
definition IKCP_CMD_WASK :: u32 where "IKCP_CMD_WASK = 83"
definition IKCP_CMD_WINS :: u32 where "IKCP_CMD_WINS = 84"
definition IKCP_ASK_SEND :: u32 where "IKCP_ASK_SEND = 1"
definition IKCP_ASK_TELL :: u32 where "IKCP_ASK_TELL = 2"
definition IKCP_WND_SND :: u32 where "IKCP_WND_SND = 32"
definition IKCP_WND_RCV :: u32 where "IKCP_WND_RCV = 128"
definition IKCP_MTU_DEF :: u32 where "IKCP_MTU_DEF = 1400"
definition IKCP_INTERVAL :: u32 where "IKCP_INTERVAL = 100"
definition IKCP_OVERHEAD :: u32 where "IKCP_OVERHEAD = 24"
definition IKCP_DEADLINK :: u32 where "IKCP_DEADLINK = 20"
definition IKCP_THRESH_INIT :: u32 where "IKCP_THRESH_INIT = 2"
definition IKCP_THRESH_MIN :: u32 where "IKCP_THRESH_MIN = 2"
definition IKCP_PROBE_INIT :: u32 where "IKCP_PROBE_INIT = 7000"
definition IKCP_PROBE_LIMIT :: u32 where "IKCP_PROBE_LIMIT = 120000"
definition IKCP_FASTACK_LIMIT :: u32 where "IKCP_FASTACK_LIMIT = 5"

lemmas ikcp_consts =
  IKCP_RTO_NDL_def IKCP_RTO_MIN_def IKCP_RTO_DEF_def IKCP_RTO_MAX_def
  IKCP_CMD_PUSH_def IKCP_CMD_ACK_def IKCP_CMD_WASK_def IKCP_CMD_WINS_def
  IKCP_ASK_SEND_def IKCP_ASK_TELL_def IKCP_WND_SND_def IKCP_WND_RCV_def
  IKCP_MTU_DEF_def IKCP_INTERVAL_def IKCP_OVERHEAD_def IKCP_DEADLINK_def
  IKCP_THRESH_INIT_def IKCP_THRESH_MIN_def IKCP_PROBE_INIT_def IKCP_PROBE_LIMIT_def
  IKCP_FASTACK_LIMIT_def

section \<open>Encoders and decoders\<close>

definition ikcp_encode8u :: "byte \<Rightarrow> bytes" where
  "ikcp_encode8u c = [c]"

fun ikcp_decode8u :: "bytes \<Rightarrow> (byte \<times> bytes) option" where
  "ikcp_decode8u (c # p) = Some (c, p)"
| "ikcp_decode8u [] = None"

definition ikcp_encode16u :: "u16 \<Rightarrow> bytes" where
  "ikcp_encode16u w = [ucast (w AND 255), ucast (drop_bit 8 w)]"

fun ikcp_decode16u :: "bytes \<Rightarrow> (u16 \<times> bytes) option" where
  "ikcp_decode16u (p0 # p1 # p) = Some (ucast p0 + push_bit 8 (ucast p1), p)"
| "ikcp_decode16u _ = None"

definition ikcp_encode32u :: "u32 \<Rightarrow> bytes" where
  "ikcp_encode32u l =
     [ucast (drop_bit 0 l AND 255), ucast (drop_bit 8 l AND 255),
      ucast (drop_bit 16 l AND 255), ucast (drop_bit 24 l AND 255)]"

fun ikcp_decode32u :: "bytes \<Rightarrow> (u32 \<times> bytes) option" where
  "ikcp_decode32u (p0 # p1 # p2 # p3 # p) =
     Some (let l = ucast p3;
               l = ucast p2 + push_bit 8 l;
               l = ucast p1 + push_bit 8 l;
               l = ucast p0 + push_bit 8 l
           in l, p)"
| "ikcp_decode32u _ = None"

text \<open>
  The \<^verbatim>\<open>memcpy\<close> variants: the bytes of the object in increasing address order, which on a
  little-endian host are the base-256 digits, least significant first.
\<close>

definition le_bytes :: "nat \<Rightarrow> 'a :: len word \<Rightarrow> bytes" where
  "le_bytes n w = map (\<lambda>i. ucast (drop_bit (8 * i) w)) [0..<n]"

definition le_value :: "bytes \<Rightarrow> 'a :: len word" where
  "le_value bs = (\<Sum>i < length bs. push_bit (8 * i) (ucast (bs ! i)))"

definition ikcp_encode16u_memcpy :: "u16 \<Rightarrow> bytes" where
  "ikcp_encode16u_memcpy w = le_bytes 2 w"

definition ikcp_decode16u_memcpy :: "bytes \<Rightarrow> (u16 \<times> bytes) option" where
  "ikcp_decode16u_memcpy p =
     (if length p < 2 then None else Some (le_value (take 2 p), drop 2 p))"

definition ikcp_encode32u_memcpy :: "u32 \<Rightarrow> bytes" where
  "ikcp_encode32u_memcpy l = le_bytes 4 l"

definition ikcp_decode32u_memcpy :: "bytes \<Rightarrow> (u32 \<times> bytes) option" where
  "ikcp_decode32u_memcpy p =
     (if length p < 4 then None else Some (le_value (take 4 p), drop 4 p))"

section \<open>Arithmetic helpers\<close>

definition imin :: "u32 \<Rightarrow> u32 \<Rightarrow> u32" where
  "imin a b = (if a \<le> b then a else b)"

definition imax :: "u32 \<Rightarrow> u32 \<Rightarrow> u32" where
  "imax a b = (if a \<ge> b then a else b)"

definition ibound :: "u32 \<Rightarrow> u32 \<Rightarrow> u32 \<Rightarrow> u32" where
  "ibound lower middle upper = imin (imax lower middle) upper"

definition itimediff :: "u32 \<Rightarrow> u32 \<Rightarrow> int" where
  "itimediff later earlier = sint (later - earlier)"

section \<open>The codec contract\<close>

text \<open>
  What the wire format promises its users: an encoding has a fixed width, decoding takes
  exactly that many bytes off the front and gives the value back, and it fails on a shorter
  buffer and on no other.
\<close>

locale byte_codec =
  fixes enc :: "'a \<Rightarrow> bytes"
    and dec :: "bytes \<Rightarrow> ('a \<times> bytes) option"
    and width :: nat
  assumes enc_width: "length (enc x) = width"
    and dec_enc: "dec (enc x @ p) = Some (x, p)"
    and dec_short: "length p < width \<Longrightarrow> dec p = None"
    and dec_long: "width \<le> length p \<Longrightarrow> \<exists>x. dec p = Some (x, drop width p)"
begin

lemma enc_inject: "enc x @ p = enc y @ q \<longleftrightarrow> x = y \<and> p = q"
  by (metis Pair_inject dec_enc option.inject)

lemma dec_None_iff: "dec p = None \<longleftrightarrow> length p < width"
  using dec_long [of p] dec_short [of p] by force

lemma dec_rest: "dec p = Some (x, q) \<Longrightarrow> width \<le> length p \<and> q = drop width p"
  using dec_long [of p] dec_short [of p] by (cases "length p < width") auto

lemma dec_rest_length: "dec p = Some (x, q) \<Longrightarrow> length p = width + length q"
  using dec_rest [of p x q] by auto

end

lemma split16: "(w :: u16) = ucast (ucast w :: byte) + push_bit 8 (ucast (ucast (drop_bit 8 w) :: byte))"
  unfolding byte_add_push by (rule bit_word_eqI) (auto simp: bit_simps not_less)

lemma split32:
  "(l :: u32) = ucast (ucast l :: byte) + push_bit 8 (ucast (ucast (drop_bit 8 l) :: byte) +
     push_bit 8 (ucast (ucast (drop_bit 16 l) :: byte) +
       push_bit 8 (ucast (ucast (drop_bit 24 l) :: byte))))"
  unfolding byte_add_push
proof (rule bit_word_eqI)
  fix n assume n: "n < LENGTH(32)"
  consider "n < 8" | "8 \<le> n" "n < 16" | "16 \<le> n" "n < 24" | "24 \<le> n" by linarith
  then show "bit l n = bit ((ucast (ucast l :: byte) :: u32) OR push_bit 8 (ucast (ucast (drop_bit 8 l) :: byte) OR
     push_bit 8 (ucast (ucast (drop_bit 16 l) :: byte) OR
       push_bit 8 (ucast (ucast (drop_bit 24 l) :: byte))))) n"
    using n by cases (auto simp: bit_simps)
qed

interpretation c8: byte_codec ikcp_encode8u ikcp_decode8u 1
proof unfold_locales
  show "\<exists>x. ikcp_decode8u p = Some (x, drop 1 p)" if "1 \<le> length p" for p
    using that by (cases p rule: ikcp_decode8u.cases) auto
  show "ikcp_decode8u p = None" if "length p < 1" for p
    using that by (cases p rule: ikcp_decode8u.cases) auto
qed (simp_all add: ikcp_encode8u_def)

interpretation c16: byte_codec ikcp_encode16u ikcp_decode16u 2
proof unfold_locales
  show "\<exists>x. ikcp_decode16u p = Some (x, drop 2 p)" if "2 \<le> length p" for p
    using that by (cases p rule: ikcp_decode16u.cases) auto
  show "ikcp_decode16u p = None" if "length p < 2" for p
    using that by (cases p rule: ikcp_decode16u.cases) auto
qed (simp_all add: ikcp_encode16u_def split16 [symmetric])

interpretation c32: byte_codec ikcp_encode32u ikcp_decode32u 4
proof unfold_locales
  show "\<exists>x. ikcp_decode32u p = Some (x, drop 4 p)" if "4 \<le> length p" for p
    using that by (cases p rule: ikcp_decode32u.cases) auto
  show "ikcp_decode32u p = None" if "length p < 4" for p
    using that by (cases p rule: ikcp_decode32u.cases) auto
qed (simp_all add: ikcp_encode32u_def Let_def split32 [symmetric])

lemmas codec_widths [simp] = c8.enc_width c16.enc_width c32.enc_width
lemmas codec_inverse [simp] = c8.dec_enc c16.dec_enc c32.dec_enc

section \<open>The two compiled variants agree\<close>

lemma memcpy16_enc: "ikcp_encode16u_memcpy w = ikcp_encode16u w"
  by (simp add: ikcp_encode16u_memcpy_def le_bytes_def ikcp_encode16u_def upt_rec)

lemma memcpy16_dec: "ikcp_decode16u_memcpy p = ikcp_decode16u p"
  by (cases p rule: ikcp_decode16u.cases)
    (simp_all add: ikcp_decode16u_memcpy_def le_value_def)

lemma memcpy32_enc: "ikcp_encode32u_memcpy w = ikcp_encode32u w"
  by (simp add: ikcp_encode32u_memcpy_def le_bytes_def ikcp_encode32u_def upt_rec)

lemma memcpy32_dec: "ikcp_decode32u_memcpy p = ikcp_decode32u p"
  by (cases p rule: ikcp_decode32u.cases)
    (simp_all add: ikcp_decode32u_memcpy_def le_value_def eval_nat_numeral Let_def
      push_bit_add push_bit_push_bit ac_simps del: push_bit_Suc)

end
