(* ===== verification/Kcp_State.thy ===== *)
theory Kcp_State
  imports Kcp_Codec
begin

unbundle bit_operations_syntax

text \<open>
  The data of \<^verbatim>\<open>ikcp.h\<close> (segments, the control block) and the operations of \<^verbatim>\<open>ikcp.c\<close> that
  create and configure a control block. The intrusive queues are lists of segments, first
  element first. Unsigned fields are words of their width, \<^verbatim>\<open>IINT32\<close> and \<^verbatim>\<open>int\<close> fields are
  integers with the conversions written out (\<^const>\<open>s32\<close>), \<open>acklist\<close> is the flat array of
  (sn, ts) words, \<open>buffer\<close> is the size of the output buffer (\<^const>\<open>None\<close> for NULL) and
  \<open>output_cb\<close> (the \<^verbatim>\<open>output\<close> member) tells whether an output callback is installed; what the callback is given is
  the list of datagrams a call returns. The logging members and the opaque \<^verbatim>\<open>user\<close> pointer
  have no influence on the protocol and are left out.
\<close>

record IKCPSEG =
  seg_conv :: u32
  seg_cmd :: u32
  seg_frg :: u32
  seg_wnd :: u32
  seg_ts :: u32
  seg_sn :: u32
  seg_una :: u32
  seg_len :: u32
  seg_resendts :: u32
  seg_rto :: u32
  seg_fastack :: u32
  seg_xmit :: u32
  seg_data :: bytes

record IKCPCB =
  conv :: u32
  mtu :: u32
  mss :: u32
  state :: u32
  snd_una :: u32
  snd_nxt :: u32
  rcv_nxt :: u32
  ts_recent :: u32
  ts_lastack :: u32
  ssthresh :: u32
  rx_rttval :: int
  rx_srtt :: int
  rx_rto :: int
  rx_minrto :: int
  snd_wnd :: u32
  rcv_wnd :: u32
  rmt_wnd :: u32
  cwnd :: u32
  probe :: u32
  current :: u32
  interval :: u32
  ts_flush :: u32
  xmit :: u32
  nrcv_buf :: u32
  nsnd_buf :: u32
  nrcv_que :: u32
  nsnd_que :: u32
  nodelay :: u32
  updated :: u32
  ts_probe :: u32
  probe_wait :: u32
  dead_link :: u32
  incr :: u32
  snd_queue :: "IKCPSEG list"
  rcv_queue :: "IKCPSEG list"
  snd_buf :: "IKCPSEG list"
  rcv_buf :: "IKCPSEG list"
  acklist :: "u32 list"
  ackcount :: u32
  ackblock :: u32
  buffer :: "nat option"
  fastresend :: int
  fastlimit :: int
  nocwnd :: int
  stream :: int
  output_cb :: bool

text \<open>
  A segment is well formed for segments of at most \<open>m\<close> bytes when its data is as long as
  its length field says and no longer than \<open>m\<close>, and its fragment number fits the header's
  byte. A segment in the send buffer is tagged as data of the conversation.
\<close>

definition seg_wf :: "nat \<Rightarrow> IKCPSEG \<Rightarrow> bool" where
  "seg_wf m seg \<longleftrightarrow> length (seg_data seg) = unat (seg_len seg) \<and> unat (seg_len seg) \<le> m \<and>
     unat (seg_frg seg) < 256"

definition pushed :: "u32 \<Rightarrow> IKCPSEG \<Rightarrow> bool" where
  "pushed cv seg \<longleftrightarrow> seg_conv seg = cv \<and> seg_cmd seg = IKCP_CMD_PUSH"

definition payload :: "IKCPSEG list \<Rightarrow> bytes" where
  "payload q = concat (map seg_data q)"

lemma payload_simps [simp]:
  "payload [] = []"
  "payload (s # q) = seg_data s @ payload q"
  "payload (p @ q) = payload p @ payload q"
  by (simp_all add: payload_def)

lemma payload_bound: "\<forall>s \<in> set q. seg_wf m s \<Longrightarrow> length (payload q) \<le> length q * m"
  by (induction q) (auto simp: seg_wf_def)

text \<open>
  The allocator (\<^verbatim>\<open>malloc\<close>, or the hook installed with \<^verbatim>\<open>ikcp_allocator\<close>) is a parameter:
  for a request it gives nothing (NULL) or a block with whatever contents the memory had.
  \<open>allocator_sound\<close> is what the C standard says of it (a block is as large as
  requested), \<open>allocator_total\<close> that it does not run out of memory.
\<close>

record allocator =
  new_block :: "nat \<Rightarrow> bool"
  new_seg :: "nat \<Rightarrow> IKCPSEG option"
  new_array :: "nat \<Rightarrow> u32 list option"

definition allocator_sound :: "allocator \<Rightarrow> bool" where
  "allocator_sound al \<longleftrightarrow> (\<forall>n xs. new_array al n = Some xs \<longrightarrow> length xs = n)"

definition allocator_total :: "allocator \<Rightarrow> bool" where
  "allocator_total al \<longleftrightarrow>
     (\<forall>n. new_block al n) \<and> (\<forall>n. new_seg al n \<noteq> None) \<and> (\<forall>n. new_array al n \<noteq> None)"

section \<open>Creating and configuring a control block\<close>

text \<open>\<^verbatim>\<open>ikcp_create\<close> returns NULL when either allocation fails.\<close>

definition ikcp_create :: "allocator \<Rightarrow> nat \<Rightarrow> u32 \<Rightarrow> IKCPCB option" where
  "ikcp_create al sizeof_cb cv =
     (if \<not> new_block al sizeof_cb then None
      else if \<not> new_block al (unat ((IKCP_MTU_DEF + IKCP_OVERHEAD) * 3)) then None
      else Some
        \<lparr> conv = cv, mtu = IKCP_MTU_DEF, mss = IKCP_MTU_DEF - IKCP_OVERHEAD, state = 0,
          snd_una = 0, snd_nxt = 0, rcv_nxt = 0, ts_recent = 0, ts_lastack = 0,
          ssthresh = IKCP_THRESH_INIT, rx_rttval = 0, rx_srtt = 0,
          rx_rto = uint IKCP_RTO_DEF, rx_minrto = uint IKCP_RTO_MIN,
          snd_wnd = IKCP_WND_SND, rcv_wnd = IKCP_WND_RCV, rmt_wnd = IKCP_WND_RCV,
          cwnd = 0, probe = 0, current = 0, interval = IKCP_INTERVAL,
          ts_flush = IKCP_INTERVAL, xmit = 0, nrcv_buf = 0, nsnd_buf = 0, nrcv_que = 0,
          nsnd_que = 0, nodelay = 0, updated = 0, ts_probe = 0, probe_wait = 0,
          dead_link = IKCP_DEADLINK, incr = 0, snd_queue = [], rcv_queue = [],
          snd_buf = [], rcv_buf = [], acklist = [], ackcount = 0, ackblock = 0,
          buffer = Some (unat ((IKCP_MTU_DEF + IKCP_OVERHEAD) * 3)), fastresend = 0,
          fastlimit = uint IKCP_FASTACK_LIMIT, nocwnd = 0, stream = 0, output_cb = False \<rparr>)"

text \<open>
  \<^verbatim>\<open>ikcp_release\<close> asserts that it was given a control block, empties the four queues and
  frees everything; the model returns the block as it is just before its own memory goes
  (the argument is \<^const>\<open>None\<close> for NULL).
\<close>

definition ikcp_release :: "IKCPCB option \<Rightarrow> IKCPCB res" where
  "ikcp_release okcp =
     (case okcp of
        None \<Rightarrow> Inl Assert_failed
      | Some kcp \<Rightarrow> Inr
          (kcp\<lparr>snd_buf := [], rcv_buf := [], snd_queue := [], rcv_queue := [],
             nrcv_buf := 0, nsnd_buf := 0, nrcv_que := 0, nsnd_que := 0, ackcount := 0,
             buffer := None, acklist := []\<rparr>))"

definition ikcp_setoutput :: "IKCPCB \<Rightarrow> bool \<Rightarrow> IKCPCB" where
  "ikcp_setoutput kcp cb = kcp\<lparr>output_cb := cb\<rparr>"

definition ikcp_setmtu :: "allocator \<Rightarrow> IKCPCB \<Rightarrow> int \<Rightarrow> int \<times> IKCPCB" where
  "ikcp_setmtu al kcp m =
     (if m < 50 \<or> m < sint IKCP_OVERHEAD then (-1, kcp)
      else let size = unat ((word_of_int m + IKCP_OVERHEAD) * 3)
      in if \<not> new_block al size then (-2, kcp)
      else (0, kcp\<lparr>mtu := word_of_int m, mss := word_of_int m - IKCP_OVERHEAD,
                   buffer := Some size\<rparr>))"

definition clamp_interval :: "int \<Rightarrow> int" where
  "clamp_interval i = (if i > 5000 then 5000 else if i < 10 then 10 else i)"

definition ikcp_interval :: "IKCPCB \<Rightarrow> int \<Rightarrow> int \<times> IKCPCB" where
  "ikcp_interval kcp i = (0, kcp\<lparr>interval := word_of_int (clamp_interval i)\<rparr>)"

definition ikcp_nodelay :: "IKCPCB \<Rightarrow> int \<Rightarrow> int \<Rightarrow> int \<Rightarrow> int \<Rightarrow> int \<times> IKCPCB" where
  "ikcp_nodelay kcp nd i resend nc =
     (let kcp = (if nd \<ge> 0 then
                   kcp\<lparr>nodelay := word_of_int nd,
                       rx_minrto := (if nd \<noteq> 0 then uint IKCP_RTO_NDL else uint IKCP_RTO_MIN)\<rparr>
                 else kcp);
          kcp = (if i \<ge> 0 then kcp\<lparr>interval := word_of_int (clamp_interval i)\<rparr> else kcp);
          kcp = (if resend \<ge> 0 then kcp\<lparr>fastresend := resend\<rparr> else kcp);
          kcp = (if nc \<ge> 0 then kcp\<lparr>nocwnd := nc\<rparr> else kcp)
      in (0, kcp))"

definition ikcp_wndsize :: "IKCPCB \<Rightarrow> int \<Rightarrow> int \<Rightarrow> int \<times> IKCPCB" where
  "ikcp_wndsize kcp sndwnd rcvwnd =
     (let kcp = (if sndwnd > 0 then kcp\<lparr>snd_wnd := word_of_int sndwnd\<rparr> else kcp);
          kcp = (if rcvwnd > 0
                 then kcp\<lparr>rcv_wnd := imax (word_of_int rcvwnd) IKCP_WND_RCV\<rparr> else kcp)
      in (0, kcp))"

definition ikcp_waitsnd :: "IKCPCB \<Rightarrow> int" where
  "ikcp_waitsnd kcp = sint (nsnd_buf kcp + nsnd_que kcp)"

definition ikcp_getconv :: "bytes \<Rightarrow> u32 res" where
  "ikcp_getconv ptr =
     (case ikcp_decode32u ptr of None \<Rightarrow> Inl Out_of_bounds | Some (cv, _) \<Rightarrow> Inr cv)"

end
