(* ===== verification/Serial.thy ===== *)
theory Serial
  imports Kcp_Codec
begin

text \<open>
  Serial number arithmetic. KCP compares sequence numbers and times with the signed
  difference \<^const>\<open>itimediff\<close>; that is an order only on numbers within half of the 32-bit
  circle of each other. \<open>in_window base lim xs\<close> says that the numbers \<open>xs\<close> lie less than
  \<open>lim\<close> after \<open>base\<close> (modulo wrap-around) and are strictly increasing there; it is what the
  send buffer is relative to \<open>snd_una\<close> and the receive buffer relative to \<open>rcv_nxt\<close>.
\<close>

definition offset :: "u32 \<Rightarrow> u32 \<Rightarrow> nat" where
  "offset base x = unat (x - base)"

definition in_window :: "u32 \<Rightarrow> nat \<Rightarrow> u32 list \<Rightarrow> bool" where
  "in_window base lim xs \<longleftrightarrow>
     sorted_wrt (\<lambda>x y. offset base x < offset base y) xs \<and> (\<forall>x \<in> set xs. offset base x < lim)"

lemma offset_lt: "offset base x < 2 ^ 32"
  unfolding offset_def by (rule unat_lt_32)

lemma offset_self [simp]: "offset base base = 0"
  by (simp add: offset_def)

lemma offset_add [simp]: "offset base (base + x) = unat x"
  by (simp add: offset_def)

lemma offset_inject: "offset base x = offset base y \<longleftrightarrow> x = y"
  by (simp add: offset_def word_unat_eq_iff [symmetric])

lemma offset_rebase:
  assumes "offset base b \<le> offset base x"
  shows "offset b x = offset base x - offset base b"
proof -
  have "unat ((x - base) - (b - base)) = unat (x - base) - unat (b - base)"
    using assms by (intro unat_diff_ge) (simp add: offset_def word_le_nat_alt)
  then show ?thesis by (simp add: offset_def)
qed

lemma sint_diff:
  assumes "unat (a :: u32) < 2 ^ 31" and "unat b < 2 ^ 31"
  shows "sint (a - b) = uint a - uint b"
proof -
  have "uint a < 2 ^ 31" "uint b < 2 ^ 31" using assms by (simp_all only: uint_lt_iff)
  then have "s32 (uint a - uint b) = uint a - uint b"
    using uint_ge_0 [of a] uint_ge_0 [of b] by (intro s32_id) linarith+
  then show ?thesis by (simp add: s32_def)
qed

lemma itimediff_window [word_conv]:
  assumes "offset base x < 2 ^ 31" and "offset base y < 2 ^ 31"
  shows "itimediff x y = int (offset base x) - int (offset base y)"
proof -
  have "x - y = (x - base) - (y - base)" by simp
  then show ?thesis
    using sint_diff [of "x - base" "y - base"] assms by (simp add: itimediff_def offset_def)
qed

lemma itimediff_base:
  "itimediff x base < 0 \<longleftrightarrow> 2 ^ 31 \<le> offset base x"
  "0 \<le> itimediff x base \<longleftrightarrow> offset base x < 2 ^ 31"
  unfolding itimediff_def offset_def by (rule sint_neg_iff, rule sint_nonneg_iff)

text \<open>The acceptance test of the receive window and its like: two signed comparisons.\<close>

lemma itimediff_range:
  assumes "unat w < 2 ^ 31"
  shows "0 \<le> itimediff x base \<and> itimediff x (base + w) < 0 \<longleftrightarrow> offset base x < unat w"
proof (cases "offset base x < 2 ^ 31")
  case True
  with assms have "itimediff x (base + w) = int (offset base x) - int (unat w)"
    using itimediff_window [of base x "base + w"] by simp
  then show ?thesis using True by (simp add: itimediff_base)
next
  case False
  with assms show ?thesis by (simp add: itimediff_base)
qed

section \<open>Windows\<close>

lemma in_window_Nil [simp]: "in_window base lim []"
  by (simp add: in_window_def)

lemma in_window_cut: "in_window base lim (xs @ d @ ys) \<Longrightarrow> in_window base lim (xs @ ys)"
  by (auto simp: in_window_def sorted_wrt_append)

lemma in_window_suffix: "in_window base lim (d @ ys) \<Longrightarrow> in_window base lim ys"
  using in_window_cut [of base lim "[]"] by simp

lemma in_window_mono: "in_window base lim xs \<Longrightarrow> lim \<le> lim' \<Longrightarrow> in_window base lim' xs"
  by (fastforce simp: in_window_def)

lemma in_window_distinct: "in_window base lim xs \<Longrightarrow> distinct xs"
  unfolding in_window_def
  by (induction xs) auto

lemma in_window_snoc:
  assumes "in_window base lim xs" and "lim < 2 ^ 32"
  shows "in_window base (Suc lim) (xs @ [base + of_nat lim])"
proof -
  have "offset base (base + of_nat lim) = lim"
    using assms(2) by (simp add: unat_of_nat)
  then show ?thesis
    using assms(1) by (fastforce simp: in_window_def sorted_wrt_append)
qed

lemma in_window_rebase:
  assumes "in_window base lim xs" and "\<forall>x \<in> set xs. offset base b \<le> offset base x"
  shows "in_window b (lim - offset base b) xs"
proof -
  have "sorted_wrt (\<lambda>x y. offset b x < offset b y) xs"
  proof (rule sorted_wrt_mono_rel)
    show "sorted_wrt (\<lambda>x y. offset base x < offset base y) xs"
      using assms(1) by (simp add: in_window_def)
    show "offset b x < offset b y"
      if "x \<in> set xs" "y \<in> set xs" "offset base x < offset base y" for x y
      using that assms(2) offset_rebase [of base b x] offset_rebase [of base b y]
      by (simp add: diff_less_mono)
  qed
  moreover have "offset b x < lim - offset base b" if "x \<in> set xs" for x
    using that assms offset_rebase [of base b x] by (auto simp: in_window_def diff_less_mono)
  ultimately show ?thesis by (simp add: in_window_def)
qed

lemma in_window_hd_rebase:
  assumes "in_window base lim (x # xs)"
  shows "in_window x (lim - offset base x) (x # xs)"
  using assms by (intro in_window_rebase) (auto simp: in_window_def)

end
