(* ===== verification/Kcp_Send.thy ===== *)
theory Kcp_Send
  imports Kcp_State Serial
begin

text \<open>
  The sending half of \<^verbatim>\<open>ikcp.c\<close>: \<^verbatim>\<open>ikcp_send\<close> with its fragmentation loop and streaming
  mode, and what an incoming acknowledgement does to the send buffer (\<^verbatim>\<open>ikcp_update_ack\<close>,
  \<^verbatim>\<open>ikcp_shrink_buf\<close>, \<^verbatim>\<open>ikcp_parse_ack\<close>, \<^verbatim>\<open>ikcp_parse_una\<close>, \<^verbatim>\<open>ikcp_parse_fastack\<close>).
  The user's buffer is the list of its bytes; reading past its end is a fault.
\<close>

section \<open>Sending\<close>

text \<open>
  The fragmentation loop, by the number of fragments still to make: with \<open>n\<close> more to come
  after this one, \<^verbatim>\<open>count - i - 1\<close> is \<open>n\<close>.
\<close>

fun send_frags :: "allocator \<Rightarrow> nat \<Rightarrow> IKCPCB \<Rightarrow> bytes \<Rightarrow> int \<Rightarrow> int \<Rightarrow> (int \<times> IKCPCB) res" where
  "send_frags al 0 kcp buf len sent = Inr (sent, kcp)"
| "send_frags al (Suc n) kcp buf len sent =
     (let size = (if len > sint (mss kcp) then sint (mss kcp) else len)
      in case new_seg al (nat size) of
           None \<Rightarrow> Inl Assert_failed
         | Some seg \<Rightarrow>
             if len > 0 \<and> length buf < nat size then Inl Out_of_bounds
             else let seg = seg\<lparr>seg_data := (if len > 0 then take (nat size) buf
                                            else take (nat size) (seg_data seg)),
                               seg_len := word_of_int size,
                               seg_frg := (if stream kcp = 0 then of_nat n else 0)\<rparr>
                  in send_frags al n
                       (kcp\<lparr>snd_queue := snd_queue kcp @ [seg], nsnd_que := nsnd_que kcp + 1\<rparr>)
                       (drop (nat size) buf) (len - size) (sent + size))"

definition send_count :: "IKCPCB \<Rightarrow> int \<Rightarrow> int" where
  "send_count kcp len =
     (if len \<le> sint (mss kcp) then 1
      else sint ((word_of_int len + mss kcp - 1) div mss kcp))"

text \<open>
  Streaming mode first fills up the last queued segment: a new segment with the old one's
  data and the first \<open>extend\<close> bytes of the buffer replaces it. The result is the control
  block, the rest of the buffer, and the bytes left and sent.
\<close>

definition stream_append ::
  "allocator \<Rightarrow> IKCPCB \<Rightarrow> bytes \<Rightarrow> int \<Rightarrow> (IKCPCB \<times> bytes \<times> int \<times> int) res" where
  "stream_append al kcp buf len =
     (if snd_queue kcp = [] then Inr (kcp, buf, len, 0)
      else let old = last (snd_queue kcp)
      in if seg_len old < mss kcp then
           let capacity = sint (mss kcp - seg_len old);
               extend = (if len < capacity then len else capacity)
           in case new_seg al (unat (seg_len old + word_of_int extend)) of
                None \<Rightarrow> Inl Assert_failed
              | Some seg \<Rightarrow>
                  if length buf < nat extend then Inl Out_of_bounds
                  else let seg = seg\<lparr>seg_data := take (unat (seg_len old)) (seg_data old) @ take (nat extend) buf,
                                    seg_len := seg_len old + word_of_int extend,
                                    seg_frg := 0\<rparr>
                       in Inr (kcp\<lparr>snd_queue := butlast (snd_queue kcp) @ [seg]\<rparr>,
                               drop (nat extend) buf, len - extend, extend)
         else Inr (kcp, buf, len, 0))"

definition send_rest ::
  "allocator \<Rightarrow> IKCPCB \<Rightarrow> bytes \<Rightarrow> int \<Rightarrow> int \<Rightarrow> (int \<times> IKCPCB) res" where
  "send_rest al kcp buf len sent =
     (let count = send_count kcp len
      in if count \<ge> sint IKCP_WND_RCV then
           (if stream kcp \<noteq> 0 \<and> sent > 0 then Inr (sent, kcp) else Inr (-2, kcp))
         else let count = (if count = 0 then 1 else count)
              in send_frags al (nat count) kcp buf len sent)"

definition ikcp_send :: "allocator \<Rightarrow> IKCPCB \<Rightarrow> bytes \<Rightarrow> int \<Rightarrow> (int \<times> IKCPCB) res" where
  "ikcp_send al kcp buf len =
     (if \<not> mss kcp > 0 then Inl Assert_failed
      else if len < 0 then Inr (-1, kcp)
      else if stream kcp \<noteq> 0 then
        rbind (stream_append al kcp buf len)
          (\<lambda>(kcp, buf, len, sent).
             if len \<le> 0 then Inr (sent, kcp) else send_rest al kcp buf len sent)
      else send_rest al kcp buf len 0)"

section \<open>Acknowledgements\<close>

text \<open>The new smoothed round-trip time and its variation.\<close>

definition rtt_estimate :: "IKCPCB \<Rightarrow> int \<Rightarrow> int \<times> int" where
  "rtt_estimate kcp rtt =
     (if rx_srtt kcp = 0 then (rtt, rtt sdiv 2)
      else
        let delta = s32 (rtt - rx_srtt kcp);
            delta = (if delta < 0 then - delta else delta);
            rttval = s32 ((s32 (3 * rx_rttval kcp) + delta) sdiv 4);
            srtt = s32 (s32 (s32 (7 * rx_srtt kcp) + rtt) sdiv 8)
        in (if srtt < 1 then 1 else srtt, rttval))"

definition ikcp_update_ack :: "IKCPCB \<Rightarrow> int \<Rightarrow> IKCPCB" where
  "ikcp_update_ack kcp rtt =
     (let (srtt, rttval) = rtt_estimate kcp rtt;
          rto = sint (word_of_int srtt + imax (interval kcp) (word_of_int (4 * rttval)))
      in kcp\<lparr>rx_srtt := srtt, rx_rttval := rttval,
             rx_rto := sint (ibound (word_of_int (rx_minrto kcp)) (word_of_int rto) IKCP_RTO_MAX)\<rparr>)"

definition ikcp_shrink_buf :: "IKCPCB \<Rightarrow> IKCPCB" where
  "ikcp_shrink_buf kcp =
     (case snd_buf kcp of
        seg # _ \<Rightarrow> kcp\<lparr>snd_una := seg_sn seg\<rparr>
      | [] \<Rightarrow> kcp\<lparr>snd_una := snd_nxt kcp\<rparr>)"

text \<open>The loop of \<^verbatim>\<open>ikcp_parse_ack\<close>: the buffer without the segment, and how many went.\<close>

fun parse_ack_loop :: "u32 \<Rightarrow> IKCPSEG list \<Rightarrow> IKCPSEG list \<times> u32" where
  "parse_ack_loop sn [] = ([], 0)"
| "parse_ack_loop sn (seg # p) =
     (if sn = seg_sn seg then (p, 1)
      else if itimediff sn (seg_sn seg) < 0 then (seg # p, 0)
      else let (q, k) = parse_ack_loop sn p in (seg # q, k))"

definition sn_outside :: "IKCPCB \<Rightarrow> u32 \<Rightarrow> bool" where
  "sn_outside kcp sn \<longleftrightarrow> itimediff sn (snd_una kcp) < 0 \<or> itimediff sn (snd_nxt kcp) \<ge> 0"

definition ikcp_parse_ack :: "IKCPCB \<Rightarrow> u32 \<Rightarrow> IKCPCB" where
  "ikcp_parse_ack kcp sn =
     (if sn_outside kcp sn then kcp
      else let (q, k) = parse_ack_loop sn (snd_buf kcp)
           in kcp\<lparr>snd_buf := q, nsnd_buf := nsnd_buf kcp - k\<rparr>)"

fun parse_una_loop :: "u32 \<Rightarrow> IKCPSEG list \<Rightarrow> IKCPSEG list \<times> u32" where
  "parse_una_loop una [] = ([], 0)"
| "parse_una_loop una (seg # p) =
     (if itimediff una (seg_sn seg) > 0
      then (let (q, k) = parse_una_loop una p in (q, k + 1))
      else (seg # p, 0))"

definition ikcp_parse_una :: "IKCPCB \<Rightarrow> u32 \<Rightarrow> IKCPCB" where
  "ikcp_parse_una kcp una =
     (let (q, k) = parse_una_loop una (snd_buf kcp)
      in kcp\<lparr>snd_buf := q, nsnd_buf := nsnd_buf kcp - k\<rparr>)"

fun parse_fastack_loop :: "u32 \<Rightarrow> u32 \<Rightarrow> IKCPSEG list \<Rightarrow> IKCPSEG list" where
  "parse_fastack_loop sn ts [] = []"
| "parse_fastack_loop sn ts (seg # p) =
     (if itimediff sn (seg_sn seg) < 0 then seg # p
      else if sn \<noteq> seg_sn seg then
        (if itimediff ts (seg_ts seg) \<ge> 0 then seg\<lparr>seg_fastack := seg_fastack seg + 1\<rparr> else seg)
        # parse_fastack_loop sn ts p
      else seg # parse_fastack_loop sn ts p)"

definition ikcp_parse_fastack :: "IKCPCB \<Rightarrow> u32 \<Rightarrow> u32 \<Rightarrow> IKCPCB" where
  "ikcp_parse_fastack kcp sn ts =
     (if sn_outside kcp sn then kcp
      else kcp\<lparr>snd_buf := parse_fastack_loop sn ts (snd_buf kcp)\<rparr>)"

section \<open>Fragmentation\<close>

lemma sint_mss: "unat (mss kcp) < 2 ^ 31 \<Longrightarrow> sint (mss kcp) = int (unat (mss kcp))"
  by (simp add: sint_small)

text \<open>The reference fragmentation: pieces of \<open>m\<close> bytes, the last one possibly shorter.\<close>

fun chunks :: "nat \<Rightarrow> nat \<Rightarrow> bytes \<Rightarrow> bytes list" where
  "chunks m 0 xs = []"
| "chunks m (Suc n) xs = take m xs # chunks m n (drop m xs)"

definition is_frag :: "IKCPSEG \<Rightarrow> bytes \<Rightarrow> nat \<Rightarrow> bool" where
  "is_frag seg d n \<longleftrightarrow> seg_data seg = d \<and> seg_len seg = of_nat (length d) \<and> seg_frg seg = of_nat n"

definition frags_of :: "IKCPSEG list \<Rightarrow> bytes list \<Rightarrow> bool" where
  "frags_of segs ds \<longleftrightarrow> length segs = length ds \<and>
     (\<forall>i < length ds. is_frag (segs ! i) (ds ! i) (length ds - 1 - i))"

lemma concat_chunks: "length xs \<le> n * m \<Longrightarrow> concat (chunks m n xs) = xs"
  by (induction m n xs rule: chunks.induct) auto

lemma length_chunks [simp]: "length (chunks m n xs) = n"
  by (induction m n xs rule: chunks.induct) auto

lemma chunks_bound: "d \<in> set (chunks m n xs) \<Longrightarrow> length d \<le> m"
  by (induction m n xs rule: chunks.induct) auto

lemma frags_of_Cons: "is_frag seg d (length ds) \<Longrightarrow> frags_of segs ds \<Longrightarrow> frags_of (seg # segs) (d # ds)"
  by (auto simp: frags_of_def nth_Cons split: nat.splits)

lemma send_frags_ok:
  assumes "\<And>n. new_seg al n \<noteq> None" and "0 < unat (mss kcp)" and "unat (mss kcp) < 2 ^ 31"
    and "stream kcp = 0" and "length buf \<le> n * unat (mss kcp)"
  shows "\<exists>segs. send_frags al n kcp buf (int (length buf)) sent =
      Inr (sent + int (length buf),
           kcp\<lparr>snd_queue := snd_queue kcp @ segs, nsnd_que := nsnd_que kcp + of_nat (length segs)\<rparr>) \<and>
    frags_of segs (chunks (unat (mss kcp)) n buf)"
  using assms
proof (induction n arbitrary: kcp buf sent)
  case 0
  then show ?case by (auto simp: frags_of_def)
next
  case (Suc n)
  let ?m = "unat (mss kcp)"
  obtain seg where seg: "new_seg al (length (take ?m buf)) = Some seg" using Suc.prems(1) by blast
  let ?seg = "seg\<lparr>seg_data := take ?m buf, seg_len := of_nat (length (take ?m buf)), seg_frg := of_nat n\<rparr>"
  let ?kcp = "kcp\<lparr>snd_queue := snd_queue kcp @ [?seg], nsnd_que := nsnd_que kcp + 1\<rparr>"
  have size: "(if int (length buf) > sint (mss kcp) then sint (mss kcp) else int (length buf))
      = int (length (take ?m buf))"
    using Suc.prems(3) by (simp add: sint_mss min_def)
  have step: "send_frags al (Suc n) kcp buf (int (length buf)) sent =
      send_frags al n ?kcp (drop ?m buf) (int (length (drop ?m buf))) (sent + int (length (take ?m buf)))"
  proof (cases "buf = []")
    case True
    with seg Suc.prems(4) show ?thesis unfolding send_frags.simps size Let_def by simp
  next
    case False
    have "drop (length (take ?m buf)) buf = drop ?m buf" by (cases "length buf \<le> ?m") auto
    with False seg Suc.prems(4) show ?thesis
      unfolding send_frags.simps size Let_def by (simp add: of_nat_diff min_def)
  qed
  have "length (drop ?m buf) \<le> n * unat (mss ?kcp)" using Suc.prems(5) by simp
  with Suc.IH [of ?kcp "drop ?m buf" "sent + int (length (take ?m buf))"] Suc.prems(1-4)
  obtain segs where ih: "send_frags al n ?kcp (drop ?m buf) (int (length (drop ?m buf)))
       (sent + int (length (take ?m buf))) =
      Inr (sent + int (length (take ?m buf)) + int (length (drop ?m buf)),
           ?kcp\<lparr>snd_queue := snd_queue ?kcp @ segs, nsnd_que := nsnd_que ?kcp + of_nat (length segs)\<rparr>)"
    and fr: "frags_of segs (chunks ?m n (drop ?m buf))"
    by auto
  have "frags_of (?seg # segs) (chunks ?m (Suc n) buf)"
    unfolding chunks.simps by (rule frags_of_Cons) (simp_all add: is_frag_def fr)
  with ih show ?case unfolding step
    by (intro exI [of _ "?seg # segs"]) (auto simp: ac_simps)
qed

definition frag_count :: "IKCPCB \<Rightarrow> nat \<Rightarrow> nat" where
  "frag_count kcp len =
     (if len \<le> unat (mss kcp) then 1 else (len + unat (mss kcp) - 1) div unat (mss kcp))"

lemma send_count_small:
  assumes "0 < unat (mss kcp)" and "unat (mss kcp) < 2 ^ 31" and "len < 2 ^ 31"
  shows "send_count kcp (int len) = int (frag_count kcp len)"
proof (cases "len \<le> unat (mss kcp)")
  case True
  with assms show ?thesis by (simp add: send_count_def frag_count_def sint_small)
next
  case False
  let ?m = "unat (mss kcp)"
  have "unat (word_of_int (int len) + mss kcp - 1 :: u32) = len + ?m - 1"
  proof -
    have "unat (of_nat len :: u32) = len" using assms(3) by (simp add: unat_of_nat)
    moreover have "unat (of_nat len + mss kcp :: u32) = len + ?m"
      using assms calculation by (subst unat_add_small) simp_all
    moreover have "(1 :: u32) \<le> of_nat len + mss kcp"
      using calculation assms(1) by (simp add: word_le_nat_alt)
    ultimately show ?thesis by (simp add: unat_diff_ge)
  qed
  then have d: "unat ((word_of_int (int len) + mss kcp - 1) div mss kcp) = (len + ?m - 1) div ?m"
    by (simp add: unat_div_distrib)
  have "len * 1 \<le> len * ?m" using assms(1) by (intro mult_le_mono2) simp
  moreover have "(len + 1) * ?m = len * ?m + ?m" by simp
  ultimately have "len + ?m - 1 < (len + 1) * ?m" using assms(1) by linarith
  then have "(len + ?m - 1) div ?m < len + 1" by (rule less_mult_imp_div_less)
  with assms(3) have "(len + ?m - 1) div ?m < 2 ^ 31" by simp
  with False d assms show ?thesis by (simp add: send_count_def frag_count_def sint_small)
qed

lemma count_fits:
  assumes "0 < (m :: nat)"
  shows "len \<le> (if len \<le> m then 1 else (len + m - 1) div m) * m"
proof (cases "len \<le> m")
  case False
  have "len + m - 1 = (len + m - 1) div m * m + (len + m - 1) mod m" by (rule div_mult_mod_eq [symmetric])
  moreover have "(len + m - 1) mod m < m" using assms by simp
  ultimately have "len \<le> (len + m - 1) div m * m" using assms by linarith
  with False show ?thesis by simp
qed simp

text \<open>
  A message that needs fewer than \<open>IKCP_WND_RCV\<close> fragments is queued whole: its pieces are
  appended in order, numbered downwards to zero, and nothing else changes.
\<close>

lemma frag_count_pos: "0 < unat (mss kcp) \<Longrightarrow> 0 < frag_count kcp len"
  unfolding frag_count_def div_greater_zero_iff by (simp add: div_greater_zero_iff) linarith

lemma send_message_ok:
  assumes "\<And>n. new_seg al n \<noteq> None" and "0 < unat (mss kcp)" and "unat (mss kcp) < 2 ^ 31"
    and "stream kcp = 0" and "length buf < 2 ^ 31" and "frag_count kcp (length buf) < 128"
  shows "\<exists>segs. ikcp_send al kcp buf (int (length buf)) =
      Inr (int (length buf),
           kcp\<lparr>snd_queue := snd_queue kcp @ segs, nsnd_que := nsnd_que kcp + of_nat (length segs)\<rparr>) \<and>
    frags_of segs (chunks (unat (mss kcp)) (frag_count kcp (length buf)) buf)"
proof -
  have c: "send_count kcp (int (length buf)) = int (frag_count kcp (length buf))"
    by (rule send_count_small) (use assms in auto)
  have "length buf \<le> frag_count kcp (length buf) * unat (mss kcp)"
    unfolding frag_count_def by (rule count_fits) (rule assms)
  from send_frags_ok [OF assms(1-4) this, of 0]
  have "\<exists>segs. send_rest al kcp buf (int (length buf)) 0 =
      Inr (int (length buf),
           kcp\<lparr>snd_queue := snd_queue kcp @ segs, nsnd_que := nsnd_que kcp + of_nat (length segs)\<rparr>) \<and>
    frags_of segs (chunks (unat (mss kcp)) (frag_count kcp (length buf)) buf)"
    using assms(6) frag_count_pos [OF assms(2), of "length buf"]
    by (simp add: send_rest_def c ikcp_consts Let_def)
  moreover have "0 < mss kcp" using assms(2) by (simp add: unat_gt_0 word_neq_0_conv)
  ultimately show ?thesis using assms(4) by (simp add: ikcp_send_def)
qed

lemma send_message_too_big:
  assumes "0 < unat (mss kcp)" and "unat (mss kcp) < 2 ^ 31" and "stream kcp = 0"
    and "length buf < 2 ^ 31" and "128 \<le> frag_count kcp (length buf)"
  shows "ikcp_send al kcp buf (int (length buf)) = Inr (-2, kcp)"
proof -
  have "send_count kcp (int (length buf)) = int (frag_count kcp (length buf))"
    by (rule send_count_small) (use assms in auto)
  moreover have "0 < mss kcp" using assms(1) by (simp add: unat_gt_0 word_neq_0_conv)
  ultimately show ?thesis
    using assms(3,5) by (simp add: ikcp_send_def send_rest_def ikcp_consts)
qed

section \<open>The send window\<close>

text \<open>
  The sender's invariant: the buffered
  sequence numbers are strictly increasing between \<open>snd_una\<close> and \<open>snd_nxt\<close>, at most 65535
  segments are in flight, the counters count, and \<open>snd_una\<close> is the oldest buffered number.
  \<open>snd_core\<close> is what holds between an acknowledgement and the \<^verbatim>\<open>ikcp_shrink_buf\<close> after it.
\<close>

definition inflight :: "IKCPCB \<Rightarrow> nat" where
  "inflight kcp = offset (snd_una kcp) (snd_nxt kcp)"

definition snd_core :: "IKCPCB \<Rightarrow> bool" where
  "snd_core kcp \<longleftrightarrow>
     in_window (snd_una kcp) (inflight kcp) (map seg_sn (snd_buf kcp)) \<and>
     inflight kcp \<le> 65535 \<and> unat (rmt_wnd kcp) \<le> 65535 \<and>
     nsnd_buf kcp = of_nat (length (snd_buf kcp)) \<and>
     nsnd_que kcp = of_nat (length (snd_queue kcp)) \<and>
     (\<forall>seg \<in> set (snd_queue kcp) \<union> set (snd_buf kcp). seg_wf (unat (mss kcp)) seg) \<and>
     (\<forall>seg \<in> set (snd_buf kcp). pushed (conv kcp) seg)"

fun oldest :: "IKCPSEG list \<Rightarrow> u32 \<Rightarrow> u32" where
  "oldest [] nxt = nxt"
| "oldest (seg # p) nxt = seg_sn seg"

definition snd_inv :: "IKCPCB \<Rightarrow> bool" where
  "snd_inv kcp \<longleftrightarrow> snd_core kcp \<and>
     snd_una kcp = oldest (snd_buf kcp) (snd_nxt kcp)"

lemma snd_core_cut:
  assumes "snd_core kcp" and "snd_buf kcp = xs @ d @ ys" and "k = of_nat (length d)"
  shows "snd_core (kcp\<lparr>snd_buf := xs @ ys, nsnd_buf := nsnd_buf kcp - k\<rparr>)"
  using assms in_window_cut [of _ _ "map seg_sn xs" "map seg_sn d"]
  by (auto simp: snd_core_def inflight_def)

lemma snd_inv_shrink: "snd_core kcp \<Longrightarrow> snd_inv (ikcp_shrink_buf kcp)"
proof (cases "snd_buf kcp")
  case Nil
  assume "snd_core kcp"
  with Nil show ?thesis by (simp add: snd_inv_def snd_core_def ikcp_shrink_buf_def inflight_def)
next
  case (Cons seg p)
  assume core: "snd_core kcp"
  let ?una = "snd_una kcp" and ?nxt = "snd_nxt kcp"
  from core Cons have w: "in_window ?una (offset ?una ?nxt) (seg_sn seg # map seg_sn p)"
    by (simp add: snd_core_def inflight_def)
  then have "offset ?una (seg_sn seg) \<le> offset ?una ?nxt" by (simp add: in_window_def)
  then have "offset (seg_sn seg) ?nxt = offset ?una ?nxt - offset ?una (seg_sn seg)"
    by (rule offset_rebase)
  with in_window_hd_rebase [OF w] core Cons show ?thesis
    by (auto simp: snd_inv_def snd_core_def ikcp_shrink_buf_def inflight_def)
qed

text \<open>The loops cut at most one segment, respectively a prefix, out of the buffer.\<close>

lemma parse_ack_loop_cut:
  "\<exists>xs d ys. p = xs @ d @ ys \<and> parse_ack_loop sn p = (xs @ ys, of_nat (length d))"
proof (induction sn p rule: parse_ack_loop.induct)
  case (2 sn seg p)
  show ?case
  proof (cases "sn = seg_sn seg \<or> itimediff sn (seg_sn seg) < 0")
    case True
    then show ?thesis
      by (auto intro: exI [of _ "[]"] exI [of _ "[seg]"])
  next
    case False
    with 2 obtain xs d ys where "p = xs @ d @ ys"
      and "parse_ack_loop sn p = (xs @ ys, of_nat (length d))" by blast
    with False have "seg # p = (seg # xs) @ d @ ys \<and>
        parse_ack_loop sn (seg # p) = ((seg # xs) @ ys, of_nat (length d))" by simp
    then show ?thesis by blast
  qed
qed simp

lemma parse_una_loop_cut:
  "\<exists>d ys. p = d @ ys \<and> parse_una_loop una p = (ys, of_nat (length d)) \<and>
     (\<forall>seg \<in> set d. itimediff una (seg_sn seg) > 0) \<and>
     (ys \<noteq> [] \<longrightarrow> \<not> itimediff una (seg_sn (hd ys)) > 0)"
proof (induction una p rule: parse_una_loop.induct)
  case (2 una seg p)
  show ?case
  proof (cases "itimediff una (seg_sn seg) > 0")
    case True
    with 2 obtain d ys where *: "p = d @ ys" "parse_una_loop una p = (ys, of_nat (length d))"
      "\<forall>seg \<in> set d. itimediff una (seg_sn seg) > 0"
      "ys \<noteq> [] \<longrightarrow> \<not> itimediff una (seg_sn (hd ys)) > 0" by blast
    with True show ?thesis by (intro exI [of _ "seg # d"] exI [of _ ys]) (simp add: ac_simps)
  next
    case False
    then show ?thesis by (intro exI [of _ "[]"] exI [of _ "seg # p"]) simp
  qed
qed simp

lemma snd_core_parse_ack: "snd_core kcp \<Longrightarrow> snd_core (ikcp_parse_ack kcp sn)"
  using parse_ack_loop_cut [of "snd_buf kcp" sn]
  by (auto simp: ikcp_parse_ack_def intro: snd_core_cut)

lemma snd_core_parse_una: "snd_core kcp \<Longrightarrow> snd_core (ikcp_parse_una kcp una)"
  using parse_una_loop_cut [of "snd_buf kcp" una] snd_core_cut [of kcp "[]"]
  by (auto simp: ikcp_parse_una_def)

lemma snd_inv_core: "snd_inv kcp \<Longrightarrow> snd_core kcp"
  by (simp add: snd_inv_def)

text \<open>Updating the round-trip estimate and the fast-ack counters does not touch the window.\<close>

lemma update_ack_frame [simp]:
  "snd_buf (ikcp_update_ack kcp rtt) = snd_buf kcp"
  "snd_queue (ikcp_update_ack kcp rtt) = snd_queue kcp"
  "snd_una (ikcp_update_ack kcp rtt) = snd_una kcp"
  "snd_nxt (ikcp_update_ack kcp rtt) = snd_nxt kcp"
  "nsnd_buf (ikcp_update_ack kcp rtt) = nsnd_buf kcp"
  "nsnd_que (ikcp_update_ack kcp rtt) = nsnd_que kcp"
  "rmt_wnd (ikcp_update_ack kcp rtt) = rmt_wnd kcp"
  "mss (ikcp_update_ack kcp rtt) = mss kcp"
  "conv (ikcp_update_ack kcp rtt) = conv kcp"
  by (simp_all add: ikcp_update_ack_def Let_def case_prod_beta)

lemma snd_inv_update_ack [simp]: "snd_inv (ikcp_update_ack kcp rtt) \<longleftrightarrow> snd_inv kcp"
  by (simp add: snd_inv_def snd_core_def inflight_def)

lemma fastack_loop_frame:
  assumes "\<And>seg k. g (seg\<lparr>seg_fastack := k\<rparr>) = g seg"
  shows "map g (parse_fastack_loop sn ts p) = map g p"
  by (induction sn ts p rule: parse_fastack_loop.induct) (simp_all add: assms)

lemma oldest_map: "map seg_sn p = map seg_sn q \<Longrightarrow> oldest p n = oldest q n"
  by (cases p; cases q) auto

lemma snd_inv_reseg:
  assumes "map seg_sn q = map seg_sn (snd_buf kcp)"
    and "map (seg_wf (unat (mss kcp))) q = map (seg_wf (unat (mss kcp))) (snd_buf kcp)"
    and "map (pushed (conv kcp)) q = map (pushed (conv kcp)) (snd_buf kcp)"
  shows "snd_inv (kcp\<lparr>snd_buf := q\<rparr>) \<longleftrightarrow> snd_inv kcp"
  using assms(1) Ball_map_cong [OF assms(2)] Ball_map_cong [OF assms(3)] map_eq_imp_length_eq [OF assms(1)]
    oldest_map [OF assms(1)]
  by (auto simp: snd_inv_def snd_core_def inflight_def)

lemma snd_inv_parse_fastack [simp]: "snd_inv (ikcp_parse_fastack kcp sn ts) \<longleftrightarrow> snd_inv kcp"
  unfolding ikcp_parse_fastack_def
  by (simp add: snd_inv_reseg fastack_loop_frame seg_wf_def pushed_def)

section \<open>What an acknowledgement removes\<close>

lemma sn_outside_iff:
  assumes "snd_core kcp"
  shows "sn_outside kcp sn \<longleftrightarrow> \<not> offset (snd_una kcp) sn < inflight kcp"
proof -
  have "inflight kcp < 2 ^ 31" using assms by (simp add: snd_core_def)
  then show ?thesis
    using itimediff_window [of "snd_una kcp" sn "snd_nxt kcp"]
    by (cases "offset (snd_una kcp) sn < 2 ^ 31")
      (auto simp: sn_outside_def itimediff_base inflight_def)
qed

lemma parse_ack_loop_filter:
  assumes "in_window base lim (map seg_sn p)" and "lim \<le> 2 ^ 31" and "offset base sn < 2 ^ 31"
  shows "fst (parse_ack_loop sn p) = filter (\<lambda>seg. seg_sn seg \<noteq> sn) p"
  using assms(1)
proof (induction p)
  case (Cons seg p)
  then have w: "in_window base lim (map seg_sn p)"
    and later: "\<forall>s \<in> set p. offset base (seg_sn seg) < offset base (seg_sn s)"
    and lt: "offset base (seg_sn seg) < 2 ^ 31"
    using assms(2) by (auto simp: in_window_def)
  have d: "itimediff sn (seg_sn seg) = int (offset base sn) - int (offset base (seg_sn seg))"
    using assms(3) lt by (rule itimediff_window)
  show ?case
  proof (cases "offset base sn \<le> offset base (seg_sn seg)")
    case True
    then have "\<forall>s \<in> set p. seg_sn s \<noteq> sn" using later by fastforce
    then show ?thesis using True d by (auto simp: filter_id_conv offset_inject dest: le_neq_implies_less)
  next
    case False
    then show ?thesis using Cons.IH [OF w] d by (auto simp: case_prod_beta)
  qed
qed simp

lemma parse_ack_removes:
  assumes "snd_core kcp"
  shows "snd_buf (ikcp_parse_ack kcp sn) = filter (\<lambda>seg. seg_sn seg \<noteq> sn) (snd_buf kcp)"
proof -
  have w: "in_window (snd_una kcp) (inflight kcp) (map seg_sn (snd_buf kcp))"
    and lim: "inflight kcp \<le> 2 ^ 31"
    using assms by (simp_all add: snd_core_def)
  show ?thesis
  proof (cases "sn_outside kcp sn")
    case True
    then have "\<forall>seg \<in> set (snd_buf kcp). seg_sn seg \<noteq> sn"
      using w by (auto simp: sn_outside_iff [OF assms] in_window_def)
    with True show ?thesis by (simp add: ikcp_parse_ack_def filter_id_conv)
  next
    case False
    with lim have "offset (snd_una kcp) sn < 2 ^ 31" by (simp add: sn_outside_iff [OF assms])
    from parse_ack_loop_filter [OF w lim this] False show ?thesis
      by (simp add: ikcp_parse_ack_def case_prod_beta)
  qed
qed

lemma parse_una_removes:
  assumes "snd_core kcp" and "offset (snd_una kcp) una \<le> inflight kcp"
  shows "snd_buf (ikcp_parse_una kcp una) =
    filter (\<lambda>seg. offset (snd_una kcp) una \<le> offset (snd_una kcp) (seg_sn seg)) (snd_buf kcp)"
proof -
  let ?off = "offset (snd_una kcp)"
  obtain d ys where p: "snd_buf kcp = d @ ys"
    and l: "parse_una_loop una (snd_buf kcp) = (ys, of_nat (length d))"
    and d: "\<forall>seg \<in> set d. itimediff una (seg_sn seg) > 0"
    and ys: "ys \<noteq> [] \<longrightarrow> \<not> itimediff una (seg_sn (hd ys)) > 0"
    using parse_una_loop_cut by blast
  have w: "in_window (snd_una kcp) (inflight kcp) (map seg_sn d @ map seg_sn ys)"
    and lim: "inflight kcp \<le> 65535"
    using assms(1) by (simp_all add: snd_core_def p)
  have diff: "itimediff una (seg_sn seg) = int (?off una) - int (?off (seg_sn seg))"
    if "seg \<in> set d \<union> set ys" for seg
  proof (rule itimediff_window)
    have "?off (seg_sn seg) < inflight kcp" using that w by (auto simp: in_window_def)
    with lim show "?off (seg_sn seg) < 2 ^ 31" by simp
  qed (use lim assms(2) in simp)
  have "?off una \<le> ?off (seg_sn seg)" if "seg \<in> set ys" for seg
  proof (cases ys)
    case (Cons h t)
    then have "?off una \<le> ?off (seg_sn h)" using ys diff [of h] by simp
    moreover have "?off (seg_sn h) \<le> ?off (seg_sn seg)"
      using w that Cons by (auto simp: in_window_def sorted_wrt_append)
    ultimately show ?thesis by simp
  qed (use that in simp)
  moreover have "\<not> ?off una \<le> ?off (seg_sn seg)" if "seg \<in> set d" for seg
    using bspec [OF d that] diff [of seg] that by simp
  ultimately have "filter (\<lambda>seg. ?off una \<le> ?off (seg_sn seg)) (d @ ys) = ys"
    by (simp add: filter_empty_conv)
  with l p show ?thesis by (simp add: ikcp_parse_una_def)
qed

section \<open>The retransmission timeout\<close>

lemma update_ack_rto:
  assumes "0 \<le> rx_minrto kcp" and "rx_minrto kcp \<le> 60000"
  shows "rx_minrto kcp \<le> rx_rto (ikcp_update_ack kcp rtt) \<and> rx_rto (ikcp_update_ack kcp rtt) \<le> 60000"
proof -
  have b: "l \<le> ibound l m IKCP_RTO_MAX \<and> ibound l m IKCP_RTO_MAX \<le> 60000" if "l \<le> 60000" for l m
    using that by (auto simp: ibound_def imin_def imax_def ikcp_consts)
  have *: "rx_minrto kcp \<le> sint (ibound (word_of_int (rx_minrto kcp)) m IKCP_RTO_MAX) \<and>
      sint (ibound (word_of_int (rx_minrto kcp)) m IKCP_RTO_MAX) \<le> 60000" for m
  proof -
    let ?l = "word_of_int (rx_minrto kcp) :: u32" and ?x = "ibound (word_of_int (rx_minrto kcp)) m IKCP_RTO_MAX"
    have l: "uint ?l = rx_minrto kcp" using assms by (simp add: uint_word_of_int_eq take_bit_int_eq_self)
    then have "?l \<le> 60000" using assms(2) by (simp add: word_le_def)
    from b [OF this, of m] have "?l \<le> ?x" "?x \<le> 60000" by auto
    then have "rx_minrto kcp \<le> uint ?x" "uint ?x \<le> 60000" using l by (simp_all add: word_le_def)
    moreover from this have "unat ?x < 2 ^ 31" unfolding uint_lt_iff [symmetric] by simp
    then have "sint ?x = uint ?x" by (rule sint_small)
    ultimately show ?thesis by simp
  qed
  show ?thesis using * by (simp add: ikcp_update_ack_def Let_def case_prod_beta)
qed

section \<open>Sending keeps the queue well formed\<close>

text \<open>
  In both modes \<^verbatim>\<open>ikcp_send\<close> only changes the send queue, which stays well formed, and the
  bytes it reports as accepted are what the queue's contents grew by.
\<close>

lemma send_frags_safe:
  assumes "\<And>n. new_seg al n \<noteq> None" and "0 < unat (mss kcp)" and "unat (mss kcp) < 2 ^ 31"
    and "l \<le> length buf" and "n \<le> 256"
  shows "\<exists>segs t. send_frags al n kcp buf (int l) sent =
      Inr (sent + int t,
           kcp\<lparr>snd_queue := snd_queue kcp @ segs, nsnd_que := nsnd_que kcp + of_nat (length segs)\<rparr>) \<and>
    t \<le> l \<and> payload segs = take t buf \<and> (\<forall>seg \<in> set segs. seg_wf (unat (mss kcp)) seg)"
  using assms
proof (induction n arbitrary: kcp buf sent l)
  case 0
  show ?case by (rule exI [of _ "[]"], rule exI [of _ 0]) simp
next
  case (Suc n)
  let ?m = "min (unat (mss kcp)) l"
  obtain seg where seg: "new_seg al ?m = Some seg" using Suc.prems(1) by blast
  let ?seg = "seg\<lparr>seg_data := take ?m buf, seg_len := of_nat ?m,
                  seg_frg := (if stream kcp = 0 then of_nat n else 0)\<rparr>"
  let ?kcp = "kcp\<lparr>snd_queue := snd_queue kcp @ [?seg], nsnd_que := nsnd_que kcp + 1\<rparr>"
  have size: "(if int l > sint (mss kcp) then sint (mss kcp) else int l) = int ?m"
    using Suc.prems(3) by (simp add: sint_mss min_def)
  have step: "send_frags al (Suc n) kcp buf (int l) sent =
      send_frags al n ?kcp (drop ?m buf) (int (l - ?m)) (sent + int ?m)"
    using seg Suc.prems(4)
    unfolding send_frags.simps size Let_def by (cases "l = 0") (simp_all add: of_nat_diff min_def)
  have wf: "seg_wf (unat (mss kcp)) ?seg"
  proof -
    have "unat (of_nat n :: u32) = n" using Suc.prems(5) by (simp add: unat_of_nat)
    moreover have "unat (of_nat ?m :: u32) = ?m" using Suc.prems(3) by (simp add: unat_of_nat)
    ultimately show ?thesis using Suc.prems(4,5) by (simp add: seg_wf_def)
  qed
  have "\<exists>segs t. send_frags al n ?kcp (drop ?m buf) (int (l - ?m)) (sent + int ?m) =
      Inr (sent + int ?m + int t,
           ?kcp\<lparr>snd_queue := snd_queue ?kcp @ segs, nsnd_que := nsnd_que ?kcp + of_nat (length segs)\<rparr>) \<and>
    t \<le> l - ?m \<and> payload segs = take t (drop ?m buf) \<and> (\<forall>seg \<in> set segs. seg_wf (unat (mss ?kcp)) seg)"
    by (rule Suc.IH [OF Suc.prems(1)]) (use Suc.prems(2-5) in simp_all)
  then obtain segs t where ih: "send_frags al n ?kcp (drop ?m buf) (int (l - ?m)) (sent + int ?m) =
      Inr (sent + int ?m + int t,
           ?kcp\<lparr>snd_queue := snd_queue ?kcp @ segs, nsnd_que := nsnd_que ?kcp + of_nat (length segs)\<rparr>)"
    and t: "t \<le> l - ?m" "payload segs = take t (drop ?m buf)"
    and segs: "\<forall>seg \<in> set segs. seg_wf (unat (mss ?kcp)) seg"
    by blast
  have "?m + t \<le> l" using t(1) by simp
  moreover have "payload (?seg # segs) = take (?m + t) buf" using t(2) by (simp add: take_add)
  ultimately show ?case
    unfolding step ih using wf segs
    by (intro exI [of _ "?seg # segs"] exI [of _ "?m + t"]) (simp add: ac_simps)
qed

lemma send_rest_safe:
  assumes "\<And>n. new_seg al n \<noteq> None" and "0 < unat (mss kcp)" and "unat (mss kcp) < 2 ^ 31"
    and "l \<le> length buf"
  shows "\<exists>segs t ret. send_rest al kcp buf (int l) (int s) =
      Inr (ret,
           kcp\<lparr>snd_queue := snd_queue kcp @ segs, nsnd_que := nsnd_que kcp + of_nat (length segs)\<rparr>) \<and>
    payload segs = take t buf \<and> (\<forall>seg \<in> set segs. seg_wf (unat (mss kcp)) seg) \<and>
    (ret = int s + int t \<or> ret = -2 \<and> t = 0 \<and> (stream kcp = 0 \<or> s = 0))"
proof (cases "send_count kcp (int l) \<ge> sint IKCP_WND_RCV")
  case True
  then show ?thesis
    by (intro exI [of _ "[]"] exI [of _ 0] exI [of _ "if stream kcp \<noteq> 0 \<and> s > 0 then int s else -2"])
      (simp add: send_rest_def Let_def)
next
  case False
  define n where "n = nat (if send_count kcp (int l) = 0 then 1 else send_count kcp (int l))"
  have "send_rest al kcp buf (int l) (int s) = send_frags al n kcp buf (int l) (int s)"
    using False by (simp add: send_rest_def n_def Let_def)
  moreover have "n \<le> 256" using False by (simp add: n_def ikcp_consts nat_le_iff)
  ultimately show ?thesis using send_frags_safe [OF assms, of n "int s"] by fastforce
qed

lemma stream_append_safe:
  assumes "\<And>n. new_seg al n \<noteq> None" and "0 < unat (mss kcp)" and "unat (mss kcp) < 2 ^ 31"
    and "l \<le> length buf" and "\<forall>seg \<in> set (snd_queue kcp). seg_wf (unat (mss kcp)) seg"
  shows "\<exists>q t. stream_append al kcp buf (int l) =
      Inr (kcp\<lparr>snd_queue := q\<rparr>, drop t buf, int (l - t), int t) \<and> t \<le> l \<and>
    length q = length (snd_queue kcp) \<and> payload q = payload (snd_queue kcp) @ take t buf \<and>
    (\<forall>seg \<in> set q. seg_wf (unat (mss kcp)) seg)"
proof (cases "snd_queue kcp = [] \<or> \<not> seg_len (last (snd_queue kcp)) < mss kcp")
  case True
  then have "stream_append al kcp buf (int l) = Inr (kcp, buf, int l, 0)"
    by (auto simp: stream_append_def Let_def)
  then show ?thesis
    using assms(5) by (intro exI [of _ "snd_queue kcp"] exI [of _ 0]) simp
next
  case False
  obtain q old where q: "snd_queue kcp = q @ [old]" using False by (cases "snd_queue kcp" rule: rev_cases) auto
  have lt: "unat (seg_len old) < unat (mss kcp)" using False q by (simp add: word_less_nat_alt)
  let ?t = "min l (unat (mss kcp) - unat (seg_len old))"
  have cap: "sint (mss kcp - seg_len old) = int (unat (mss kcp) - unat (seg_len old))"
  proof -
    have d: "unat (mss kcp - seg_len old) = unat (mss kcp) - unat (seg_len old)"
      using lt by (intro unat_diff_ge) (simp add: word_le_nat_alt)
    with assms(3) have "unat (mss kcp - seg_len old) < 2 ^ 31" by simp
    then show ?thesis unfolding d [symmetric] by (simp add: sint_small)
  qed
  have ext: "(if int l < sint (mss kcp - seg_len old) then int l else sint (mss kcp - seg_len old)) = int ?t"
    unfolding cap by (simp add: min_def)
  let ?len = "seg_len old + of_nat ?t"
  have len: "unat ?len = unat (seg_len old) + ?t"
    using lt assms(3) by (subst unat_add_small) (simp_all add: unat_of_nat)
  obtain seg where seg: "new_seg al (unat ?len) = Some seg" using assms(1) by blast
  let ?seg = "seg\<lparr>seg_data := seg_data old @ take ?t buf, seg_len := ?len, seg_frg := 0\<rparr>"
  have old: "length (seg_data old) = unat (seg_len old)" using assms(5) q by (simp add: seg_wf_def)
  have "stream_append al kcp buf (int l) =
      Inr (kcp\<lparr>snd_queue := q @ [?seg]\<rparr>, drop ?t buf, int (l - ?t), int ?t)"
    using lt seg assms(4) old unfolding stream_append_def Let_def q last_snoc butlast_snoc ext
    by (simp add: of_nat_diff word_less_nat_alt)
  moreover have "seg_wf (unat (mss kcp)) ?seg"
    using len lt old assms(4) by (simp add: seg_wf_def)
  ultimately show ?thesis
    using assms(5) q by (intro exI [of _ "q @ [?seg]"] exI [of _ ?t]) auto
qed


lemma send_safe:
  assumes "\<And>n. new_seg al n \<noteq> None" and "0 < unat (mss kcp)" and "unat (mss kcp) < 2 ^ 31"
    and "l \<le> length buf" and "\<forall>seg \<in> set (snd_queue kcp). seg_wf (unat (mss kcp)) seg"
    and "nsnd_que kcp = of_nat (length (snd_queue kcp))"
  shows "\<exists>q ret. ikcp_send al kcp buf (int l) =
      Inr (ret, kcp\<lparr>snd_queue := q, nsnd_que := of_nat (length q)\<rparr>) \<and>
    payload q = payload (snd_queue kcp) @ take (nat ret) buf \<and> ret \<ge> -2 \<and> ret \<noteq> -1 \<and>
    (\<forall>seg \<in> set q. seg_wf (unat (mss kcp)) seg)"
proof (cases "stream kcp = 0")
  case True
  from send_rest_safe [OF assms(1-4), of 0]
  obtain segs t ret where "send_rest al kcp buf (int l) 0 =
      Inr (ret, kcp\<lparr>snd_queue := snd_queue kcp @ segs, nsnd_que := nsnd_que kcp + of_nat (length segs)\<rparr>)"
    "payload segs = take t buf" "\<forall>seg \<in> set segs. seg_wf (unat (mss kcp)) seg"
    "ret = int t \<or> ret = -2 \<and> t = 0" by auto
  moreover have "0 < mss kcp" using assms(2) by (simp add: word_less_nat_alt)
  ultimately show ?thesis
    using True assms(5,6)
    by (intro exI [of _ "snd_queue kcp @ segs"] exI [of _ ret]) (auto simp: ikcp_send_def)
next
  case False
  from stream_append_safe [OF assms(1-5)] obtain q t where
    app: "stream_append al kcp buf (int l) = Inr (kcp\<lparr>snd_queue := q\<rparr>, drop t buf, int (l - t), int t)"
    and q: "t \<le> l" "length q = length (snd_queue kcp)" "payload q = payload (snd_queue kcp) @ take t buf"
      "\<forall>seg \<in> set q. seg_wf (unat (mss kcp)) seg" by blast
  have mss: "0 < mss kcp" using assms(2) by (simp add: word_less_nat_alt)
  show ?thesis
  proof (cases "l - t = 0")
    case True
    with False app mss q assms(6) show ?thesis
      by (intro exI [of _ q] exI [of _ "int t"]) (auto simp: ikcp_send_def)
  next
    case more: False
    let ?k = "kcp\<lparr>snd_queue := q\<rparr>"
    have "l - t \<le> length (drop t buf)" using assms(4) by simp
    from send_rest_safe [OF assms(1), of ?k, OF _ _ this, of t] assms(2,3)
    obtain segs u ret where rest: "send_rest al ?k (drop t buf) (int (l - t)) (int t) =
        Inr (ret, ?k\<lparr>snd_queue := q @ segs, nsnd_que := nsnd_que kcp + of_nat (length segs)\<rparr>)"
      and u: "payload segs = take u (drop t buf)" "\<forall>seg \<in> set segs. seg_wf (unat (mss kcp)) seg"
        "ret = int t + int u \<or> ret = -2 \<and> u = 0 \<and> (stream kcp = 0 \<or> t = 0)"
      by auto
    have "ikcp_send al kcp buf (int l) = Inr (ret, kcp\<lparr>snd_queue := q @ segs, nsnd_que := of_nat (length (q @ segs))\<rparr>)"
      using False app mss more rest q(2) assms(6) by (simp add: ikcp_send_def)
    moreover have "payload (q @ segs) = payload (snd_queue kcp) @ take (nat ret) buf"
      using u(1,3) q(3) False by (auto simp: take_add nat_add_distrib)
    ultimately show ?thesis
      using u(2,3) q(4) by (intro exI [of _ "q @ segs"] exI [of _ ret]) auto
  qed
qed

end
