(* ===== verification/Kcp_Recv.thy ===== *)
theory Kcp_Recv
  imports Kcp_State Serial
begin

unbundle bit_operations_syntax

text \<open>
  The receiving half of \<^verbatim>\<open>ikcp.c\<close>: the growing array of acknowledgements to send, the
  insertion of a data segment into the receive buffer, the move of in-order segments to the
  receive queue, and the user's \<^verbatim>\<open>ikcp_peeksize\<close> and \<^verbatim>\<open>ikcp_recv\<close>.
\<close>

section \<open>The acknowledgement list\<close>

text \<open>
  \<^verbatim>\<open>for (newblock = 8; newblock < newsize; newblock <<= 1);\<close> never ends when \<open>newsize\<close>
  exceeds \<open>2 ^ 31\<close> (the shift runs out of the word); not ending is \<^const>\<open>None\<close>.
\<close>

partial_function (option) grow_block :: "u32 \<Rightarrow> u32 \<Rightarrow> u32 option" where
  "grow_block newsize newblock =
     (if newblock < newsize then grow_block newsize (push_bit 1 newblock) else Some newblock)"

declare grow_block.simps [code]

definition ack_grow :: "allocator \<Rightarrow> IKCPCB \<Rightarrow> u32 \<Rightarrow> IKCPCB res" where
  "ack_grow al kcp newsize =
     (if newsize > ackblock kcp then
        (case grow_block newsize 8 of
           None \<Rightarrow> Inl Diverged
         | Some newblock \<Rightarrow>
             (case new_array al (2 * unat newblock) of
                None \<Rightarrow> Inl Assert_failed
              | Some fresh \<Rightarrow>
                  let n = 2 * unat (ackcount kcp)
                  in if n > length (acklist kcp) \<or> n > length fresh then Inl Out_of_bounds
                     else Inr (kcp\<lparr>acklist := take n (acklist kcp) @ drop n fresh,
                                   ackblock := newblock\<rparr>)))
      else Inr kcp)"

definition ikcp_ack_push :: "allocator \<Rightarrow> IKCPCB \<Rightarrow> u32 \<Rightarrow> u32 \<Rightarrow> IKCPCB res" where
  "ikcp_ack_push al kcp sn ts =
     rbind (ack_grow al kcp (ackcount kcp + 1))
       (\<lambda>kcp. let i = 2 * unat (ackcount kcp)
               in if i + 1 < length (acklist kcp)
                  then Inr (kcp\<lparr>acklist := (acklist kcp)[i := sn, i + 1 := ts],
                                ackcount := ackcount kcp + 1\<rparr>)
                  else Inl Out_of_bounds)"

definition ikcp_ack_get :: "IKCPCB \<Rightarrow> nat \<Rightarrow> (u32 \<times> u32) res" where
  "ikcp_ack_get kcp p =
     (if 2 * p + 1 < length (acklist kcp)
      then Inr (acklist kcp ! (2 * p), acklist kcp ! (2 * p + 1)) else Inl Out_of_bounds)"

section \<open>Data segments\<close>

text \<open>
  The insertion walks the receive buffer from its end: \<open>insert_rev\<close> is the walk over the
  reversed buffer, \<^const>\<open>None\<close> when the segment is a repetition.
\<close>

fun insert_rev :: "IKCPSEG \<Rightarrow> IKCPSEG list \<Rightarrow> IKCPSEG list option" where
  "insert_rev newseg [] = Some [newseg]"
| "insert_rev newseg (seg # p) =
     (if seg_sn seg = seg_sn newseg then None
      else if itimediff (seg_sn newseg) (seg_sn seg) > 0 then Some (newseg # seg # p)
      else map_option ((#) seg) (insert_rev newseg p))"

text \<open>
  \<^verbatim>\<open>while (! iqueue_is_empty(&kcp->rcv_buf))\<close>: move what is next in order and fits. The
  same loop is in \<^verbatim>\<open>ikcp_parse_data\<close> and in \<^verbatim>\<open>ikcp_recv\<close>.
\<close>

fun move_loop :: "IKCPSEG list \<Rightarrow> IKCPCB \<Rightarrow> IKCPCB" where
  "move_loop [] kcp = kcp\<lparr>rcv_buf := []\<rparr>"
| "move_loop (seg # p) kcp =
     (if seg_sn seg = rcv_nxt kcp \<and> nrcv_que kcp < rcv_wnd kcp
      then move_loop p
             (kcp\<lparr>nrcv_buf := nrcv_buf kcp - 1, rcv_queue := rcv_queue kcp @ [seg],
                  nrcv_que := nrcv_que kcp + 1, rcv_nxt := rcv_nxt kcp + 1\<rparr>)
      else kcp\<lparr>rcv_buf := seg # p\<rparr>)"

definition move_available :: "IKCPCB \<Rightarrow> IKCPCB" where
  "move_available kcp = move_loop (rcv_buf kcp) kcp"

definition ikcp_parse_data :: "IKCPCB \<Rightarrow> IKCPSEG \<Rightarrow> IKCPCB" where
  "ikcp_parse_data kcp newseg =
     (let sn = seg_sn newseg
      in if itimediff sn (rcv_nxt kcp + rcv_wnd kcp) \<ge> 0 \<or> itimediff sn (rcv_nxt kcp) < 0
         then kcp
         else move_available
           (case insert_rev newseg (rev (rcv_buf kcp)) of
              Some q \<Rightarrow> kcp\<lparr>rcv_buf := rev q, nrcv_buf := nrcv_buf kcp + 1\<rparr>
            | None \<Rightarrow> kcp))"

section \<open>The user's side\<close>

fun peek_loop :: "u32 \<Rightarrow> IKCPSEG list \<Rightarrow> u32" where
  "peek_loop len [] = len"
| "peek_loop len (seg # p) =
     (if seg_frg seg = 0 then len + seg_len seg else peek_loop (len + seg_len seg) p)"

definition ikcp_peeksize :: "IKCPCB \<Rightarrow> int" where
  "ikcp_peeksize kcp =
     (case rcv_queue kcp of
        [] \<Rightarrow> -1
      | seg # _ \<Rightarrow>
          if seg_frg seg = 0 then sint (seg_len seg)
          else if nrcv_que kcp < seg_frg seg + 1 then -1
          else sint (peek_loop 0 (rcv_queue kcp)))"

text \<open>
  The merge loop of \<^verbatim>\<open>ikcp_recv\<close>: the bytes copied out, the length, how many segments were
  taken and the rest of the queue.
\<close>

fun merge_loop :: "bytes \<Rightarrow> u32 \<Rightarrow> u32 \<Rightarrow> IKCPSEG list \<Rightarrow> bytes \<times> u32 \<times> u32 \<times> IKCPSEG list" where
  "merge_loop out len k [] = (out, len, k, [])"
| "merge_loop out len k (seg # p) =
     (let out = out @ take (unat (seg_len seg)) (seg_data seg); len = len + seg_len seg; k = k + 1
      in if seg_frg seg = 0 then (out, len, k, p) else merge_loop out len k p)"

text \<open>
  The result is the return value and the bytes copied to the user's buffer, which is as
  large as the magnitude of \<open>len\<close> says (copying more is a fault). A negative \<open>len\<close> asks
  for a peek: the segments stay in the queue.
\<close>

definition ikcp_recv :: "IKCPCB \<Rightarrow> int \<Rightarrow> (int \<times> bytes \<times> IKCPCB) res" where
  "ikcp_recv kcp len =
     (let ispeek = len < 0
      in if rcv_queue kcp = [] then Inr (-1, [], kcp)
      else let len = (if len < 0 then - len else len);
               peeksize = ikcp_peeksize kcp
      in if peeksize < 0 then Inr (-2, [], kcp)
      else if peeksize > len then Inr (-3, [], kcp)
      else let recover = (nrcv_que kcp \<ge> rcv_wnd kcp);
               (out, total, k, rest) = merge_loop [] 0 0 (rcv_queue kcp);
               kcp = (if ispeek then kcp
                      else kcp\<lparr>rcv_queue := rest, nrcv_que := nrcv_que kcp - k\<rparr>)
      in if length out > nat len then Inl Out_of_bounds
      else if sint total \<noteq> peeksize then Inl Assert_failed
      else let kcp = move_available kcp;
               kcp = (if nrcv_que kcp < rcv_wnd kcp \<and> recover
                      then kcp\<lparr>probe := probe kcp OR IKCP_ASK_TELL\<rparr> else kcp)
      in Inr (sint total, out, kcp))"

section \<open>The acknowledgement array\<close>

definition ack_inv :: "IKCPCB \<Rightarrow> bool" where
  "ack_inv kcp \<longleftrightarrow> length (acklist kcp) = 2 * unat (ackblock kcp) \<and> ackcount kcp \<le> ackblock kcp"

text \<open>The acknowledgements that wait to be sent, as pairs.\<close>

definition pending_acks :: "IKCPCB \<Rightarrow> (u32 \<times> u32) list" where
  "pending_acks kcp =
     map (\<lambda>i. (acklist kcp ! (2 * i), acklist kcp ! (2 * i + 1))) [0..<unat (ackcount kcp)]"

lemma grow_block_returns:
  assumes "unat newsize \<le> 2 ^ 31" and "k \<le> 31"
  shows "\<exists>b. grow_block newsize (2 ^ k) = Some b \<and> newsize \<le> b"
  using assms(2)
proof (induction "31 - k" arbitrary: k)
  case 0
  then have "k = 31" by simp
  then have "newsize \<le> 2 ^ k" using assms(1) by (simp add: word_le_nat_alt)
  then show ?case by (simp add: grow_block.simps [of newsize "2 ^ k"] not_less [symmetric])
next
  case (Suc n)
  show ?case
  proof (cases "2 ^ k < newsize")
    case True
    then have "grow_block newsize (2 ^ k) = grow_block newsize (2 ^ Suc k)"
      by (simp add: grow_block.simps [of newsize "2 ^ k"] push_bit_eq_mult mult.commute)
    then show ?thesis using Suc.hyps(1) [of "Suc k"] Suc.hyps(2) Suc.prems by simp
  next
    case False
    then show ?thesis by (simp add: grow_block.simps [of newsize "2 ^ k"])
  qed
qed

lemma grow_block_8: "unat newsize \<le> 2 ^ 31 \<Longrightarrow> \<exists>b. grow_block newsize 8 = Some b \<and> newsize \<le> b"
  using grow_block_returns [of newsize 3] by simp

lemma unat_Suc_le: "x < (b :: u32) \<Longrightarrow> unat (x + 1) = unat x + 1"
  using unat_lt_32 [of b] by (intro unat_Suc_small) (simp add: word_less_nat_alt)

text \<open>
  Pushing an acknowledgement never writes outside the array, whatever its size, and appends
  one pair.
\<close>

lemma pending_acks_prefix:
  assumes "take n l = take n (acklist kcp)" and "n = 2 * unat (ackcount kcp)"
    and "n \<le> length l" and "n \<le> length (acklist kcp)"
  shows "pending_acks (kcp\<lparr>acklist := l, ackblock := b\<rparr>) = pending_acks kcp"
proof -
  have "l ! j = acklist kcp ! j" if "j < n" for j
    using that assms(1) by (metis nth_take)
  then show ?thesis by (auto simp: pending_acks_def assms(2))
qed

lemma pending_acks_snoc:
  assumes "2 * unat (ackcount kcp) + 1 < length (acklist kcp)" and "ackcount kcp < b"
  shows "pending_acks (kcp\<lparr>acklist := (acklist kcp)[2 * unat (ackcount kcp) := sn, 2 * unat (ackcount kcp) + 1 := ts],
      ackcount := ackcount kcp + 1\<rparr>) = pending_acks kcp @ [(sn, ts)]"
proof -
  have "map (\<lambda>i. ((acklist kcp)[2 * n := sn, Suc (2 * n) := ts] ! (2 * i),
                  (acklist kcp)[2 * n := sn, Suc (2 * n) := ts] ! (Suc (2 * i)))) [0..<n]
      = map (\<lambda>i. (acklist kcp ! (2 * i), acklist kcp ! Suc (2 * i))) [0..<n]" for n
    by (intro map_cong) auto
  then show ?thesis
    using assms by (simp add: pending_acks_def unat_Suc_le [OF assms(2)])
qed

lemma ack_grow_ok:
  assumes inv: "ack_inv kcp" and "allocator_sound al" and "allocator_total al"
    and small: "unat (ackcount kcp) < 2 ^ 31"
  obtains l b where "ack_grow al kcp (ackcount kcp + 1) = Inr (kcp\<lparr>acklist := l, ackblock := b\<rparr>)"
    and "length l = 2 * unat b" and "ackcount kcp < b"
    and "take (2 * unat (ackcount kcp)) l = take (2 * unat (ackcount kcp)) (acklist kcp)"
proof (cases "ackcount kcp + 1 > ackblock kcp")
  case True
  let ?n = "unat (ackcount kcp)"
  have suc: "unat (ackcount kcp + 1) = ?n + 1" using small by (intro unat_Suc_small) simp
  obtain b where b: "grow_block (ackcount kcp + 1) 8 = Some b" "ackcount kcp + 1 \<le> b"
    using grow_block_8 [of "ackcount kcp + 1"] suc small by auto
  obtain fresh where f: "new_array al (2 * unat b) = Some fresh"
    using assms(3) unfolding allocator_total_def by (meson not_None_eq)
  have len: "length fresh = 2 * unat b" using f assms(2) by (simp add: allocator_sound_def)
  have n: "?n < unat b" using b(2) suc by (simp add: word_le_nat_alt)
  have old: "2 * ?n \<le> length (acklist kcp)" using inv by (simp add: ack_inv_def word_le_nat_alt)
  have "ack_grow al kcp (ackcount kcp + 1) =
      Inr (kcp\<lparr>acklist := take (2 * ?n) (acklist kcp) @ drop (2 * ?n) fresh, ackblock := b\<rparr>)"
    using True b f len n old by (simp add: ack_grow_def Let_def)
  then show ?thesis by (rule that) (use len n old in \<open>simp_all add: word_less_nat_alt\<close>)
next
  case False
  have "unat (ackcount kcp) + 1 < 2 ^ 32" using small by simp
  then have "ackcount kcp < ackblock kcp"
    using False unat_Suc_small [of "ackcount kcp"] by (simp add: word_less_nat_alt)
  with False inv show ?thesis
    by (intro that [of "ackblock kcp" "acklist kcp"]) (simp_all add: ack_inv_def ack_grow_def)
qed

lemma ack_push_ok:
  assumes inv: "ack_inv kcp" and "allocator_sound al" and "allocator_total al"
    and small: "unat (ackcount kcp) < 2 ^ 31"
  obtains l b where
    "ikcp_ack_push al kcp sn ts = Inr (kcp\<lparr>ackblock := b, acklist := l, ackcount := ackcount kcp + 1\<rparr>)"
    and "ack_inv (kcp\<lparr>ackblock := b, acklist := l, ackcount := ackcount kcp + 1\<rparr>)"
    and "pending_acks (kcp\<lparr>ackblock := b, acklist := l, ackcount := ackcount kcp + 1\<rparr>)
         = pending_acks kcp @ [(sn, ts)]"
proof -
  let ?n = "unat (ackcount kcp)"
  obtain l b where grown: "ack_grow al kcp (ackcount kcp + 1) = Inr (kcp\<lparr>acklist := l, ackblock := b\<rparr>)"
    and len: "length l = 2 * unat b" and b: "ackcount kcp < b"
    and same: "take (2 * ?n) l = take (2 * ?n) (acklist kcp)"
    using assms by (rule ack_grow_ok)
  let ?k = "kcp\<lparr>acklist := l, ackblock := b\<rparr>"
  have room: "2 * ?n + 1 < length l" using len b by (simp add: word_less_nat_alt)
  have "pending_acks ?k = pending_acks kcp"
    using inv same room by (intro pending_acks_prefix) (auto simp: ack_inv_def word_le_nat_alt)
  then have "pending_acks (?k\<lparr>acklist := l[2 * ?n := sn, 2 * ?n + 1 := ts], ackcount := ackcount kcp + 1\<rparr>)
      = pending_acks kcp @ [(sn, ts)]"
    using pending_acks_snoc [of ?k b sn ts] room b by simp
  moreover have "ackcount kcp + 1 \<le> b"
    using b unat_Suc_le [OF b] by (simp add: word_less_nat_alt word_le_nat_alt)
  ultimately show ?thesis
    using that [of "l[2 * ?n := sn, 2 * ?n + 1 := ts]" b] room len grown
    by (simp add: ikcp_ack_push_def ack_inv_def Let_def)
qed

section \<open>The receive buffer\<close>

lemma insert_rev_spec:
  assumes "sorted_wrt (\<lambda>x y. offset base y < offset base x) (map seg_sn p)"
    and "\<forall>s \<in> set p. offset base (seg_sn s) < 2 ^ 31" and "offset base (seg_sn newseg) < 2 ^ 31"
  shows "insert_rev newseg p =
    (if \<exists>s \<in> set p. seg_sn s = seg_sn newseg then None
     else Some (filter (\<lambda>s. offset base (seg_sn newseg) < offset base (seg_sn s)) p @ newseg #
                filter (\<lambda>s. offset base (seg_sn s) < offset base (seg_sn newseg)) p))"
  using assms(1,2)
proof (induction p)
  case (Cons s p)
  let ?off = "\<lambda>x. offset base (seg_sn x)"
  have d: "itimediff (seg_sn newseg) (seg_sn s) = int (?off newseg) - int (?off s)"
    using Cons.prems(2) assms(3) by (intro itimediff_window) simp_all
  have below: "\<forall>t \<in> set p. ?off t < ?off s" using Cons.prems(1) by simp
  consider "?off newseg = ?off s" | "?off newseg > ?off s" | "?off newseg < ?off s" by linarith
  then show ?case
  proof cases
    case 1
    then show ?thesis by (simp add: offset_inject)
  next
    case 2
    then have "\<forall>t \<in> set p. ?off t < ?off newseg \<and> \<not> ?off newseg < ?off t"
      using below by fastforce
    moreover have "\<forall>t \<in> set p. seg_sn t \<noteq> seg_sn newseg" "seg_sn s \<noteq> seg_sn newseg"
      using 2 calculation by auto
    ultimately show ?thesis using 2 d by (simp add: filter_empty_conv filter_id_conv)
  next
    case 3
    then show ?thesis using Cons d by auto
  qed
qed simp

text \<open>
  The receiver's invariant: the buffered numbers increase from \<open>rcv_nxt\<close> within half of the
  number circle, the counters count, the windows and the queue are below the sizes that fit
  the 16-bit window field, and every segment came from one UDP datagram.
\<close>

definition rcv_inv :: "IKCPCB \<Rightarrow> bool" where
  "rcv_inv kcp \<longleftrightarrow>
     in_window (rcv_nxt kcp) (2 ^ 31) (map seg_sn (rcv_buf kcp)) \<and>
     0 < unat (rcv_wnd kcp) \<and> unat (rcv_wnd kcp) \<le> 32767 \<and>
     length (rcv_queue kcp) \<le> 32767 \<and>
     nrcv_buf kcp = of_nat (length (rcv_buf kcp)) \<and>
     nrcv_que kcp = of_nat (length (rcv_queue kcp)) \<and>
     (\<forall>seg \<in> set (rcv_queue kcp) \<union> set (rcv_buf kcp). seg_wf 65535 seg)"

lemma in_window_insert:
  assumes "in_window base lim (map seg_sn p)" and "offset base (seg_sn s) < lim"
  shows "in_window base lim (map seg_sn
     (filter (\<lambda>t. offset base (seg_sn t) < offset base (seg_sn s)) p @ s #
      filter (\<lambda>t. offset base (seg_sn s) < offset base (seg_sn t)) p))"
  using assms by (fastforce simp: in_window_def sorted_wrt_append sorted_wrt_map intro: sorted_wrt_filter)

lemma insert_rev_window:
  assumes "in_window base (2 ^ 31) (map seg_sn p)" and "offset base (seg_sn s) < 2 ^ 31"
  shows "map_option rev (insert_rev s (rev p)) =
    (if \<exists>t \<in> set p. seg_sn t = seg_sn s then None
     else Some (filter (\<lambda>t. offset base (seg_sn t) < offset base (seg_sn s)) p @ s #
                filter (\<lambda>t. offset base (seg_sn s) < offset base (seg_sn t)) p))"
  using assms insert_rev_spec [of base "rev p" s]
  by (simp add: in_window_def rev_map [symmetric] sorted_wrt_rev rev_filter)

text \<open>The part of a buffer that continues at \<open>nxt\<close> without a gap, at most \<open>room\<close> segments.\<close>

fun ready :: "u32 \<Rightarrow> nat \<Rightarrow> IKCPSEG list \<Rightarrow> IKCPSEG list" where
  "ready nxt room [] = []"
| "ready nxt 0 (seg # p) = []"
| "ready nxt (Suc room) (seg # p) =
     (if seg_sn seg = nxt then seg # ready (nxt + 1) room p else [])"

lemma move_loop_ready:
  assumes "nrcv_que kcp = of_nat (length (rcv_queue kcp))" and "length (rcv_queue kcp) < 2 ^ 31"
    and "unat (rcv_wnd kcp) < 2 ^ 31"
  shows "move_loop p kcp =
    (let d = ready (rcv_nxt kcp) (unat (rcv_wnd kcp) - length (rcv_queue kcp)) p
     in kcp\<lparr>nrcv_buf := nrcv_buf kcp - of_nat (length d), rcv_queue := rcv_queue kcp @ d,
            nrcv_que := nrcv_que kcp + of_nat (length d),
            rcv_nxt := rcv_nxt kcp + of_nat (length d), rcv_buf := drop (length d) p\<rparr>)"
  using assms
proof (induction p kcp rule: move_loop.induct)
  case (2 seg p kcp)
  let ?room = "unat (rcv_wnd kcp) - length (rcv_queue kcp)"
  have c: "nrcv_que kcp < rcv_wnd kcp \<longleftrightarrow> 0 < ?room"
    using 2(2,3) by (simp add: word_less_nat_alt unat_of_nat)
  show ?case
  proof (cases "seg_sn seg = rcv_nxt kcp \<and> 0 < ?room")
    case True
    then obtain r where r: "?room = Suc r" by (cases ?room) auto
    have "move_loop (seg # p) kcp = move_loop p
             (kcp\<lparr>nrcv_buf := nrcv_buf kcp - 1, rcv_queue := rcv_queue kcp @ [seg],
                  nrcv_que := nrcv_que kcp + 1, rcv_nxt := rcv_nxt kcp + 1\<rparr>)"
      using True c by simp
    moreover have "unat (rcv_wnd kcp) - Suc (length (rcv_queue kcp)) = r" using r by simp
    ultimately show ?thesis
      using 2 True c r by (simp add: Let_def algebra_simps)
  next
    case False
    then have "ready (rcv_nxt kcp) ?room (seg # p) = []" by (cases ?room) auto
    with False c show ?thesis by auto
  qed
qed simp

lemma ready_take: "ready nxt room p = take (length (ready nxt room p)) p"
  by (induction nxt room p rule: ready.induct) auto

lemma ready_drop: "p = ready nxt room p @ drop (length (ready nxt room p)) p"
  by (subst ready_take) (metis append_take_drop_id)

lemma length_ready: "length (ready nxt room p) \<le> room"
  by (induction nxt room p rule: ready.induct) auto

lemma ready_sn: "i < length (ready nxt room p) \<Longrightarrow> seg_sn (ready nxt room p ! i) = nxt + of_nat i"
  by (induction nxt room p arbitrary: i rule: ready.induct)
    (auto simp: nth_Cons split: if_splits nat.splits)

text \<open>Moving the ready run leaves numbers that are still ahead of the new \<open>rcv_nxt\<close>.\<close>

lemma in_window_ready:
  assumes "in_window nxt (2 ^ 31) (map seg_sn p)"
  shows "in_window (nxt + of_nat (length (ready nxt room p))) (2 ^ 31)
           (map seg_sn (drop (length (ready nxt room p)) p))"
  using assms
proof (induction nxt room p rule: ready.induct)
  case (3 nxt room seg p)
  show ?case
  proof (cases "seg_sn seg = nxt")
    case True
    have w: "in_window nxt (2 ^ 31) (nxt # map seg_sn p)" using 3(2) True by simp
    have one: "offset nxt (nxt + 1) = 1" by simp
    have "in_window (nxt + 1) (2 ^ 31 - 1) (map seg_sn p)"
      using in_window_rebase [of nxt "2 ^ 31" "map seg_sn p" "nxt + 1"] w one
      by (auto simp: in_window_def Suc_le_eq)
    then have "in_window (nxt + 1) (2 ^ 31) (map seg_sn p)" by (rule in_window_mono) simp
    from 3(1) [OF True this] True show ?thesis by (simp add: ac_simps)
  qed (use 3 in simp)
qed simp_all

lemma move_available_ready:
  assumes "rcv_inv kcp"
  defines "d \<equiv> ready (rcv_nxt kcp) (unat (rcv_wnd kcp) - length (rcv_queue kcp)) (rcv_buf kcp)"
  shows "move_available kcp =
    kcp\<lparr>nrcv_buf := nrcv_buf kcp - of_nat (length d), rcv_queue := rcv_queue kcp @ d,
        nrcv_que := nrcv_que kcp + of_nat (length d),
        rcv_nxt := rcv_nxt kcp + of_nat (length d), rcv_buf := drop (length d) (rcv_buf kcp)\<rparr>"
  using assms(1) unfolding move_available_def d_def
  by (subst move_loop_ready) (simp_all add: rcv_inv_def Let_def)

lemma rcv_inv_move: 
  assumes "rcv_inv kcp" shows "rcv_inv (move_available kcp)"
proof -
  let ?room = "unat (rcv_wnd kcp) - length (rcv_queue kcp)"
  let ?d = "ready (rcv_nxt kcp) ?room (rcv_buf kcp)"
  have w: "in_window (rcv_nxt kcp + of_nat (length ?d)) (2 ^ 31) (map seg_sn (drop (length ?d) (rcv_buf kcp)))"
    using assms by (intro in_window_ready) (simp add: rcv_inv_def)
  have le: "length ?d \<le> length (rcv_buf kcp)" by (subst ready_take) simp
  have q: "length (rcv_queue kcp) + length ?d \<le> 32767"
    using length_ready [of "rcv_nxt kcp" ?room "rcv_buf kcp"] assms
    by (simp add: rcv_inv_def) linarith
  have wf: "\<forall>seg \<in> set ?d \<union> set (drop (length ?d) (rcv_buf kcp)). seg_wf 65535 seg"
    using assms by (subst ready_take) (auto simp: rcv_inv_def dest: in_set_takeD in_set_dropD)
  show ?thesis
    unfolding move_available_ready [OF assms]
    using assms w le q wf by (auto simp: rcv_inv_def of_nat_diff)
qed

lemma parse_data_accepts_iff:
  assumes "rcv_inv kcp"
  shows "itimediff sn (rcv_nxt kcp + rcv_wnd kcp) \<ge> 0 \<or> itimediff sn (rcv_nxt kcp) < 0 \<longleftrightarrow>
    \<not> offset (rcv_nxt kcp) sn < unat (rcv_wnd kcp)"
  using itimediff_range [of "rcv_wnd kcp" sn "rcv_nxt kcp"] assms
  by (auto simp: rcv_inv_def)

text \<open>What \<^verbatim>\<open>ikcp_parse_data\<close> does to the buffer before it moves what is ready.\<close>

definition store :: "IKCPCB \<Rightarrow> IKCPSEG \<Rightarrow> IKCPCB" where
  "store kcp s =
     (let off = \<lambda>t. offset (rcv_nxt kcp) (seg_sn t) in
      if off s < unat (rcv_wnd kcp) \<and> (\<forall>t \<in> set (rcv_buf kcp). seg_sn t \<noteq> seg_sn s)
      then kcp\<lparr>rcv_buf := filter (\<lambda>t. off t < off s) (rcv_buf kcp) @ s #
                         filter (\<lambda>t. off s < off t) (rcv_buf kcp),
               nrcv_buf := nrcv_buf kcp + 1\<rparr>
      else kcp)"

lemma parse_data_store:
  assumes "rcv_inv kcp"
  shows "ikcp_parse_data kcp s =
    (if offset (rcv_nxt kcp) (seg_sn s) < unat (rcv_wnd kcp) then move_available (store kcp s) else kcp)"
proof (cases "offset (rcv_nxt kcp) (seg_sn s) < unat (rcv_wnd kcp)")
  case True
  have "in_window (rcv_nxt kcp) (2 ^ 31) (map seg_sn (rcv_buf kcp))"
    and "offset (rcv_nxt kcp) (seg_sn s) < 2 ^ 31"
    using assms True by (simp_all add: rcv_inv_def)
  from insert_rev_window [OF this] True show ?thesis
    unfolding ikcp_parse_data_def Let_def parse_data_accepts_iff [OF assms]
    by (auto simp: store_def Let_def split: option.splits if_splits)
qed (simp add: ikcp_parse_data_def parse_data_accepts_iff [OF assms])

lemma rcv_inv_store:
  assumes "rcv_inv kcp" and "seg_wf 65535 s"
  shows "rcv_inv (store kcp s)"
proof (cases "offset (rcv_nxt kcp) (seg_sn s) < unat (rcv_wnd kcp) \<and>
              (\<forall>t \<in> set (rcv_buf kcp). seg_sn t \<noteq> seg_sn s)")
  case True
  let ?off = "\<lambda>t. offset (rcv_nxt kcp) (seg_sn t)"
  have w: "in_window (rcv_nxt kcp) (2 ^ 31) (map seg_sn
     (filter (\<lambda>t. ?off t < ?off s) (rcv_buf kcp) @ s # filter (\<lambda>t. ?off s < ?off t) (rcv_buf kcp)))"
    using assms(1) True by (intro in_window_insert) (simp_all add: rcv_inv_def)
  have "filter (\<lambda>t. ?off s < ?off t) (rcv_buf kcp) = filter (\<lambda>t. \<not> ?off t < ?off s) (rcv_buf kcp)"
    using True by (intro filter_cong refl) (metis offset_inject less_asym nat_neq_iff)
  then have "length (filter (\<lambda>t. ?off t < ?off s) (rcv_buf kcp)) +
      length (filter (\<lambda>t. ?off s < ?off t) (rcv_buf kcp)) = length (rcv_buf kcp)"
    by (simp add: sum_length_filter_compl)
  then have n: "of_nat (length (filter (\<lambda>t. ?off t < ?off s) (rcv_buf kcp))) +
      of_nat (length (filter (\<lambda>t. ?off s < ?off t) (rcv_buf kcp))) = (of_nat (length (rcv_buf kcp)) :: u32)"
    by (simp only: of_nat_add [symmetric])
  show ?thesis
    unfolding store_def Let_def
    using True assms w by (auto simp: rcv_inv_def n ac_simps)
qed (use assms in \<open>auto simp: store_def Let_def\<close>)

lemma rcv_inv_parse_data:
  "rcv_inv kcp \<Longrightarrow> seg_wf 65535 s \<Longrightarrow> rcv_inv (ikcp_parse_data kcp s)"
  by (simp add: parse_data_store rcv_inv_store rcv_inv_move)


section \<open>Receiving messages\<close>

text \<open>
  The first message of the queue: the segments up to and including the first one with
  fragment number zero, and what is behind it.
\<close>

definition first_msg :: "IKCPSEG list \<Rightarrow> IKCPSEG list" where
  "first_msg q = takeWhile (\<lambda>s. seg_frg s \<noteq> 0) q @ take 1 (dropWhile (\<lambda>s. seg_frg s \<noteq> 0) q)"

definition later_msgs :: "IKCPSEG list \<Rightarrow> IKCPSEG list" where
  "later_msgs q = drop 1 (dropWhile (\<lambda>s. seg_frg s \<noteq> 0) q)"

lemma first_msg_simps [simp]:
  "first_msg [] = []"
  "first_msg (s # q) = (if seg_frg s = 0 then [s] else s # first_msg q)"
  "later_msgs [] = []"
  "later_msgs (s # q) = (if seg_frg s = 0 then q else later_msgs q)"
  by (simp_all add: first_msg_def later_msgs_def)

lemma msg_split: "q = first_msg q @ later_msgs q"
  by (induction q) auto

lemma merge_loop_msg:
  assumes "\<forall>s \<in> set q. seg_wf m s"
  shows "merge_loop out len k q =
    (out @ payload (first_msg q), len + of_nat (length (payload (first_msg q))),
     k + of_nat (length (first_msg q)), later_msgs q)"
  using assms by (induction out len k q rule: merge_loop.induct) (auto simp: seg_wf_def Let_def ac_simps)

lemma peek_loop_msg:
  assumes "\<forall>s \<in> set q. seg_wf m s"
  shows "peek_loop len q = len + of_nat (length (payload (first_msg q)))"
  using assms by (induction len q rule: peek_loop.induct) (auto simp: seg_wf_def ac_simps)

lemma rcv_inv_payload:
  assumes "rcv_inv kcp"
  shows "length (payload (first_msg (rcv_queue kcp))) < 2 ^ 31"
proof -
  have "\<forall>s \<in> set (first_msg (rcv_queue kcp)). seg_wf 65535 s"
    using assms msg_split [of "rcv_queue kcp"] unfolding rcv_inv_def by (metis UnI1 set_append)
  then have "length (payload (first_msg (rcv_queue kcp))) \<le> length (first_msg (rcv_queue kcp)) * 65535"
    by (rule payload_bound)
  moreover have "length (first_msg (rcv_queue kcp)) \<le> 32767"
    using assms msg_split [of "rcv_queue kcp"] unfolding rcv_inv_def
    by (metis le_add1 length_append le_trans)
  ultimately show ?thesis by simp
qed

text \<open>
  A message is complete when its fragment number says so: the queue holds at least as many
  segments as the first fragment announces.
\<close>

definition msg_complete :: "IKCPCB \<Rightarrow> bool" where
  "msg_complete kcp \<longleftrightarrow>
     (case rcv_queue kcp of [] \<Rightarrow> False | s # _ \<Rightarrow> seg_frg s = 0 \<or> \<not> nrcv_que kcp < seg_frg s + 1)"

lemma peeksize_msg:
  assumes "rcv_inv kcp"
  shows "ikcp_peeksize kcp =
    (if msg_complete kcp then int (length (payload (first_msg (rcv_queue kcp)))) else -1)"
proof (cases "rcv_queue kcp")
  case (Cons s q)
  have wf: "\<forall>t \<in> set (rcv_queue kcp). seg_wf 65535 t" using assms by (simp add: rcv_inv_def)
  have small: "sint (of_nat (length (payload (first_msg (rcv_queue kcp)))) :: u32) =
      int (length (payload (first_msg (rcv_queue kcp))))"
    using rcv_inv_payload [OF assms] by (subst sint_small) (simp_all add: unat_of_nat)
  have "seg_len s = of_nat (length (seg_data s))" using wf Cons by (simp add: seg_wf_def)
  with Cons small peek_loop_msg [OF wf, of 0] show ?thesis
    by (auto simp: ikcp_peeksize_def msg_complete_def)
qed (simp add: ikcp_peeksize_def msg_complete_def)


text \<open>
  \<^verbatim>\<open>ikcp_recv\<close> never trips over its assertion or the user's buffer, and gives exactly the
  first message; without a complete message, or with too small a buffer, nothing changes.
\<close>

definition after_recv :: "IKCPCB \<Rightarrow> bool \<Rightarrow> IKCPCB" where
  "after_recv kcp ispeek =
     (let kcp' = (if ispeek then kcp
                  else kcp\<lparr>rcv_queue := later_msgs (rcv_queue kcp),
                           nrcv_que := nrcv_que kcp - of_nat (length (first_msg (rcv_queue kcp)))\<rparr>);
          kcp' = move_available kcp'
      in if nrcv_que kcp' < rcv_wnd kcp' \<and> nrcv_que kcp \<ge> rcv_wnd kcp
         then kcp'\<lparr>probe := probe kcp' OR IKCP_ASK_TELL\<rparr> else kcp')"

lemma recv_spec:
  assumes "rcv_inv kcp"
  shows "ikcp_recv kcp len =
    (let msg = payload (first_msg (rcv_queue kcp)) in
     if rcv_queue kcp = [] then Inr (-1, [], kcp)
     else if \<not> msg_complete kcp then Inr (-2, [], kcp)
     else if int (length msg) > \<bar>len\<bar> then Inr (-3, [], kcp)
     else Inr (int (length msg), msg, after_recv kcp (len < 0)))"
proof -
  have wf: "\<forall>t \<in> set (rcv_queue kcp). seg_wf 65535 t" using assms by (simp add: rcv_inv_def)
  have small: "sint (of_nat (length (payload (first_msg (rcv_queue kcp)))) :: u32) =
      int (length (payload (first_msg (rcv_queue kcp))))"
    using rcv_inv_payload [OF assms] by (subst sint_small) (simp_all add: unat_of_nat)
  show ?thesis
    unfolding ikcp_recv_def Let_def merge_loop_msg [OF wf] peeksize_msg [OF assms]
    by (simp add: small after_recv_def Let_def abs_if nat_less_iff not_less)
qed

lemma rcv_inv_drop_msg:
  assumes "rcv_inv kcp"
  shows "rcv_inv (kcp\<lparr>rcv_queue := later_msgs (rcv_queue kcp),
                      nrcv_que := nrcv_que kcp - of_nat (length (first_msg (rcv_queue kcp)))\<rparr>)"
proof -
  obtain a b where q: "rcv_queue kcp = a @ b" "first_msg (rcv_queue kcp) = a" "later_msgs (rcv_queue kcp) = b"
    using msg_split [of "rcv_queue kcp"] by blast
  show ?thesis using assms unfolding q(2,3) by (auto simp: rcv_inv_def q(1))
qed

lemma rcv_inv_probe [simp]: "rcv_inv (kcp\<lparr>probe := b\<rparr>) \<longleftrightarrow> rcv_inv kcp"
  by (simp add: rcv_inv_def)

lemma rcv_inv_after_recv: "rcv_inv kcp \<Longrightarrow> rcv_inv (after_recv kcp ispeek)"
  by (simp add: after_recv_def Let_def rcv_inv_move rcv_inv_drop_msg)

lemma recv_ok:
  assumes "rcv_inv kcp"
  shows "\<exists>ret out kcp'. ikcp_recv kcp len = Inr (ret, out, kcp') \<and> rcv_inv kcp'"
  unfolding recv_spec [OF assms] Let_def
  using assms rcv_inv_after_recv by auto

end
