(* ===== verification/Kcp_Flush.thy ===== *)
theory Kcp_Flush
  imports Kcp_Send Kcp_Recv
begin

unbundle bit_operations_syntax

text \<open>
  \<^verbatim>\<open>ikcp_flush\<close> and the clock-driven operations around it. The output buffer is the list of
  the bytes written so far (\<^verbatim>\<open>ptr - buffer\<close> is its length), a write past the allocated size
  is a fault, and the datagrams given to the output callback are collected in order.
\<close>

type_synonym out_st = "bytes list \<times> bytes"

definition ikcp_output :: "IKCPCB \<Rightarrow> bytes list \<Rightarrow> bytes \<Rightarrow> bytes list res" where
  "ikcp_output kcp outs data =
     (if \<not> output_cb kcp then Inl Assert_failed
      else if data = [] then Inr outs
      else Inr (outs @ [data]))"

definition ikcp_encode_seg :: "IKCPSEG \<Rightarrow> bytes" where
  "ikcp_encode_seg seg =
     ikcp_encode32u (seg_conv seg) @
     ikcp_encode8u (ucast (seg_cmd seg)) @
     ikcp_encode8u (ucast (seg_frg seg)) @
     ikcp_encode16u (ucast (seg_wnd seg)) @
     ikcp_encode32u (seg_ts seg) @
     ikcp_encode32u (seg_sn seg) @
     ikcp_encode32u (seg_una seg) @
     ikcp_encode32u (seg_len seg)"

definition ikcp_wnd_unused :: "IKCPCB \<Rightarrow> int" where
  "ikcp_wnd_unused kcp =
     (if nrcv_que kcp < rcv_wnd kcp then sint (rcv_wnd kcp - nrcv_que kcp) else 0)"

text \<open>Writing at \<^verbatim>\<open>ptr\<close>, and the recurring test that starts a new datagram first.\<close>

definition buf_write :: "IKCPCB \<Rightarrow> bytes \<Rightarrow> out_st \<Rightarrow> out_st res" where
  "buf_write kcp bs st =
     (case (buffer kcp, st) of
        (Some cap, outs, buf) \<Rightarrow>
          if length buf + length bs \<le> cap then Inr (outs, buf @ bs) else Inl Out_of_bounds
      | (None, _) \<Rightarrow> Inl Out_of_bounds)"

definition make_room :: "IKCPCB \<Rightarrow> int \<Rightarrow> out_st \<Rightarrow> out_st res" where
  "make_room kcp need st =
     (case st of (outs, buf) \<Rightarrow>
        if int (length buf) + need > sint (mtu kcp)
        then rbind (ikcp_output kcp outs buf) (\<lambda>outs. Inr (outs, []))
        else Inr (outs, buf))"

definition put_head :: "IKCPCB \<Rightarrow> IKCPSEG \<Rightarrow> out_st \<Rightarrow> out_st res" where
  "put_head kcp seg st =
     rbind (make_room kcp (sint IKCP_OVERHEAD) st) (buf_write kcp (ikcp_encode_seg seg))"

section \<open>The steps of a flush\<close>

text \<open>The segment the control replies are made from.\<close>

definition reply_seg :: "IKCPCB \<Rightarrow> IKCPSEG" where
  "reply_seg kcp =
     \<lparr> seg_conv = conv kcp, seg_cmd = IKCP_CMD_ACK, seg_frg = 0,
       seg_wnd = word_of_int (ikcp_wnd_unused kcp), seg_ts = 0, seg_sn = 0,
       seg_una = rcv_nxt kcp, seg_len = 0, seg_resendts = 0, seg_rto = 0,
       seg_fastack = 0, seg_xmit = 0, seg_data = [] \<rparr>"

fun flush_acks :: "IKCPCB \<Rightarrow> nat \<Rightarrow> nat \<Rightarrow> IKCPSEG \<Rightarrow> out_st \<Rightarrow> (IKCPSEG \<times> out_st) res" where
  "flush_acks kcp i 0 seg st = Inr (seg, st)"
| "flush_acks kcp i (Suc n) seg st =
     rbind (make_room kcp (sint IKCP_OVERHEAD) st) (\<lambda>st.
     rbind (ikcp_ack_get kcp i) (\<lambda>(sn, ts).
       let seg = seg\<lparr>seg_sn := sn, seg_ts := ts\<rparr>
       in rbind (buf_write kcp (ikcp_encode_seg seg) st)
            (\<lambda>st. flush_acks kcp (i + 1) n seg st)))"

definition flush_probe :: "IKCPCB \<Rightarrow> IKCPCB" where
  "flush_probe kcp =
     (if rmt_wnd kcp = 0 then
        (if probe_wait kcp = 0 then
           kcp\<lparr>probe_wait := IKCP_PROBE_INIT, ts_probe := current kcp + IKCP_PROBE_INIT\<rparr>
         else if itimediff (current kcp) (ts_probe kcp) \<ge> 0 then
           let w = (if probe_wait kcp < IKCP_PROBE_INIT then IKCP_PROBE_INIT else probe_wait kcp);
               w = w + w div 2;
               w = (if w > IKCP_PROBE_LIMIT then IKCP_PROBE_LIMIT else w)
           in kcp\<lparr>probe_wait := w, ts_probe := current kcp + w,
                  probe := probe kcp OR IKCP_ASK_SEND\<rparr>
         else kcp)
      else kcp\<lparr>ts_probe := 0, probe_wait := 0\<rparr>)"

definition flush_wnd_cmds :: "IKCPCB \<Rightarrow> IKCPSEG \<Rightarrow> out_st \<Rightarrow> out_st res" where
  "flush_wnd_cmds kcp seg st =
     rbind (if probe kcp AND IKCP_ASK_SEND \<noteq> 0
            then put_head kcp (seg\<lparr>seg_cmd := IKCP_CMD_WASK\<rparr>) st else Inr st) (\<lambda>st.
       if probe kcp AND IKCP_ASK_TELL \<noteq> 0
       then put_head kcp (seg\<lparr>seg_cmd := IKCP_CMD_WINS\<rparr>) st else Inr st)"

definition flush_cwnd :: "IKCPCB \<Rightarrow> u32" where
  "flush_cwnd kcp =
     (let cw = imin (snd_wnd kcp) (rmt_wnd kcp)
      in if nocwnd kcp = 0 then imin (cwnd kcp) cw else cw)"

text \<open>Moving segments from the send queue to the send buffer while the window allows.\<close>

fun flush_move :: "u32 \<Rightarrow> u32 \<Rightarrow> IKCPSEG list \<Rightarrow> IKCPCB \<Rightarrow> IKCPCB" where
  "flush_move cw wnd [] kcp = kcp\<lparr>snd_queue := []\<rparr>"
| "flush_move cw wnd (newseg # q) kcp =
     (if itimediff (snd_nxt kcp) (snd_una kcp + cw) < 0 then
        let newseg = newseg\<lparr>seg_conv := conv kcp, seg_cmd := IKCP_CMD_PUSH, seg_wnd := wnd,
              seg_ts := current kcp, seg_sn := snd_nxt kcp, seg_una := rcv_nxt kcp,
              seg_resendts := current kcp, seg_rto := word_of_int (rx_rto kcp),
              seg_fastack := 0, seg_xmit := 0\<rparr>
        in flush_move cw wnd q
             (kcp\<lparr>snd_buf := snd_buf kcp @ [newseg], nsnd_que := nsnd_que kcp - 1,
                  nsnd_buf := nsnd_buf kcp + 1, snd_nxt := snd_nxt kcp + 1\<rparr>)
      else kcp\<lparr>snd_queue := newseg # q\<rparr>)"

definition flush_resent :: "IKCPCB \<Rightarrow> u32" where
  "flush_resent kcp = (if fastresend kcp > 0 then word_of_int (fastresend kcp) else 0xffffffff)"

definition flush_rtomin :: "IKCPCB \<Rightarrow> u32" where
  "flush_rtomin kcp = (if nodelay kcp = 0 then word_of_int (drop_bit 3 (rx_rto kcp)) else 0)"

text \<open>
  What the data loop does with one segment: first transmission, retransmission after a
  timeout, fast retransmission, or nothing.
\<close>

datatype verdict = Skip | First | Timeout | Fast

definition flush_verdict :: "IKCPCB \<Rightarrow> u32 \<Rightarrow> IKCPSEG \<Rightarrow> verdict" where
  "flush_verdict kcp resent seg =
     (if seg_xmit seg = 0 then First
      else if itimediff (current kcp) (seg_resendts seg) \<ge> 0 then Timeout
      else if seg_fastack seg \<ge> resent then
        (if sint (seg_xmit seg) \<le> fastlimit kcp \<or> fastlimit kcp \<le> 0 then Fast else Skip)
      else Skip)"

definition flush_retime :: "IKCPCB \<Rightarrow> u32 \<Rightarrow> verdict \<Rightarrow> IKCPSEG \<Rightarrow> IKCPSEG" where
  "flush_retime kcp rtomin v seg =
     (case v of
        Skip \<Rightarrow> seg
      | First \<Rightarrow>
          let rto = word_of_int (rx_rto kcp)
          in seg\<lparr>seg_xmit := seg_xmit seg + 1, seg_rto := rto,
                 seg_resendts := current kcp + rto + rtomin\<rparr>
      | Timeout \<Rightarrow>
          let rto = (if nodelay kcp = 0
                     then seg_rto seg + imax (seg_rto seg) (word_of_int (rx_rto kcp))
                     else let step = (if nodelay kcp < 2 then sint (seg_rto seg) else rx_rto kcp)
                          in seg_rto seg + word_of_int (step sdiv 2))
          in seg\<lparr>seg_xmit := seg_xmit seg + 1, seg_rto := rto,
                 seg_resendts := current kcp + rto\<rparr>
      | Fast \<Rightarrow>
          seg\<lparr>seg_xmit := seg_xmit seg + 1, seg_fastack := 0,
              seg_resendts := current kcp + seg_rto seg\<rparr>)"

text \<open>Stamping a segment that is sent, and writing it with its data.\<close>

definition flush_stamp :: "IKCPCB \<Rightarrow> u32 \<Rightarrow> IKCPSEG \<Rightarrow> IKCPSEG" where
  "flush_stamp kcp wnd seg = seg\<lparr>seg_ts := current kcp, seg_wnd := wnd, seg_una := rcv_nxt kcp\<rparr>"

definition put_segment :: "IKCPCB \<Rightarrow> IKCPSEG \<Rightarrow> out_st \<Rightarrow> out_st res" where
  "put_segment kcp seg st =
     (let need = sint (IKCP_OVERHEAD + seg_len seg)
      in rbind (make_room kcp need st) (\<lambda>st.
         rbind (buf_write kcp (ikcp_encode_seg seg) st) (\<lambda>st.
           if seg_len seg > 0 then
             (if length (seg_data seg) < unat (seg_len seg) then Inl Out_of_bounds
              else buf_write kcp (take (unat (seg_len seg)) (seg_data seg)) st)
           else Inr st)))"

text \<open>
  The data loop returns the updated segments; \<open>lost\<close> and \<open>change\<close> are the flags of the
  source (only whether \<^verbatim>\<open>change\<close> is zero matters).
\<close>

fun flush_data :: "u32 \<Rightarrow> u32 \<Rightarrow> u32 \<Rightarrow> IKCPSEG list \<Rightarrow> IKCPCB \<Rightarrow> bool \<Rightarrow> bool \<Rightarrow> out_st \<Rightarrow>
    (IKCPSEG list \<times> IKCPCB \<times> bool \<times> bool \<times> out_st) res" where
  "flush_data resent rtomin wnd [] kcp lost change st = Inr ([], kcp, lost, change, st)"
| "flush_data resent rtomin wnd (seg # p) kcp lost change st =
     (let v = flush_verdict kcp resent seg;
          seg = flush_retime kcp rtomin v seg;
          kcp = (if v = Timeout then kcp\<lparr>xmit := xmit kcp + 1\<rparr> else kcp);
          lost = (lost \<or> v = Timeout);
          change = (change \<or> v = Fast)
      in if v = Skip then
           rbind (flush_data resent rtomin wnd p kcp lost change st)
             (\<lambda>(q, r). Inr (seg # q, r))
         else
           let seg = flush_stamp kcp wnd seg
           in rbind (put_segment kcp seg st) (\<lambda>st.
              rbind (flush_data resent rtomin wnd p
                       (if seg_xmit seg \<ge> dead_link kcp then kcp\<lparr>state := - 1\<rparr> else kcp)
                       lost change st)
                (\<lambda>(q, r). Inr (seg # q, r))))"

definition flush_congestion :: "u32 \<Rightarrow> u32 \<Rightarrow> bool \<Rightarrow> bool \<Rightarrow> IKCPCB \<Rightarrow> IKCPCB" where
  "flush_congestion resent cw lost change kcp =
     (let kcp =
        (if change then
           let thresh = (snd_nxt kcp - snd_una kcp) div 2;
               thresh = (if thresh < IKCP_THRESH_MIN then IKCP_THRESH_MIN else thresh)
           in kcp\<lparr>ssthresh := thresh, cwnd := thresh + resent,
                  incr := (thresh + resent) * mss kcp\<rparr>
         else kcp);
        kcp =
        (if lost then
           let thresh = cw div 2;
               thresh = (if thresh < IKCP_THRESH_MIN then IKCP_THRESH_MIN else thresh)
           in kcp\<lparr>ssthresh := thresh, cwnd := 1, incr := mss kcp\<rparr>
         else kcp)
      in if cwnd kcp < 1 then kcp\<lparr>cwnd := 1, incr := mss kcp\<rparr> else kcp)"

section \<open>Flush, update, check\<close>

definition ikcp_flush :: "IKCPCB \<Rightarrow> (IKCPCB \<times> bytes list) res" where
  "ikcp_flush kcp =
     (if updated kcp = 0 then Inr (kcp, [])
      else
        let seg = reply_seg kcp
        in rbind (flush_acks kcp 0 (nat (sint (ackcount kcp))) seg ([], [])) (\<lambda>(seg, st).
           let kcp = flush_probe (kcp\<lparr>ackcount := 0\<rparr>)
           in rbind (flush_wnd_cmds kcp seg st) (\<lambda>st.
           let kcp = kcp\<lparr>probe := 0\<rparr>;
               cw = flush_cwnd kcp;
               kcp = flush_move cw (seg_wnd seg) (snd_queue kcp) kcp;
               resent = flush_resent kcp
           in rbind (flush_data resent (flush_rtomin kcp) (seg_wnd seg) (snd_buf kcp) kcp
                       False False st) (\<lambda>(q, kcp, lost, change, outs, buf).
           let kcp = kcp\<lparr>snd_buf := q\<rparr>
           in rbind (if buf \<noteq> [] then ikcp_output kcp outs buf else Inr outs) (\<lambda>outs.
           Inr (flush_congestion resent cw lost change kcp, outs))))))"

definition ikcp_update :: "IKCPCB \<Rightarrow> u32 \<Rightarrow> (IKCPCB \<times> bytes list) res" where
  "ikcp_update kcp cur =
     (let kcp = kcp\<lparr>current := cur\<rparr>;
          kcp = (if updated kcp = 0 then kcp\<lparr>updated := 1, ts_flush := current kcp\<rparr> else kcp);
          slap = itimediff (current kcp) (ts_flush kcp);
          (kcp, slap) = (if slap \<ge> 10000 \<or> slap < -10000
                         then (kcp\<lparr>ts_flush := current kcp\<rparr>, 0) else (kcp, slap))
      in if slap \<ge> 0 then
           let kcp = kcp\<lparr>ts_flush := ts_flush kcp + interval kcp\<rparr>;
               kcp = (if itimediff (current kcp) (ts_flush kcp) \<ge> 0
                      then kcp\<lparr>ts_flush := current kcp + interval kcp\<rparr> else kcp)
           in ikcp_flush kcp
         else Inr (kcp, []))"

text \<open>The scan of \<^verbatim>\<open>ikcp_check\<close>: \<^const>\<open>None\<close> when a segment is already due.\<close>

fun check_loop :: "u32 \<Rightarrow> int \<Rightarrow> IKCPSEG list \<Rightarrow> int option" where
  "check_loop cur tm_packet [] = Some tm_packet"
| "check_loop cur tm_packet (seg # p) =
     (let diff = itimediff (seg_resendts seg) cur
      in if diff \<le> 0 then None
         else check_loop cur (if diff < tm_packet then diff else tm_packet) p)"

definition ikcp_check :: "IKCPCB \<Rightarrow> u32 \<Rightarrow> u32" where
  "ikcp_check kcp cur =
     (if updated kcp = 0 then cur
      else
        let tf = ts_flush kcp;
            tf = (if itimediff cur tf \<ge> 10000 \<or> itimediff cur tf < -10000 then cur else tf)
        in if itimediff cur tf \<ge> 0 then cur
           else let tm_flush = itimediff tf cur
                in case check_loop cur 0x7fffffff (snd_buf kcp) of
                     None \<Rightarrow> cur
                   | Some tm_packet \<Rightarrow>
                       let minimal = word_of_int (if tm_packet < tm_flush then tm_packet else tm_flush);
                           minimal = (if minimal \<ge> interval kcp then interval kcp else minimal)
                       in cur + minimal)"

section \<open>Packing segments into datagrams\<close>

text \<open>
  What a flush needs of the configuration: an output callback, an MTU that fits an
  \<^verbatim>\<open>int\<close> and holds a header, and a buffer at least that large.
\<close>

definition cfg_inv :: "IKCPCB \<Rightarrow> bool" where
  "cfg_inv kcp \<longleftrightarrow>
     24 < unat (mtu kcp) \<and> unat (mtu kcp) < 2 ^ 31 \<and> unat (mss kcp) + 24 = unat (mtu kcp) \<and>
     (\<exists>cap. buffer kcp = Some cap \<and> unat (mtu kcp) \<le> cap)"

text \<open>
  \<open>packed m st items\<close>: the datagrams given out so far and the buffer are the \<open>items\<close> in
  order, none of them split, with no empty datagram and none longer than \<open>m\<close>.
\<close>

definition packed :: "nat \<Rightarrow> out_st \<Rightarrow> bytes list \<Rightarrow> bool" where
  "packed m st items \<longleftrightarrow>
     (\<exists>gs g. fst st = map concat gs \<and> snd st = concat g \<and> concat gs @ g = items \<and>
        (snd st = [] \<longrightarrow> g = [])) \<and>
     (\<forall>d \<in> set (fst st). d \<noteq> [] \<and> length d \<le> m) \<and> length (snd st) \<le> m"

lemma packed_start [simp]: "packed m ([], []) []"
  by (auto simp: packed_def intro!: exI [of _ "[]"])

lemma packed_done: "packed m (outs, []) items \<Longrightarrow> \<exists>gs. outs = map concat gs \<and> concat gs = items"
  by (auto simp: packed_def)

lemma packed_output:
  assumes "packed m (outs, buf) items" and "buf \<noteq> []"
  shows "packed m (outs @ [buf], []) items"
proof -
  obtain gs g where "outs = map concat gs" "buf = concat g" "concat gs @ g = items"
    using assms(1) by (auto simp: packed_def)
  then have "outs @ [buf] = map concat (gs @ [g])" "concat (gs @ [g]) @ [] = items" by simp_all
  moreover have "\<forall>d \<in> set (outs @ [buf]). d \<noteq> [] \<and> length d \<le> m"
    using assms by (auto simp: packed_def)
  ultimately show ?thesis
    unfolding packed_def
    by (intro conjI exI [of _ "gs @ [g]"] exI [of _ "[]"]) auto
qed

lemma packed_write:
  assumes "packed m (outs, buf) items" and "length buf + length bs \<le> m" and "bs \<noteq> []"
  shows "packed m (outs, buf @ bs) (items @ [bs])"
proof -
  obtain gs g where "outs = map concat gs" "buf = concat g" "concat gs @ g = items"
    using assms(1) by (auto simp: packed_def)
  then have "buf @ bs = concat (g @ [bs])" "concat gs @ (g @ [bs]) = items @ [bs]" by simp_all
  then show ?thesis
    using assms \<open>outs = map concat gs\<close> unfolding packed_def
    by (intro conjI exI [of _ gs] exI [of _ "g @ [bs]"]) auto
qed

lemma make_room_ok:
  assumes "cfg_inv kcp" and "output_cb kcp" and "packed (unat (mtu kcp)) st items" and "n \<le> unat (mtu kcp)"
  obtains outs buf where "make_room kcp (int n) st = Inr (outs, buf)"
    and "packed (unat (mtu kcp)) (outs, buf) items" and "length buf + n \<le> unat (mtu kcp)"
proof -
  obtain outs buf where st: "st = (outs, buf)" by (cases st)
  have m: "sint (mtu kcp) = int (unat (mtu kcp))" using assms(1) by (simp add: cfg_inv_def sint_small)
  show ?thesis
  proof (cases "length buf + n > unat (mtu kcp)")
    case True
    then have "buf \<noteq> []" using assms(4) by auto
    then have "packed (unat (mtu kcp)) (outs @ [buf], []) items"
      using assms(3) st by (simp add: packed_output)
    then show ?thesis
      using True assms(2,4) \<open>buf \<noteq> []\<close> m st
      by (intro that [of "outs @ [buf]" "[]"]) (simp_all add: make_room_def ikcp_output_def flip: of_nat_add)
  next
    case False
    then show ?thesis
      using assms(3) m st by (intro that [of outs buf]) (simp_all add: make_room_def flip: of_nat_add)
  qed
qed

lemma buf_write_ok:
  assumes "cfg_inv kcp" and "length buf + length bs \<le> unat (mtu kcp)"
  shows "buf_write kcp bs (outs, buf) = Inr (outs, buf @ bs)"
  using assms by (auto simp: cfg_inv_def buf_write_def)

lemma length_encode_seg [simp]: "length (ikcp_encode_seg seg) = 24"
  by (simp add: ikcp_encode_seg_def)

lemma encode_seg_nonempty [simp]: "ikcp_encode_seg seg \<noteq> []"
  by (metis length_encode_seg list.size(3) zero_neq_numeral)

text \<open>A segment on the wire: the header and the data.\<close>

definition wire_seg :: "IKCPSEG \<Rightarrow> bytes" where
  "wire_seg seg = ikcp_encode_seg seg @ seg_data seg"

lemma put_head_ok:
  assumes "cfg_inv kcp" and "output_cb kcp" and "packed (unat (mtu kcp)) st items"
  shows "\<exists>st'. put_head kcp seg st = Inr st' \<and> packed (unat (mtu kcp)) st' (items @ [ikcp_encode_seg seg])"
proof -
  obtain outs buf where r: "make_room kcp (int 24) st = Inr (outs, buf)"
    and p: "packed (unat (mtu kcp)) (outs, buf) items" and l: "length buf + 24 \<le> unat (mtu kcp)"
    using make_room_ok [OF assms, of 24] assms(1) by (auto simp: cfg_inv_def)
  have "buf_write kcp (ikcp_encode_seg seg) (outs, buf) = Inr (outs, buf @ ikcp_encode_seg seg)"
    using l by (intro buf_write_ok assms(1)) simp
  with r p l show ?thesis
    by (auto simp: put_head_def ikcp_consts intro!: packed_write)
qed

lemma put_segment_ok:
  assumes "cfg_inv kcp" and "output_cb kcp" and "packed (unat (mtu kcp)) st items"
    and "seg_wf (unat (mss kcp)) seg"
  shows "\<exists>st'. put_segment kcp seg st = Inr st' \<and> packed (unat (mtu kcp)) st' (items @ [wire_seg seg])"
proof -
  let ?n = "24 + unat (seg_len seg)"
  have n: "?n \<le> unat (mtu kcp)" and small: "?n < 2 ^ 31"
    using assms(1,4) by (auto simp: cfg_inv_def seg_wf_def)
  have "unat (IKCP_OVERHEAD + seg_len seg) = ?n"
    using small by (subst unat_add_small) (simp_all add: ikcp_consts)
  with small have need: "sint (IKCP_OVERHEAD + seg_len seg) = int ?n"
    by (subst sint_small) (simp_all only: uint_nat)
  obtain outs buf where r: "make_room kcp (int ?n) st = Inr (outs, buf)"
    and p: "packed (unat (mtu kcp)) (outs, buf) items" and l: "length buf + ?n \<le> unat (mtu kcp)"
    using make_room_ok [OF assms(1-3) n] by blast
  have w: "buf_write kcp (ikcp_encode_seg seg) (outs, buf) = Inr (outs, buf @ ikcp_encode_seg seg)"
    using l by (intro buf_write_ok assms(1)) simp
  have d: "length (seg_data seg) = unat (seg_len seg)" using assms(4) by (simp add: seg_wf_def)
  have w2: "buf_write kcp (seg_data seg) (outs, buf @ ikcp_encode_seg seg) = Inr (outs, buf @ wire_seg seg)"
    using l d by (subst buf_write_ok [OF assms(1)]) (simp_all add: wire_seg_def)
  have "packed (unat (mtu kcp)) (outs, buf @ wire_seg seg) (items @ [wire_seg seg])"
    using p l d by (intro packed_write) (simp_all add: wire_seg_def)
  moreover have "seg_data seg = []" if "\<not> 0 < seg_len seg"
    using that d by (simp add: word_less_nat_alt)
  ultimately show ?thesis
    unfolding put_segment_def need Let_def r rbind_simps w using w2 d
    by (cases "0 < seg_len seg") (auto simp: wire_seg_def)
qed


section \<open>The steps of a flush\<close>

lemma flush_acks_ok:
  assumes "cfg_inv kcp" and "output_cb kcp" and "packed (unat (mtu kcp)) st items"
    and "2 * (i + n) \<le> length (acklist kcp)"
  shows "\<exists>seg' st'. flush_acks kcp i n seg st = Inr (seg', st') \<and>
    (\<exists>sn ts. seg' = seg\<lparr>seg_sn := sn, seg_ts := ts\<rparr>) \<and>
    packed (unat (mtu kcp)) st'
      (items @ map (\<lambda>j. ikcp_encode_seg (seg\<lparr>seg_sn := acklist kcp ! (2 * j),
                                             seg_ts := acklist kcp ! (2 * j + 1)\<rparr>)) [i..<i + n])"
  using assms(3,4)
proof (induction n arbitrary: i seg st items)
  case 0
  have "seg = seg\<lparr>seg_sn := seg_sn seg, seg_ts := seg_ts seg\<rparr>" by simp
  with 0 show ?case by fastforce
next
  case (Suc n)
  let ?seg = "seg\<lparr>seg_sn := acklist kcp ! (2 * i), seg_ts := acklist kcp ! (2 * i + 1)\<rparr>"
  obtain outs buf where r: "make_room kcp (int 24) st = Inr (outs, buf)"
    and p: "packed (unat (mtu kcp)) (outs, buf) items" and l: "length buf + 24 \<le> unat (mtu kcp)"
    using make_room_ok [OF assms(1,2) Suc.prems(1), of 24] assms(1) by (auto simp: cfg_inv_def)
  have g: "ikcp_ack_get kcp i = Inr (acklist kcp ! (2 * i), acklist kcp ! (2 * i + 1))"
    using Suc.prems(2) by (simp add: ikcp_ack_get_def)
  have w: "buf_write kcp (ikcp_encode_seg ?seg) (outs, buf) = Inr (outs, buf @ ikcp_encode_seg ?seg)"
    using l by (intro buf_write_ok assms(1)) simp
  have p': "packed (unat (mtu kcp)) (outs, buf @ ikcp_encode_seg ?seg) (items @ [ikcp_encode_seg ?seg])"
    using p l by (intro packed_write) simp_all
  have step: "flush_acks kcp i (Suc n) seg st =
      flush_acks kcp (Suc i) n ?seg (outs, buf @ ikcp_encode_seg ?seg)"
    using r g w by (simp add: ikcp_consts Let_def)
  have "2 * (Suc i + n) \<le> length (acklist kcp)" using Suc.prems(2) by simp
  from Suc.IH [OF p' this, of ?seg] obtain seg' st' sn ts where
    "flush_acks kcp (Suc i) n ?seg (outs, buf @ ikcp_encode_seg ?seg) = Inr (seg', st')"
    "seg' = ?seg\<lparr>seg_sn := sn, seg_ts := ts\<rparr>"
    "packed (unat (mtu kcp)) st' ((items @ [ikcp_encode_seg ?seg]) @
       map (\<lambda>j. ikcp_encode_seg (?seg\<lparr>seg_sn := acklist kcp ! (2 * j),
                                      seg_ts := acklist kcp ! (2 * j + 1)\<rparr>)) [Suc i..<Suc i + n])"
    by blast
  moreover have "[i..<i + Suc n] = i # [Suc i..<Suc i + n]" by (simp add: upt_conv_Cons)
  ultimately show ?case unfolding step by auto
qed

text \<open>The window commands a flush sends: a probe, an answer to one, in that order.\<close>

definition wnd_items :: "IKCPCB \<Rightarrow> IKCPSEG \<Rightarrow> bytes list" where
  "wnd_items kcp seg =
     (if probe kcp AND IKCP_ASK_SEND \<noteq> 0 then [ikcp_encode_seg (seg\<lparr>seg_cmd := IKCP_CMD_WASK\<rparr>)] else []) @
     (if probe kcp AND IKCP_ASK_TELL \<noteq> 0 then [ikcp_encode_seg (seg\<lparr>seg_cmd := IKCP_CMD_WINS\<rparr>)] else [])"

lemma flush_wnd_cmds_ok:
  assumes "cfg_inv kcp" and "output_cb kcp" and "packed (unat (mtu kcp)) st items"
  shows "\<exists>st'. flush_wnd_cmds kcp seg st = Inr st' \<and>
    packed (unat (mtu kcp)) st' (items @ wnd_items kcp seg)"
proof -
  have "\<exists>st'. (if probe kcp AND IKCP_ASK_SEND \<noteq> 0
            then put_head kcp (seg\<lparr>seg_cmd := IKCP_CMD_WASK\<rparr>) st else Inr st) = Inr st' \<and>
      packed (unat (mtu kcp)) st' (items @ (if probe kcp AND IKCP_ASK_SEND \<noteq> 0
         then [ikcp_encode_seg (seg\<lparr>seg_cmd := IKCP_CMD_WASK\<rparr>)] else []))"
    using put_head_ok [OF assms] assms(3) by (cases st) simp
  then obtain st1 where 1: "(if probe kcp AND IKCP_ASK_SEND \<noteq> 0
            then put_head kcp (seg\<lparr>seg_cmd := IKCP_CMD_WASK\<rparr>) st else Inr st) = Inr st1"
    and p1: "packed (unat (mtu kcp)) st1 (items @ (if probe kcp AND IKCP_ASK_SEND \<noteq> 0
         then [ikcp_encode_seg (seg\<lparr>seg_cmd := IKCP_CMD_WASK\<rparr>)] else []))" by blast
  show ?thesis
    unfolding flush_wnd_cmds_def 1 rbind_simps wnd_items_def
    using put_head_ok [OF assms(1,2) p1] p1 by (cases st1) simp
qed

text \<open>
  The data loop as a function of each segment alone: \<open>resend\<close> is what becomes of a segment,
  and the segments with a verdict other than \<^const>\<open>Skip\<close> go out.
\<close>

definition resend :: "IKCPCB \<Rightarrow> u32 \<Rightarrow> u32 \<Rightarrow> u32 \<Rightarrow> IKCPSEG \<Rightarrow> IKCPSEG" where
  "resend kcp resent rtomin wnd seg =
     (let v = flush_verdict kcp resent seg in
      if v = Skip then seg else flush_stamp kcp wnd (flush_retime kcp rtomin v seg))"

definition due :: "IKCPCB \<Rightarrow> u32 \<Rightarrow> IKCPSEG \<Rightarrow> bool" where
  "due kcp resent seg \<longleftrightarrow> flush_verdict kcp resent seg \<noteq> Skip"

lemma resend_frame [simp]:
  "seg_sn (resend kcp resent rtomin wnd seg) = seg_sn seg"
  "seg_data (resend kcp resent rtomin wnd seg) = seg_data seg"
  "seg_len (resend kcp resent rtomin wnd seg) = seg_len seg"
  "seg_frg (resend kcp resent rtomin wnd seg) = seg_frg seg"
  "seg_conv (resend kcp resent rtomin wnd seg) = seg_conv seg"
  "seg_cmd (resend kcp resent rtomin wnd seg) = seg_cmd seg"
  by (simp_all add: resend_def Let_def flush_stamp_def flush_retime_def split: verdict.splits)

lemma seg_wf_resend [simp]: "seg_wf m (resend kcp resent rtomin wnd seg) \<longleftrightarrow> seg_wf m seg"
  by (simp add: seg_wf_def)

lemma verdict_frame [simp]:
  "flush_verdict (kcp\<lparr>xmit := a\<rparr>) = flush_verdict kcp"
  "flush_verdict (kcp\<lparr>state := b\<rparr>) = flush_verdict kcp"
  by (intro ext, simp add: flush_verdict_def)+

lemma retime_frame [simp]:
  "flush_retime (kcp\<lparr>xmit := a\<rparr>) = flush_retime kcp"
  "flush_retime (kcp\<lparr>state := b\<rparr>) = flush_retime kcp"
  "flush_stamp (kcp\<lparr>xmit := a\<rparr>) = flush_stamp kcp"
  "flush_stamp (kcp\<lparr>state := b\<rparr>) = flush_stamp kcp"
  by (intro ext, simp add: flush_retime_def flush_stamp_def split: verdict.splits)+

lemma resend_xmit_state [simp]:
  "resend (kcp\<lparr>xmit := a, state := b\<rparr>) = resend kcp"
  "due (kcp\<lparr>xmit := a, state := b\<rparr>) = due kcp"
  by (intro ext, simp add: resend_def due_def Let_def)+

lemma cfg_inv_frame [simp]:
  "cfg_inv (kcp\<lparr>xmit := a\<rparr>) \<longleftrightarrow> cfg_inv kcp"
  "cfg_inv (kcp\<lparr>state := b\<rparr>) \<longleftrightarrow> cfg_inv kcp"
  by (simp_all add: cfg_inv_def)

lemma flush_data_step:
  "flush_data resent rtomin wnd (seg # p) kcp lost change st =
    (let seg' = resend kcp resent rtomin wnd seg; v = flush_verdict kcp resent seg;
         kcp' = (if v = Timeout then kcp\<lparr>xmit := xmit kcp + 1\<rparr> else kcp);
         kcp'' = (if due kcp resent seg \<and> seg_xmit seg' \<ge> dead_link kcp then kcp'\<lparr>state := - 1\<rparr> else kcp')
     in rbind (if due kcp resent seg then put_segment kcp' seg' st else Inr st)
          (\<lambda>st. rbind (flush_data resent rtomin wnd p kcp'' (lost \<or> v = Timeout) (change \<or> v = Fast) st)
            (\<lambda>(q, r). Inr (seg' # q, r))))"
  by (cases "flush_verdict kcp resent seg")
    (simp_all add: Let_def resend_def due_def flush_stamp_def flush_retime_def)

lemma flush_data_ok:
  assumes "cfg_inv kcp" and "output_cb kcp" and "packed (unat (mtu kcp)) st items"
    and "\<forall>seg \<in> set p. seg_wf (unat (mss kcp)) seg"
  shows "\<exists>a b st'. flush_data resent rtomin wnd p kcp lost change st =
      Inr (map (resend kcp resent rtomin wnd) p, kcp\<lparr>xmit := a, state := b\<rparr>,
           lost \<or> (\<exists>seg \<in> set p. flush_verdict kcp resent seg = Timeout),
           change \<or> (\<exists>seg \<in> set p. flush_verdict kcp resent seg = Fast), st') \<and>
    packed (unat (mtu kcp)) st' (items @ map (wire_seg \<circ> resend kcp resent rtomin wnd) (filter (due kcp resent) p))"
  using assms
proof (induction p arbitrary: kcp lost change st items)
  case Nil
  then show ?case by (intro exI [of _ "xmit kcp"] exI [of _ "state kcp"] exI [of _ st]) simp
next
  case (Cons seg p)
  let ?seg = "resend kcp resent rtomin wnd seg" and ?v = "flush_verdict kcp resent seg"
  let ?k1 = "if ?v = Timeout then kcp\<lparr>xmit := xmit kcp + 1\<rparr> else kcp"
  let ?k2 = "if due kcp resent seg \<and> seg_xmit ?seg \<ge> dead_link kcp then ?k1\<lparr>state := - 1\<rparr> else ?k1"
  let ?a = "if ?v = Timeout then xmit kcp + 1 else xmit kcp" and ?b = "state kcp"
  let ?d = "if due kcp resent seg \<and> seg_xmit ?seg \<ge> dead_link kcp then - 1 else state kcp"
  have k1: "?k1 = kcp\<lparr>xmit := ?a, state := ?b\<rparr>" by simp
  have k2: "?k2 = kcp\<lparr>xmit := ?a, state := ?d\<rparr>" by simp
  have mtu: "mtu ?k1 = mtu kcp" by simp
  have "\<exists>st1. put_segment ?k1 ?seg st = Inr st1 \<and> packed (unat (mtu ?k1)) st1 (items @ [wire_seg ?seg])"
    by (rule put_segment_ok) (use Cons.prems in simp_all)
  then have "\<exists>st1. (if due kcp resent seg then put_segment ?k1 ?seg st else Inr st) = Inr st1 \<and>
      packed (unat (mtu kcp)) st1 (items @ (if due kcp resent seg then [wire_seg ?seg] else []))"
    using Cons.prems(3) unfolding mtu by (cases "due kcp resent seg") (simp_all del: split_paired_Ex)
  then obtain st1 where 1: "(if due kcp resent seg then put_segment ?k1 ?seg st else Inr st) = Inr st1"
    and p1: "packed (unat (mtu kcp)) st1 (items @ (if due kcp resent seg then [wire_seg ?seg] else []))"
    by blast
  let ?k = "kcp\<lparr>xmit := ?a, state := ?d\<rparr>"
  have same: "mtu ?k = mtu kcp" "?k\<lparr>xmit := a, state := b\<rparr> = kcp\<lparr>xmit := a, state := b\<rparr>" for a b
    by simp_all
  have "\<exists>a b st'. flush_data resent rtomin wnd p ?k (lost \<or> ?v = Timeout) (change \<or> ?v = Fast) st1 =
      Inr (map (resend ?k resent rtomin wnd) p, ?k\<lparr>xmit := a, state := b\<rparr>,
           (lost \<or> ?v = Timeout) \<or> (\<exists>seg \<in> set p. flush_verdict ?k resent seg = Timeout),
           (change \<or> ?v = Fast) \<or> (\<exists>seg \<in> set p. flush_verdict ?k resent seg = Fast), st') \<and>
    packed (unat (mtu ?k)) st' ((items @ (if due kcp resent seg then [wire_seg ?seg] else [])) @
       map (wire_seg \<circ> resend ?k resent rtomin wnd) (filter (due ?k resent) p))"
    by (rule Cons.IH) (use Cons.prems p1 in simp_all)
  then obtain a' b' st' where ih:
    "flush_data resent rtomin wnd p ?k (lost \<or> ?v = Timeout) (change \<or> ?v = Fast) st1 =
      Inr (map (resend kcp resent rtomin wnd) p, kcp\<lparr>xmit := a', state := b'\<rparr>,
           (lost \<or> ?v = Timeout) \<or> (\<exists>seg \<in> set p. flush_verdict kcp resent seg = Timeout),
           (change \<or> ?v = Fast) \<or> (\<exists>seg \<in> set p. flush_verdict kcp resent seg = Fast), st')"
    and p': "packed (unat (mtu kcp)) st' ((items @ (if due kcp resent seg then [wire_seg ?seg] else [])) @
       map (wire_seg \<circ> resend kcp resent rtomin wnd) (filter (due kcp resent) p))"
    unfolding same resend_xmit_state verdict_frame by blast
  show ?case
    unfolding flush_data_step Let_def 1 rbind_simps k2 ih prod.case
    using p' by (rule_tac exI [of _ a'], rule_tac exI [of _ b'], rule_tac exI [of _ st'],
        cases "due kcp resent seg") (simp_all add: disj_assoc comp_def)
qed

section \<open>Filling the window\<close>

definition admit :: "IKCPCB \<Rightarrow> u32 \<Rightarrow> IKCPSEG \<Rightarrow> u32 \<Rightarrow> IKCPSEG" where
  "admit kcp wnd seg sn =
     seg\<lparr>seg_conv := conv kcp, seg_cmd := IKCP_CMD_PUSH, seg_wnd := wnd,
         seg_ts := current kcp, seg_sn := sn, seg_una := rcv_nxt kcp,
         seg_resendts := current kcp, seg_rto := word_of_int (rx_rto kcp),
         seg_fastack := 0, seg_xmit := 0\<rparr>"

lemma window_open_iff:
  assumes "inflight kcp \<le> 65535" and "unat cw \<le> 65535"
  shows "itimediff (snd_nxt kcp) (snd_una kcp + cw) < 0 \<longleftrightarrow> inflight kcp < unat cw"
proof -
  have "itimediff (snd_nxt kcp) (snd_una kcp + cw) = int (inflight kcp) - int (unat cw)"
    using itimediff_window [of "snd_una kcp" "snd_nxt kcp" "snd_una kcp + cw"] assms
    by (simp add: inflight_def)
  then show ?thesis by simp
qed

lemma offset_Suc: "offset base x < 65535 \<Longrightarrow> offset base (x + 1) = offset base x + 1"
proof -
  assume "offset base x < 65535"
  then have "unat ((x - base) + 1) = unat (x - base) + 1"
    by (intro unat_Suc_small) (simp add: offset_def)
  moreover have "(x - base) + 1 = x + 1 - base" by simp
  ultimately show ?thesis by (simp add: offset_def)
qed

lemma flush_move_ok:
  assumes "inflight kcp \<le> 65535" and "unat cw \<le> 65535"
  shows "flush_move cw wnd q kcp =
    (let n = min (length q) (unat cw - inflight kcp) in
     kcp\<lparr>snd_buf := snd_buf kcp @ map (\<lambda>i. admit kcp wnd (q ! i) (snd_nxt kcp + of_nat i)) [0..<n],
         nsnd_que := nsnd_que kcp - of_nat n, nsnd_buf := nsnd_buf kcp + of_nat n,
         snd_nxt := snd_nxt kcp + of_nat n, snd_queue := drop n q\<rparr>)"
  using assms(1)
proof (induction q arbitrary: kcp)
  case (Cons seg q)
  show ?case
  proof (cases "inflight kcp < unat cw")
    case False
    then show ?thesis using window_open_iff [OF Cons.prems assms(2)] by simp
  next
    case True
    let ?k = "kcp\<lparr>snd_buf := snd_buf kcp @ [admit kcp wnd seg (snd_nxt kcp)], nsnd_que := nsnd_que kcp - 1,
                  nsnd_buf := nsnd_buf kcp + 1, snd_nxt := snd_nxt kcp + 1\<rparr>"
    define n where "n = min (length q) (unat cw - inflight ?k)"
    have "inflight ?k = inflight kcp + 1"
      using True assms(2) offset_Suc [of "snd_una kcp" "snd_nxt kcp"] by (simp add: inflight_def)
    then have n: "min (length (seg # q)) (unat cw - inflight kcp) = Suc n"
      and le: "inflight ?k \<le> 65535" using True assms(2) by (simp_all add: n_def min_def) arith
    have step: "flush_move cw wnd (seg # q) kcp = flush_move cw wnd q ?k"
      using window_open_iff [OF Cons.prems assms(2)] True by (simp add: admit_def Let_def)
    have "map (\<lambda>i. admit kcp wnd ((seg # q) ! i) (snd_nxt kcp + of_nat i)) [0..<Suc n] =
        admit kcp wnd seg (snd_nxt kcp) #
        map (\<lambda>i. admit ?k wnd (q ! i) (snd_nxt ?k + of_nat i)) [0..<n]"
      unfolding map_upt_Suc by (simp add: admit_def ac_simps del: upt_Suc)
    then show ?thesis
      unfolding step n Let_def Cons.IH [OF le] n_def [symmetric]
      by (simp add: algebra_simps del: upt_Suc)
  qed
qed simp

text \<open>
  A flush never fills the window beyond \<open>cw\<close>, and what it admits is numbered without gap.
\<close>

lemma in_window_extend:
  assumes "in_window base lim xs" and "lim + n < 2 ^ 32"
  shows "in_window base (lim + n) (xs @ map (\<lambda>i. base + of_nat lim + of_nat i) [0..<n])"
  using assms(2)
proof (induction n)
  case (Suc n)
  then have "in_window base (Suc (lim + n)) ((xs @ map (\<lambda>i. base + of_nat lim + of_nat i) [0..<n]) @
      [base + of_nat (lim + n)])"
    by (intro in_window_snoc) simp_all
  then show ?case by (simp add: add.assoc)
qed (use assms in simp)

lemma seg_admit [simp]:
  "seg_sn (admit kcp wnd seg sn) = sn" "seg_data (admit kcp wnd seg sn) = seg_data seg"
  "seg_wf m (admit kcp wnd seg sn) \<longleftrightarrow> seg_wf m seg" "pushed (conv kcp) (admit kcp wnd seg sn)"
  by (simp_all add: admit_def seg_wf_def pushed_def)

lemma oldest_append: "oldest (p @ r) nxt = oldest p (oldest r nxt)"
  by (cases p) simp_all

lemma snd_inv_admit:
  fixes wnd :: u32
  assumes inv: "snd_inv kcp" and n: "n \<le> length (snd_queue kcp)" "inflight kcp + n \<le> 65535"
  defines "kcp' \<equiv> kcp\<lparr>snd_buf := snd_buf kcp @
              map (\<lambda>i. admit kcp wnd (snd_queue kcp ! i) (snd_nxt kcp + of_nat i)) [0..<n],
         nsnd_que := nsnd_que kcp - of_nat n, nsnd_buf := nsnd_buf kcp + of_nat n,
         snd_nxt := snd_nxt kcp + of_nat n, snd_queue := drop n (snd_queue kcp)\<rparr>"
  shows "snd_inv kcp'" and "inflight kcp' = inflight kcp + n"
proof -
  let ?una = "snd_una kcp"
  have nxt: "snd_nxt kcp = ?una + of_nat (inflight kcp)"
    by (simp add: inflight_def offset_def)
  have lim: "in_window ?una (inflight kcp) (map seg_sn (snd_buf kcp))"
    using snd_inv_core [OF inv] by (simp add: snd_core_def)
  have w: "in_window ?una (inflight kcp + n) (map seg_sn (snd_buf kcp'))"
    using in_window_extend [OF lim, of n] n(2)
    by (simp add: kcp'_def comp_def nxt)
  show infl: "inflight kcp' = inflight kcp + n"
  proof -
    have "snd_nxt kcp' - ?una = of_nat (inflight kcp + n)" by (simp add: kcp'_def nxt)
    moreover have "inflight kcp' = unat (snd_nxt kcp' - ?una)"
      by (simp add: inflight_def offset_def kcp'_def)
    ultimately show ?thesis using n(2) by (simp only: unat_of_nat) simp
  qed
  have "?una = oldest (snd_buf kcp') (snd_nxt kcp')"
    using inv by (cases n) (simp_all add: kcp'_def snd_inv_def oldest_append upt_conv_Cons del: upt_Suc)
  moreover have "\<forall>seg \<in> set (snd_queue kcp') \<union> set (snd_buf kcp'). seg_wf (unat (mss kcp)) seg"
    using inv n(1) by (auto simp: kcp'_def snd_inv_def snd_core_def dest: in_set_dropD)
  moreover have "\<forall>seg \<in> set (snd_buf kcp'). pushed (conv kcp) seg"
    using snd_inv_core [OF inv] by (auto simp: kcp'_def snd_core_def)
  ultimately show "snd_inv kcp'"
    using snd_inv_core [OF inv] w infl n unfolding snd_inv_def snd_core_def
    by (simp add: kcp'_def of_nat_diff)
qed

lemma flush_move_inv:
  assumes "snd_inv kcp" and "unat cw \<le> 65535"
  shows "snd_inv (flush_move cw wnd (snd_queue kcp) kcp)"
    and "inflight (flush_move cw wnd (snd_queue kcp) kcp) =
      inflight kcp + min (length (snd_queue kcp)) (unat cw - inflight kcp)"
proof -
  have i: "inflight kcp \<le> 65535" using assms(1) by (simp add: snd_inv_def snd_core_def)
  define n where "n = min (length (snd_queue kcp)) (unat cw - inflight kcp)"
  have "n \<le> length (snd_queue kcp)" "inflight kcp + n \<le> 65535"
    using i assms(2) by (simp_all add: n_def min_def) arith
  note adm = snd_inv_admit [OF assms(1) this]
  show "snd_inv (flush_move cw wnd (snd_queue kcp) kcp)"
    unfolding flush_move_ok [OF i assms(2)] Let_def n_def [symmetric] by (rule adm(1))
  show "inflight (flush_move cw wnd (snd_queue kcp) kcp) =
      inflight kcp + min (length (snd_queue kcp)) (unat cw - inflight kcp)"
    unfolding flush_move_ok [OF i assms(2)] Let_def n_def [symmetric] by (rule adm(2))
qed

lemma flush_cwnd_le: "unat (flush_cwnd kcp) \<le> unat (rmt_wnd kcp)" "unat (flush_cwnd kcp) \<le> unat (snd_wnd kcp)"
  by (auto simp: flush_cwnd_def imin_def Let_def word_le_nat_alt)

section \<open>A whole flush\<close>

text \<open>The invariant of a control block.\<close>

definition kcp_inv :: "IKCPCB \<Rightarrow> bool" where
  "kcp_inv kcp \<longleftrightarrow> snd_inv kcp \<and> rcv_inv kcp \<and> ack_inv kcp \<and> cfg_inv kcp"

lemma snd_inv_frame:
  assumes "snd_una k = snd_una kcp" "snd_nxt k = snd_nxt kcp" "snd_buf k = snd_buf kcp"
    "snd_queue k = snd_queue kcp" "rmt_wnd k = rmt_wnd kcp" "nsnd_buf k = nsnd_buf kcp"
    "nsnd_que k = nsnd_que kcp" "mss k = mss kcp" "conv k = conv kcp"
  shows "snd_inv k \<longleftrightarrow> snd_inv kcp"
  by (simp add: snd_inv_def snd_core_def inflight_def assms)

lemma rcv_inv_frame:
  assumes "rcv_nxt k = rcv_nxt kcp" "rcv_buf k = rcv_buf kcp" "rcv_queue k = rcv_queue kcp"
    "rcv_wnd k = rcv_wnd kcp" "nrcv_buf k = nrcv_buf kcp" "nrcv_que k = nrcv_que kcp"
  shows "rcv_inv k \<longleftrightarrow> rcv_inv kcp"
  by (simp add: rcv_inv_def assms)

lemma ack_inv_frame:
  assumes "acklist k = acklist kcp" "ackcount k = ackcount kcp" "ackblock k = ackblock kcp"
  shows "ack_inv k \<longleftrightarrow> ack_inv kcp"
  by (simp add: ack_inv_def assms)

lemma cfg_inv_same:
  assumes "mtu k = mtu kcp" "mss k = mss kcp" "buffer k = buffer kcp"
  shows "cfg_inv k \<longleftrightarrow> cfg_inv kcp"
  by (simp add: cfg_inv_def assms)

lemma flush_probe_frame:
  obtains a b c where "flush_probe kcp = kcp\<lparr>probe := a, ts_probe := b, probe_wait := c\<rparr>"
proof -
  have "flush_probe kcp = kcp\<lparr>probe := probe (flush_probe kcp), ts_probe := ts_probe (flush_probe kcp),
      probe_wait := probe_wait (flush_probe kcp)\<rparr>"
    by (simp add: flush_probe_def Let_def)
  then show ?thesis by (rule that)
qed

lemma flush_congestion_frame:
  obtains a b c where "flush_congestion resent cw lost change kcp = kcp\<lparr>ssthresh := a, cwnd := b, incr := c\<rparr>"
proof -
  have "flush_congestion resent cw lost change kcp = kcp\<lparr>
      ssthresh := ssthresh (flush_congestion resent cw lost change kcp),
      cwnd := cwnd (flush_congestion resent cw lost change kcp),
      incr := incr (flush_congestion resent cw lost change kcp)\<rparr>"
    by (simp add: flush_congestion_def Let_def)
  then show ?thesis by (rule that)
qed

text \<open>The control block after the window was filled, and what the flush puts on the wire.\<close>

definition flush_wnd :: "IKCPCB \<Rightarrow> u32" where
  "flush_wnd kcp = word_of_int (ikcp_wnd_unused kcp)"

definition admitted :: "IKCPCB \<Rightarrow> IKCPCB" where
  "admitted kcp =
     flush_move (flush_cwnd kcp) (flush_wnd kcp) (snd_queue kcp)
       ((flush_probe (kcp\<lparr>ackcount := 0\<rparr>))\<lparr>probe := 0\<rparr>)"

definition ack_items :: "IKCPCB \<Rightarrow> bytes list" where
  "ack_items kcp = map (\<lambda>(sn, ts). ikcp_encode_seg ((reply_seg kcp)\<lparr>seg_sn := sn, seg_ts := ts\<rparr>)) (pending_acks kcp)"

definition data_items :: "IKCPCB \<Rightarrow> bytes list" where
  "data_items kcp = (let k = admitted kcp; resent = flush_resent k in
     map (wire_seg \<circ> resend k resent (flush_rtomin k) (flush_wnd kcp)) (filter (due k resent) (snd_buf k)))"

definition ctl_items :: "IKCPCB \<Rightarrow> u32 \<Rightarrow> u32 \<Rightarrow> bytes list" where
  "ctl_items kcp sn ts = wnd_items (flush_probe (kcp\<lparr>ackcount := 0\<rparr>)) ((reply_seg kcp)\<lparr>seg_sn := sn, seg_ts := ts\<rparr>)"

lemma admitted_inv:
  assumes "kcp_inv kcp"
  shows "kcp_inv (admitted kcp)" and "output_cb (admitted kcp) = output_cb kcp"
    and "mtu (admitted kcp) = mtu kcp" and "mss (admitted kcp) = mss kcp"
    and "ackcount (admitted kcp) = 0"
proof -
  obtain a b c where pr: "flush_probe (kcp\<lparr>ackcount := 0\<rparr>) = kcp\<lparr>ackcount := 0, probe := a, ts_probe := b, probe_wait := c\<rparr>"
    by (rule flush_probe_frame)
  let ?k = "kcp\<lparr>ackcount := 0, ts_probe := b, probe_wait := c, probe := 0\<rparr>"
  have k: "admitted kcp = flush_move (flush_cwnd kcp) (flush_wnd kcp) (snd_queue ?k) ?k"
    unfolding admitted_def pr by simp
  have s: "snd_inv ?k" using assms snd_inv_frame [of ?k kcp] by (simp add: kcp_inv_def)
  have c: "unat (flush_cwnd kcp) \<le> 65535"
    using assms flush_cwnd_le(1) [of kcp] by (simp add: kcp_inv_def snd_inv_def snd_core_def)
  have i: "inflight ?k \<le> 65535" using snd_inv_core [OF s] by (simp add: snd_core_def)
  note mv = flush_move_ok [OF i c, of "flush_wnd kcp" "snd_queue ?k", unfolded Let_def]
  show "output_cb (admitted kcp) = output_cb kcp" "mtu (admitted kcp) = mtu kcp"
    "mss (admitted kcp) = mss kcp" "ackcount (admitted kcp) = 0"
    unfolding k mv by simp_all
  have "rcv_inv (admitted kcp)" "ack_inv (admitted kcp)" "cfg_inv (admitted kcp)"
    unfolding k mv using assms by (simp_all add: kcp_inv_def rcv_inv_def ack_inv_def cfg_inv_def)
  moreover have "snd_inv (admitted kcp)" unfolding k by (rule flush_move_inv(1) [OF s c])
  ultimately show "kcp_inv (admitted kcp)" by (simp add: kcp_inv_def)
qed


lemma flush_acks_pending:
  assumes "cfg_inv kcp" and "ack_inv kcp" and "output_cb kcp" and "unat (ackcount kcp) < 2 ^ 31"
  shows "\<exists>sn ts st. flush_acks kcp 0 (nat (sint (ackcount kcp))) (reply_seg kcp) ([], []) =
      Inr ((reply_seg kcp)\<lparr>seg_sn := sn, seg_ts := ts\<rparr>, st) \<and> packed (unat (mtu kcp)) st (ack_items kcp)"
proof -
  have n: "nat (sint (ackcount kcp)) = unat (ackcount kcp)"
    using assms(4) by (simp add: sint_small)
  have "2 * (0 + unat (ackcount kcp)) \<le> length (acklist kcp)"
    using assms(2) by (simp add: ack_inv_def word_le_nat_alt)
  from flush_acks_ok [OF assms(1,3) packed_start this, of "reply_seg kcp"]
  show ?thesis unfolding n ack_items_def pending_acks_def by (auto simp: comp_def)
qed

lemma snd_inv_resend:
  "snd_inv (kcp\<lparr>snd_buf := map (resend k resent rtomin wnd) (snd_buf kcp)\<rparr>) \<longleftrightarrow> snd_inv kcp"
  by (rule snd_inv_reseg) (simp_all add: comp_def pushed_def)

text \<open>
  The control block after a flush: the window was filled and the due segments restamped;
  the retransmission count, the link state and the congestion window may have changed.
\<close>

definition flush_result :: "IKCPCB \<Rightarrow> IKCPCB \<Rightarrow> bool" where
  "flush_result kcp kcp' \<longleftrightarrow>
     (let k = admitted kcp in
      \<exists>a b c d e. kcp' = k\<lparr>xmit := a, state := b,
        snd_buf := map (resend k (flush_resent k) (flush_rtomin k) (flush_wnd kcp)) (snd_buf k),
        ssthresh := c, cwnd := d, incr := e\<rparr>)"

text \<open>
  A flush of a well-formed control block never faults: no assertion fails and nothing is
  read or written outside an object. It sends the pending acknowledgements, then the window
  commands, then the segments that are due, whole and in this order, in datagrams of at
  most one MTU; it keeps the invariant.
\<close>

lemma flush_ok:
  assumes inv: "kcp_inv kcp" and cb: "output_cb kcp" and "unat (ackcount kcp) < 2 ^ 31"
    and upd: "updated kcp \<noteq> 0"
  shows "\<exists>kcp' outs gs sn ts. ikcp_flush kcp = Inr (kcp', outs) \<and> outs = map concat gs \<and>
    concat gs = ack_items kcp @ ctl_items kcp sn ts @ data_items kcp \<and>
    (\<forall>d \<in> set outs. d \<noteq> [] \<and> length d \<le> unat (mtu kcp)) \<and>
    flush_result kcp kcp'"
proof -
  have cfg: "cfg_inv kcp" and ack: "ack_inv kcp" using inv by (simp_all add: kcp_inv_def)
  let ?m = "unat (mtu kcp)" and ?k1 = "flush_probe (kcp\<lparr>ackcount := 0\<rparr>)" and ?k = "admitted kcp"
  let ?resent = "flush_resent ?k" and ?rtomin = "flush_rtomin ?k" and ?wnd = "flush_wnd kcp"
  obtain sn ts st1 where 1: "flush_acks kcp 0 (nat (sint (ackcount kcp))) (reply_seg kcp) ([], []) =
      Inr ((reply_seg kcp)\<lparr>seg_sn := sn, seg_ts := ts\<rparr>, st1)" and p1: "packed ?m st1 (ack_items kcp)"
    using flush_acks_pending [OF cfg ack cb assms(3)] by blast
  let ?seg = "(reply_seg kcp)\<lparr>seg_sn := sn, seg_ts := ts\<rparr>"
  obtain a b c where pr: "?k1 = kcp\<lparr>ackcount := 0, probe := a, ts_probe := b, probe_wait := c\<rparr>"
    by (rule flush_probe_frame)
  have k1: "cfg_inv ?k1" "output_cb ?k1" "mtu ?k1 = mtu kcp"
    using cfg cb unfolding pr by (simp_all add: cfg_inv_def)
  obtain st2 where 2: "flush_wnd_cmds ?k1 ?seg st1 = Inr st2"
    and p2: "packed ?m st2 (ack_items kcp @ ctl_items kcp sn ts)"
    using flush_wnd_cmds_ok [of ?k1 st1 "ack_items kcp" ?seg] k1 p1 unfolding ctl_items_def by auto
  have wnd: "seg_wnd ?seg = ?wnd" by (simp add: reply_seg_def flush_wnd_def)
  have adm: "flush_move (flush_cwnd (?k1\<lparr>probe := 0\<rparr>)) ?wnd (snd_queue (?k1\<lparr>probe := 0\<rparr>)) (?k1\<lparr>probe := 0\<rparr>) = ?k"
    unfolding admitted_def by (simp add: pr flush_cwnd_def Let_def)
  note ai = admitted_inv [OF inv]
  have wf: "\<forall>seg \<in> set (snd_buf ?k). seg_wf (unat (mss ?k)) seg"
    using ai(1) by (simp add: kcp_inv_def snd_inv_def snd_core_def)
  have k: "cfg_inv ?k" "output_cb ?k" "packed (unat (mtu ?k)) st2 (ack_items kcp @ ctl_items kcp sn ts)"
    using ai cb p2 by (simp_all add: kcp_inv_def)
  let ?lost = "False \<or> (\<exists>seg \<in> set (snd_buf ?k). flush_verdict ?k ?resent seg = Timeout)"
  let ?change = "False \<or> (\<exists>seg \<in> set (snd_buf ?k). flush_verdict ?k ?resent seg = Fast)"
  obtain x y outs buf where 3:
    "flush_data ?resent ?rtomin ?wnd (snd_buf ?k) ?k False False st2 =
      Inr (map (resend ?k ?resent ?rtomin ?wnd) (snd_buf ?k), ?k\<lparr>xmit := x, state := y\<rparr>,
           ?lost, ?change, outs, buf)"
    and p3: "packed ?m (outs, buf) ((ack_items kcp @ ctl_items kcp sn ts) @ data_items kcp)"
    using flush_data_ok [OF k wf, of ?resent ?rtomin ?wnd False False]
    unfolding data_items_def Let_def ai(3) split_paired_Ex by blast
  let ?outs = "if buf \<noteq> [] then outs @ [buf] else outs"
  let ?k4 = "?k\<lparr>xmit := x, state := y, snd_buf := map (resend ?k ?resent ?rtomin ?wnd) (snd_buf ?k)\<rparr>"
  have 4: "(if buf \<noteq> [] then ikcp_output ?k4 outs buf else Inr outs) = Inr ?outs"
    using ai(2) cb by (simp add: ikcp_output_def)
  have p4: "packed ?m (?outs, []) (ack_items kcp @ ctl_items kcp sn ts @ data_items kcp)"
    using packed_output [OF p3] p3 by (cases buf) simp_all
  obtain f g h where cg: "flush_congestion ?resent (flush_cwnd (?k1\<lparr>probe := 0\<rparr>)) ?lost ?change ?k4 =
      ?k4\<lparr>ssthresh := f, cwnd := g, incr := h\<rparr>"
    by (rule flush_congestion_frame)
  have fl: "ikcp_flush kcp = Inr (?k4\<lparr>ssthresh := f, cwnd := g, incr := h\<rparr>, ?outs)"
    unfolding ikcp_flush_def if_not_P [OF upd] Let_def 1 rbind_simps prod.case 2 wnd adm 3 4 cg
    by (rule refl)
  obtain gs where gs: "?outs = map concat gs"
    "concat gs = ack_items kcp @ ctl_items kcp sn ts @ data_items kcp"
    using packed_done [OF p4] by blast
  have dg: "\<forall>d \<in> set ?outs. d \<noteq> [] \<and> length d \<le> ?m" using p4 unfolding packed_def fst_conv by (elim conjE)
  have res: "flush_result kcp (?k4\<lparr>ssthresh := f, cwnd := g, incr := h\<rparr>)"
    unfolding flush_result_def Let_def by (intro exI, rule refl)
  show ?thesis by (intro exI conjI, rule fl, rule gs(1), rule gs(2), rule dg, rule res)
qed


lemma flush_result_inv:
  assumes "kcp_inv kcp" and "flush_result kcp kcp'"
  shows "kcp_inv kcp'" and "output_cb kcp' = output_cb kcp" and "ackcount kcp' = 0"
    and "mtu kcp' = mtu kcp"
proof -
  let ?k = "admitted kcp"
  let ?q = "map (resend ?k (flush_resent ?k) (flush_rtomin ?k) (flush_wnd kcp)) (snd_buf ?k)"
  obtain a b c d e where k: "kcp' = ?k\<lparr>xmit := a, state := b, snd_buf := ?q,
        ssthresh := c, cwnd := d, incr := e\<rparr>"
    using assms(2) unfolding flush_result_def Let_def by (elim exE)
  note ai = admitted_inv [OF assms(1)]
  have "snd_inv (?k\<lparr>snd_buf := ?q\<rparr>)"
    using ai(1) unfolding snd_inv_resend kcp_inv_def by (elim conjE)
  moreover have "snd_inv kcp' \<longleftrightarrow> snd_inv (?k\<lparr>snd_buf := ?q\<rparr>)"
    unfolding k by (rule snd_inv_frame) simp_all
  moreover have "rcv_inv kcp' \<longleftrightarrow> rcv_inv ?k" unfolding k by (rule rcv_inv_frame) simp_all
  moreover have "ack_inv kcp' \<longleftrightarrow> ack_inv ?k" unfolding k by (rule ack_inv_frame) simp_all
  moreover have "cfg_inv kcp' \<longleftrightarrow> cfg_inv ?k" unfolding k by (rule cfg_inv_same) simp_all
  ultimately show "kcp_inv kcp'" using ai(1) unfolding kcp_inv_def by blast
  show "output_cb kcp' = output_cb kcp" "ackcount kcp' = 0" "mtu kcp' = mtu kcp"
    unfolding k using ai(2,3,5) by simp_all
qed

lemma flush_safe:
  assumes "kcp_inv kcp" and "output_cb kcp" and "unat (ackcount kcp) < 2 ^ 31"
  shows "\<exists>kcp' outs. ikcp_flush kcp = Inr (kcp', outs) \<and> kcp_inv kcp' \<and> output_cb kcp' \<and>
    unat (ackcount kcp') \<le> unat (ackcount kcp) \<and>
    (\<forall>d \<in> set outs. d \<noteq> [] \<and> length d \<le> unat (mtu kcp))"
proof (cases "updated kcp = 0")
  case True
  then show ?thesis using assms by (simp add: ikcp_flush_def)
next
  case False
  obtain kcp' outs where f: "ikcp_flush kcp = Inr (kcp', outs)"
    and dg: "\<forall>d \<in> set outs. d \<noteq> [] \<and> length d \<le> unat (mtu kcp)" and r: "flush_result kcp kcp'"
    using flush_ok [OF assms False] by blast
  with flush_result_inv [OF assms(1) r] assms(2) show ?thesis by simp
qed

section \<open>The clock\<close>

lemma kcp_inv_clock [simp]:
  "kcp_inv (kcp\<lparr>current := a\<rparr>) \<longleftrightarrow> kcp_inv kcp"
  "kcp_inv (kcp\<lparr>updated := b\<rparr>) \<longleftrightarrow> kcp_inv kcp"
  "kcp_inv (kcp\<lparr>ts_flush := c\<rparr>) \<longleftrightarrow> kcp_inv kcp"
  "kcp_inv (kcp\<lparr>probe := d\<rparr>) \<longleftrightarrow> kcp_inv kcp"
  "kcp_inv (kcp\<lparr>cwnd := e\<rparr>) \<longleftrightarrow> kcp_inv kcp"
  "kcp_inv (kcp\<lparr>incr := f\<rparr>) \<longleftrightarrow> kcp_inv kcp"
  "kcp_inv (kcp\<lparr>stream := g\<rparr>) \<longleftrightarrow> kcp_inv kcp"
  unfolding kcp_inv_def
  by (simp_all add: snd_inv_def snd_core_def inflight_def rcv_inv_def ack_inv_def cfg_inv_def)

text \<open>An update either only reads the clock, or flushes a control block with a new schedule.\<close>

lemma update_cases:
  obtains (wait) u t where "ikcp_update kcp cur = Inr (kcp\<lparr>current := cur, updated := u, ts_flush := t\<rparr>, [])"
  | (flush) u t where "ikcp_update kcp cur = ikcp_flush (kcp\<lparr>current := cur, updated := u, ts_flush := t\<rparr>)"
    and "u \<noteq> 0"
proof -
  let ?u = "if updated kcp = 0 then 1 else updated kcp"
  let ?t0 = "if updated kcp = 0 then cur else ts_flush kcp"
  let ?far = "itimediff cur ?t0 \<ge> 10000 \<or> itimediff cur ?t0 < -10000"
  let ?t1 = "if ?far then cur else ?t0"
  let ?t2 = "if itimediff cur (?t1 + interval kcp) \<ge> 0 then cur + interval kcp else ?t1 + interval kcp"
  have eq: "ikcp_update kcp cur =
      (if ?far \<or> itimediff cur ?t0 \<ge> 0
       then ikcp_flush (kcp\<lparr>current := cur, updated := ?u, ts_flush := ?t2\<rparr>)
       else Inr (kcp\<lparr>current := cur, updated := ?u, ts_flush := ?t1\<rparr>, []))"
    unfolding ikcp_update_def Let_def by (simp split del: if_split) (simp split: if_split)
  show thesis
  proof (cases "?far \<or> itimediff cur ?t0 \<ge> 0")
    case True
    show thesis using eq unfolding if_P [OF True] by (rule flush) simp
  next
    case False
    show thesis using eq unfolding if_not_P [OF False] by (rule wait)
  qed
qed

lemma update_safe:
  assumes "kcp_inv kcp" and "output_cb kcp" and "unat (ackcount kcp) < 2 ^ 31"
  shows "\<exists>kcp' outs. ikcp_update kcp cur = Inr (kcp', outs) \<and> kcp_inv kcp' \<and> output_cb kcp' \<and>
    unat (ackcount kcp') \<le> unat (ackcount kcp) \<and>
    (\<forall>d \<in> set outs. d \<noteq> [] \<and> length d \<le> unat (mtu kcp))"
proof (cases rule: update_cases [of kcp cur])
  case (wait u t)
  then show ?thesis using assms by simp
next
  case (flush u t)
  then show ?thesis
    using flush_safe [of "kcp\<lparr>current := cur, updated := u, ts_flush := t\<rparr>"] assms by simp
qed

lemma check_loop_pos: "check_loop cur tm p = Some d \<Longrightarrow> 0 < tm \<Longrightarrow> 0 < d \<and> d \<le> tm"
  by (induction cur tm p rule: check_loop.induct) (fastforce simp: Let_def split: if_splits)+

lemma check_wait:
  assumes "ikcp_check kcp cur = cur + d" and "d \<noteq> 0"
  shows "d \<le> interval kcp" and "unat d \<le> offset cur (ts_flush kcp)"
    and "offset cur (ts_flush kcp) \<le> 10000" and "updated kcp \<noteq> 0"
proof -
  let ?tf = "ts_flush kcp" and ?far = "itimediff cur (ts_flush kcp) \<ge> 10000 \<or> itimediff cur (ts_flush kcp) < -10000"
  have ne: "ikcp_check kcp cur \<noteq> cur" using assms by simp
  show "updated kcp \<noteq> 0" using ne by (auto simp: ikcp_check_def)
  have self: "itimediff cur cur = 0" by (simp add: itimediff_def)
  have near: "\<not> ?far" "itimediff cur ?tf < 0"
    using ne self by (auto simp: ikcp_check_def Let_def split: if_splits)
  have off: "offset cur ?tf < 2 ^ 31"
  proof -
    have "?tf - cur = word_of_int (- itimediff cur ?tf)" by (simp add: itimediff_def)
    then have "unat (?tf - cur) = nat (- itimediff cur ?tf)"
      using near by (simp only:) (rule unat_word_of_int; simp)
    then show ?thesis using near by (simp add: offset_def)
  qed
  have diff: "itimediff ?tf cur = int (offset cur ?tf)" "itimediff cur ?tf = - int (offset cur ?tf)"
    using itimediff_window [of cur ?tf cur] itimediff_window [of cur cur ?tf] off by simp_all
  show le: "offset cur ?tf \<le> 10000" using near diff by simp
  obtain tm where tm: "check_loop cur 0x7fffffff (snd_buf kcp) = Some tm"
    using ne near by (auto simp: ikcp_check_def Let_def split: option.splits if_splits)
  let ?min = "min tm (int (offset cur ?tf))"
  let ?w = "word_of_int ?min :: u32"
  have d: "d = (if ?w \<ge> interval kcp then interval kcp else ?w)"
    using assms(1) ne near tm diff by (auto simp: ikcp_check_def Let_def min_def split: if_splits)
  then show "d \<le> interval kcp" by auto
  have "0 \<le> ?min" using check_loop_pos [OF tm] by simp
  moreover have "?min \<le> 10000" using le by simp
  ultimately have "unat ?w = nat ?min" by (intro unat_word_of_int) simp_all
  then have "unat ?w \<le> offset cur ?tf" by simp
  moreover have "d \<le> ?w" using d by auto
  ultimately show "unat d \<le> offset cur ?tf" by (simp add: word_le_nat_alt)
qed

text \<open>
  Until the time \<^verbatim>\<open>ikcp_check\<close> names, \<^verbatim>\<open>ikcp_update\<close> would do nothing but read the clock.
\<close>

lemma check_no_update:
  assumes "ikcp_check kcp cur = cur + d" and "offset cur t < unat d"
  shows "ikcp_update kcp t = Inr (kcp\<lparr>current := t\<rparr>, [])"
proof -
  have "d \<noteq> 0" using assms(2) by auto
  note w = check_wait [OF assms(1) this]
  have "itimediff t (ts_flush kcp) = int (offset cur t) - int (offset cur (ts_flush kcp))"
    using w(2,3) assms(2) by (intro itimediff_window) simp_all
  then have "itimediff t (ts_flush kcp) < 0" "itimediff t (ts_flush kcp) \<ge> -10000"
    using w(2,3) assms(2) by simp_all
  then show ?thesis using w(4) by (simp add: ikcp_update_def Let_def)
qed

lemma check_interval: "ikcp_check kcp cur = cur + (ikcp_check kcp cur - cur) \<and> ikcp_check kcp cur - cur \<le> interval kcp"
proof (cases "ikcp_check kcp cur - cur = 0")
  case False
  then show ?thesis using check_wait(1) [of kcp cur "ikcp_check kcp cur - cur"] by simp
qed simp

lemma admitted_inflight:
  assumes "kcp_inv kcp"
  shows "inflight (admitted kcp) =
    inflight kcp + min (length (snd_queue kcp)) (unat (flush_cwnd kcp) - inflight kcp)"
proof -
  let ?k = "(flush_probe (kcp\<lparr>ackcount := 0\<rparr>))\<lparr>probe := 0\<rparr>"
  have f: "snd_una ?k = snd_una kcp" "snd_nxt ?k = snd_nxt kcp" "snd_buf ?k = snd_buf kcp"
    "snd_queue ?k = snd_queue kcp" "rmt_wnd ?k = rmt_wnd kcp" "nsnd_buf ?k = nsnd_buf kcp"
    "nsnd_que ?k = nsnd_que kcp" "mss ?k = mss kcp" "conv ?k = conv kcp"
    by (simp_all add: flush_probe_def Let_def)
  have s: "snd_inv ?k" using assms snd_inv_frame [OF f] by (simp add: kcp_inv_def)
  have c: "unat (flush_cwnd kcp) \<le> 65535"
    using assms flush_cwnd_le(1) [of kcp] by (simp add: kcp_inv_def snd_inv_def snd_core_def)
  show ?thesis
    using flush_move_inv(2) [OF s c, of "flush_wnd kcp"] unfolding admitted_def f(4)
    by (simp add: inflight_def f)
qed

end
