(* ===== verification/Kcp_Input.thy ===== *)
theory Kcp_Input
  imports Kcp_Send Kcp_Flush
begin

unbundle bit_operations_syntax

text \<open>
  \<^verbatim>\<open>ikcp_input\<close>: the parser of incoming datagrams. The datagram is the list of its bytes
  with the size the caller claims; a read past the bytes is a fault. One iteration of the
  loop decodes a header (\<open>input_head\<close>), runs the command (\<open>input_cmd\<close>) and skips the data.
\<close>

text \<open>The scan state of one call: \<^verbatim>\<open>flag\<close>, \<^verbatim>\<open>maxack\<close> and \<^verbatim>\<open>latest_ts\<close>.\<close>

type_synonym ack_scan = "bool \<times> u32 \<times> u32"

record seg_head =
  h_conv :: u32
  h_cmd :: byte
  h_frg :: byte
  h_wnd :: u16
  h_ts :: u32
  h_sn :: u32
  h_una :: u32
  h_len :: u32

definition odecode :: "('a \<times> bytes) option \<Rightarrow> ('a \<times> bytes) res" where
  "odecode r = (case r of None \<Rightarrow> Inl Out_of_bounds | Some x \<Rightarrow> Inr x)"

definition input_head :: "u32 \<Rightarrow> bytes \<Rightarrow> (seg_head \<times> bytes) res" where
  "input_head cv data =
     rbind (odecode (ikcp_decode8u data)) (\<lambda>(cmd, data).
     rbind (odecode (ikcp_decode8u data)) (\<lambda>(frg, data).
     rbind (odecode (ikcp_decode16u data)) (\<lambda>(wnd, data).
     rbind (odecode (ikcp_decode32u data)) (\<lambda>(ts, data).
     rbind (odecode (ikcp_decode32u data)) (\<lambda>(sn, data).
     rbind (odecode (ikcp_decode32u data)) (\<lambda>(una, data).
     rbind (odecode (ikcp_decode32u data)) (\<lambda>(len, data).
       Inr (\<lparr>h_conv = cv, h_cmd = cmd, h_frg = frg, h_wnd = wnd, h_ts = ts, h_sn = sn,
             h_una = una, h_len = len\<rparr>, data))))))))"

definition input_ack :: "IKCPCB \<Rightarrow> seg_head \<Rightarrow> ack_scan \<Rightarrow> IKCPCB \<times> ack_scan" where
  "input_ack kcp h scan =
     (let rtt = itimediff (current kcp) (h_ts h);
          kcp = (if rtt \<ge> 0 then ikcp_update_ack kcp rtt else kcp);
          kcp = ikcp_shrink_buf (ikcp_parse_ack kcp (h_sn h));
          (flag, maxack, latest_ts) = scan
      in (kcp,
          if \<not> flag then (True, h_sn h, h_ts h)
          else if itimediff (h_sn h) maxack > 0 \<and> itimediff (h_ts h) latest_ts > 0
          then (True, h_sn h, h_ts h)
          else scan))"

definition input_push :: "allocator \<Rightarrow> IKCPCB \<Rightarrow> seg_head \<Rightarrow> bytes \<Rightarrow> IKCPCB res" where
  "input_push al kcp h data =
     (if itimediff (h_sn h) (rcv_nxt kcp + rcv_wnd kcp) < 0 then
        rbind (ikcp_ack_push al kcp (h_sn h) (h_ts h)) (\<lambda>kcp.
          if itimediff (h_sn h) (rcv_nxt kcp) \<ge> 0 then
            (case new_seg al (unat (h_len h)) of
               None \<Rightarrow> Inl Out_of_bounds
             | Some seg \<Rightarrow>
                 if length data < unat (h_len h) then Inl Out_of_bounds
                 else let seg = seg\<lparr>seg_conv := h_conv h, seg_cmd := ucast (h_cmd h),
                        seg_frg := ucast (h_frg h), seg_wnd := ucast (h_wnd h),
                        seg_ts := h_ts h, seg_sn := h_sn h, seg_una := h_una h,
                        seg_len := h_len h, seg_data := take (unat (h_len h)) data\<rparr>
                      in Inr (ikcp_parse_data kcp seg))
          else Inr kcp)
      else Inr kcp)"

definition input_cmd ::
  "allocator \<Rightarrow> IKCPCB \<Rightarrow> seg_head \<Rightarrow> bytes \<Rightarrow> ack_scan \<Rightarrow> (IKCPCB \<times> ack_scan) res" where
  "input_cmd al kcp h data scan =
     (let kcp = kcp\<lparr>rmt_wnd := ucast (h_wnd h)\<rparr>;
          kcp = ikcp_shrink_buf (ikcp_parse_una kcp (h_una h));
          cmd = ucast (h_cmd h) :: u32
      in if cmd = IKCP_CMD_ACK then Inr (input_ack kcp h scan)
         else if cmd = IKCP_CMD_PUSH then rbind (input_push al kcp h data) (\<lambda>kcp. Inr (kcp, scan))
         else if cmd = IKCP_CMD_WASK then Inr (kcp\<lparr>probe := probe kcp OR IKCP_ASK_TELL\<rparr>, scan)
         else Inr (kcp, scan))"

definition known_cmd :: "byte \<Rightarrow> bool" where
  "known_cmd c \<longleftrightarrow> (let cmd = ucast c :: u32 in
     cmd = IKCP_CMD_PUSH \<or> cmd = IKCP_CMD_ACK \<or> cmd = IKCP_CMD_WASK \<or> cmd = IKCP_CMD_WINS)"

text \<open>
  The loop. The first component of the result is the early return value, or \<open>0\<close> when the
  loop ends because less than a header is left.
\<close>

function input_loop ::
  "allocator \<Rightarrow> IKCPCB \<Rightarrow> bytes \<Rightarrow> int \<Rightarrow> ack_scan \<Rightarrow> (int \<times> IKCPCB \<times> ack_scan) res" where
  "input_loop al kcp data sz scan =
     (if sz < sint IKCP_OVERHEAD then Inr (0, kcp, scan)
      else
        (case odecode (ikcp_decode32u data) of
           Inl e \<Rightarrow> Inl e
         | Inr (cv, data) \<Rightarrow>
             if cv \<noteq> conv kcp then Inr (-1, kcp, scan)
             else
               (case input_head cv data of
                  Inl e \<Rightarrow> Inl e
                | Inr (h, data) \<Rightarrow>
                    let sz = sz - uint IKCP_OVERHEAD
                    in if sz < uint (h_len h) \<or> sint (h_len h) < 0 then Inr (-2, kcp, scan)
                       else if \<not> known_cmd (h_cmd h) then Inr (-3, kcp, scan)
                       else
                         (case input_cmd al kcp h data scan of
                            Inl e \<Rightarrow> Inl e
                          | Inr (kcp, scan) \<Rightarrow>
                              input_loop al kcp (drop (unat (h_len h)) data)
                                (sz - uint (h_len h)) scan))))"
  by pat_completeness auto
termination
  by (relation "measure (\<lambda>(al, kcp, data, sz, scan). nat sz)")
    (auto simp: ikcp_consts intro: less_le_trans [OF _ uint_ge_0])

declare input_loop.simps [simp del]

text \<open>
  The congestion window after acknowledged data: slow start below the threshold, slower
  growth above it, never beyond the peer's window.
\<close>

definition cwnd_grow :: "IKCPCB \<Rightarrow> (u32 \<times> u32) res" where
  "cwnd_grow kcp =
     (let m = mss kcp in
      if cwnd kcp < ssthresh kcp then Inr (cwnd kcp + 1, incr kcp + m)
      else
        let inc = (if incr kcp < m then m else incr kcp)
        in if inc = 0 then Inl Division_by_zero
           else let inc = inc + (m * m div inc + m div 16)
                in Inr (if (cwnd kcp + 1) * m \<le> inc
                        then (inc + m - 1) div (if m > 0 then m else 1) else cwnd kcp, inc))"

definition input_cwnd :: "u32 \<Rightarrow> IKCPCB \<Rightarrow> IKCPCB res" where
  "input_cwnd prev_una kcp =
     (if itimediff (snd_una kcp) prev_una > 0 \<and> cwnd kcp < rmt_wnd kcp then
        rbind (cwnd_grow kcp) (\<lambda>(cw, inc).
          if cw > rmt_wnd kcp
          then Inr (kcp\<lparr>cwnd := rmt_wnd kcp, incr := rmt_wnd kcp * mss kcp\<rparr>)
          else Inr (kcp\<lparr>cwnd := cw, incr := inc\<rparr>))
      else Inr kcp)"

definition ikcp_input :: "allocator \<Rightarrow> IKCPCB \<Rightarrow> bytes option \<Rightarrow> int \<Rightarrow> (int \<times> IKCPCB) res" where
  "ikcp_input al kcp odata sz =
     (case odata of
        None \<Rightarrow> Inr (-1, kcp)
      | Some data \<Rightarrow>
          if s32 sz < sint IKCP_OVERHEAD then Inr (-1, kcp)
          else
            rbind (input_loop al kcp data sz (False, 0, 0))
              (\<lambda>(ret, kcp', flag, maxack, latest_ts).
                 if ret < 0 then Inr (ret, kcp')
                 else
                   let kcp' = (if flag then ikcp_parse_fastack kcp' maxack latest_ts else kcp')
                   in rbind (input_cwnd (snd_una kcp) kcp') (\<lambda>kcp'. Inr (0, kcp'))))"

section \<open>Segment headers on the wire\<close>

definition head_of :: "IKCPSEG \<Rightarrow> seg_head" where
  "head_of seg = \<lparr>h_conv = seg_conv seg, h_cmd = ucast (seg_cmd seg), h_frg = ucast (seg_frg seg),
     h_wnd = ucast (seg_wnd seg), h_ts = seg_ts seg, h_sn = seg_sn seg, h_una = seg_una seg,
     h_len = seg_len seg\<rparr>"

definition encode_head :: "seg_head \<Rightarrow> bytes" where
  "encode_head h =
     ikcp_encode32u (h_conv h) @ ikcp_encode8u (h_cmd h) @ ikcp_encode8u (h_frg h) @
     ikcp_encode16u (h_wnd h) @ ikcp_encode32u (h_ts h) @ ikcp_encode32u (h_sn h) @
     ikcp_encode32u (h_una h) @ ikcp_encode32u (h_len h)"

lemma encode_seg_head: "ikcp_encode_seg seg = encode_head (head_of seg)"
  by (simp add: ikcp_encode_seg_def encode_head_def head_of_def)

definition decode_head :: "bytes \<Rightarrow> (seg_head \<times> bytes) option" where
  "decode_head data =
     (case ikcp_decode32u data of
        None \<Rightarrow> None
      | Some (cv, r) \<Rightarrow> (case input_head cv r of Inl _ \<Rightarrow> None | Inr x \<Rightarrow> Some x))"

context byte_codec
begin

lemma odecode_long: "width \<le> length p \<Longrightarrow> \<exists>x. odecode (dec p) = Inr (x, drop width p)"
  using dec_long [of p] by (auto simp: odecode_def)

end

lemma input_head_long:
  assumes "20 \<le> length p"
  shows "\<exists>h. input_head cv p = Inr (h, drop 20 p) \<and> h_conv h = cv"
proof -
  obtain cmd where 1: "odecode (ikcp_decode8u p) = Inr (cmd, drop 1 p)"
    using c8.odecode_long [of p] assms by auto
  obtain frg where 2: "odecode (ikcp_decode8u (drop 1 p)) = Inr (frg, drop 2 p)"
    using c8.odecode_long [of "drop 1 p"] assms by (auto simp: numeral_2_eq_2 le_diff_conv2)
  obtain wnd where 3: "odecode (ikcp_decode16u (drop 2 p)) = Inr (wnd, drop 4 p)"
    using c16.odecode_long [of "drop 2 p"] assms by (auto simp: le_diff_conv2)
  obtain ts where 4: "odecode (ikcp_decode32u (drop 4 p)) = Inr (ts, drop 8 p)"
    using c32.odecode_long [of "drop 4 p"] assms by (auto simp: le_diff_conv2)
  obtain sn where 5: "odecode (ikcp_decode32u (drop 8 p)) = Inr (sn, drop 12 p)"
    using c32.odecode_long [of "drop 8 p"] assms by (auto simp: le_diff_conv2)
  obtain una where 6: "odecode (ikcp_decode32u (drop 12 p)) = Inr (una, drop 16 p)"
    using c32.odecode_long [of "drop 12 p"] assms by (auto simp: le_diff_conv2)
  obtain len where 7: "odecode (ikcp_decode32u (drop 16 p)) = Inr (len, drop 20 p)"
    using c32.odecode_long [of "drop 16 p"] assms by (auto simp: le_diff_conv2)
  show ?thesis unfolding input_head_def 1 rbind_simps prod.case 2 3 4 5 6 7 by simp
qed

lemma odecode_Inr [fault_simps]: "odecode r = Inr x \<longleftrightarrow> r = Some x"
  by (cases r) (simp_all add: odecode_def)

lemma input_head_rest:
  assumes "input_head cv p = Inr (h, r)"
  shows "length p = 20 + length r"
  using assms
  by (auto simp: input_head_def fault_simps
      dest!: c8.dec_rest_length c16.dec_rest_length c32.dec_rest_length)

interpretation hd: byte_codec encode_head decode_head 24
proof unfold_locales
  show "decode_head (encode_head h @ p) = Some (h, p)" for h p
    by (simp add: encode_head_def decode_head_def input_head_def odecode_def)
  show "decode_head p = None" if "length p < 24" for p
  proof (rule ccontr)
    assume "decode_head p \<noteq> None"
    then obtain cv r h q where "ikcp_decode32u p = Some (cv, r)" "input_head cv r = Inr (h, q)"
      by (auto simp: decode_head_def split: option.splits sum.splits)
    then show False using that c32.dec_rest_length [of p] input_head_rest [of cv r h q] by simp
  qed
  show "\<exists>h. decode_head p = Some (h, drop 24 p)" if "24 \<le> length p" for p
  proof -
    obtain cv where "ikcp_decode32u p = Some (cv, drop 4 p)" using c32.dec_long [of p] \<open>24 \<le> length p\<close> by (auto simp: le_diff_conv2)
    moreover obtain h where "input_head cv (drop 4 p) = Inr (h, drop 20 (drop 4 p))"
      using input_head_long [of "drop 4 p" cv] \<open>24 \<le> length p\<close> by (auto simp: le_diff_conv2)
    ultimately show ?thesis by (simp add: decode_head_def)
  qed
qed (simp add: encode_head_def)

section \<open>One segment\<close>

text \<open>What no operation of the input side touches.\<close>

definition same_link :: "IKCPCB \<Rightarrow> IKCPCB \<Rightarrow> bool" where
  "same_link kcp kcp' \<longleftrightarrow> conv kcp' = conv kcp \<and> mtu kcp' = mtu kcp \<and> mss kcp' = mss kcp \<and>
     buffer kcp' = buffer kcp \<and> output_cb kcp' = output_cb kcp \<and> updated kcp' = updated kcp \<and>
     snd_queue kcp' = snd_queue kcp \<and> snd_nxt kcp' = snd_nxt kcp \<and> stream kcp' = stream kcp"

lemma same_link_refl [simp]: "same_link kcp kcp"
  by (simp add: same_link_def)

lemma same_link_trans: "same_link a b \<Longrightarrow> same_link b c \<Longrightarrow> same_link a c"
  by (simp add: same_link_def)

lemma unat_ucast16: "unat (ucast (w :: u16) :: u32) \<le> 65535"
proof -
  have "unat (ucast w :: u32) = unat w"
    by (simp add: unsigned_ucast_eq take_bit_nat_eq_self unsigned_less [THEN order_less_trans])
  then show ?thesis using unsigned_less [of w, where ?'a = nat] by simp
qed

lemma unat_ucast8: "unat (ucast (w :: byte) :: u32) < 256"
proof -
  have "unat (ucast w :: u32) = unat w"
    by (simp add: unsigned_ucast_eq take_bit_nat_eq_self unsigned_less [THEN order_less_trans])
  then show ?thesis using unsigned_less [of w, where ?'a = nat] by simp
qed

lemma snd_core_rmt_wnd: "snd_core kcp \<Longrightarrow> snd_core (kcp\<lparr>rmt_wnd := ucast (w :: u16)\<rparr>)"
  using unat_ucast16 [of w] by (simp add: snd_core_def inflight_def)

text \<open>The acknowledgement operations leave the receiving side alone.\<close>

lemma kcp_inv_snd_only:
  assumes "kcp_inv kcp" and "snd_inv k"
    and "k = kcp\<lparr>snd_buf := a, nsnd_buf := b, snd_una := c, rmt_wnd := d, rx_srtt := e, rx_rttval := f, rx_rto := g\<rparr>"
  shows "kcp_inv k"
  using assms(1,2) unfolding assms(3) kcp_inv_def
  by (simp add: rcv_inv_def ack_inv_def cfg_inv_def)

lemma una_step:
  fixes w :: u16 and una :: u32
  assumes "kcp_inv kcp"
  defines "k \<equiv> ikcp_shrink_buf (ikcp_parse_una (kcp\<lparr>rmt_wnd := ucast w\<rparr>) una)"
  shows "kcp_inv k" and "same_link kcp k" and "ackcount k = ackcount kcp" and "current k = current kcp"
proof -
  have "snd_core (kcp\<lparr>rmt_wnd := ucast w\<rparr>)"
    using assms(1) by (intro snd_core_rmt_wnd snd_inv_core) (simp add: kcp_inv_def)
  then have s: "snd_inv k" unfolding k_def by (intro snd_inv_shrink snd_core_parse_una)
  have k: "k = kcp\<lparr>snd_buf := snd_buf k, nsnd_buf := nsnd_buf k, snd_una := snd_una k,
      rmt_wnd := rmt_wnd k, rx_srtt := rx_srtt k, rx_rttval := rx_rttval k, rx_rto := rx_rto k\<rparr>"
    by (simp add: k_def ikcp_shrink_buf_def ikcp_parse_una_def split: list.split prod.split)
  show "kcp_inv k" by (rule kcp_inv_snd_only [OF assms(1) s k])
  show "same_link kcp k" by (subst k) (simp add: same_link_def)
  show "ackcount k = ackcount kcp" "current k = current kcp" by (subst k, simp)+
qed

lemma update_ack_upd:
  obtains a b c where "ikcp_update_ack kcp rtt = kcp\<lparr>rx_srtt := a, rx_rttval := b, rx_rto := c\<rparr>"
  by (rule that) (unfold ikcp_update_ack_def Let_def case_prod_beta, rule refl)

lemma ack_step:
  assumes "kcp_inv kcp"
  shows "kcp_inv (fst (input_ack kcp h scan))" and "same_link kcp (fst (input_ack kcp h scan))"
    and "ackcount (fst (input_ack kcp h scan)) = ackcount kcp"
proof -
  let ?k0 = "if itimediff (current kcp) (h_ts h) \<ge> 0
             then ikcp_update_ack kcp (itimediff (current kcp) (h_ts h)) else kcp"
  define k where "k = ikcp_shrink_buf (ikcp_parse_ack ?k0 (h_sn h))"
  have fst: "fst (input_ack kcp h scan) = k"
    by (simp add: input_ack_def k_def Let_def split: prod.split)
  have "snd_inv ?k0" using assms by (simp add: kcp_inv_def)
  then have s: "snd_inv k" unfolding k_def by (intro snd_inv_shrink snd_core_parse_ack snd_inv_core)
  have k: "k = kcp\<lparr>snd_buf := snd_buf k, nsnd_buf := nsnd_buf k, snd_una := snd_una k,
      rmt_wnd := rmt_wnd k, rx_srtt := rx_srtt k, rx_rttval := rx_rttval k, rx_rto := rx_rto k\<rparr>"
  proof (cases "itimediff (current kcp) (h_ts h) \<ge> 0")
    case True
    obtain a b c where "ikcp_update_ack kcp (itimediff (current kcp) (h_ts h)) =
        kcp\<lparr>rx_srtt := a, rx_rttval := b, rx_rto := c\<rparr>" by (rule update_ack_upd)
    with True show ?thesis
      by (simp add: k_def ikcp_shrink_buf_def ikcp_parse_ack_def split: list.split prod.split)
  next
    case False
    then show ?thesis
      by (simp add: k_def ikcp_shrink_buf_def ikcp_parse_ack_def split: list.split prod.split)
  qed
  show "kcp_inv (fst (input_ack kcp h scan))" unfolding fst by (rule kcp_inv_snd_only [OF assms s k])
  show "same_link kcp (fst (input_ack kcp h scan))" unfolding fst by (subst k) (simp add: same_link_def)
  show "ackcount (fst (input_ack kcp h scan)) = ackcount kcp" unfolding fst by (subst k, simp)
qed

lemma parse_data_upd:
  assumes "rcv_inv kcp" and "seg_wf 65535 s"
  obtains a b c d e where "ikcp_parse_data kcp s =
    kcp\<lparr>rcv_buf := a, nrcv_buf := b, rcv_queue := c, nrcv_que := d, rcv_nxt := e\<rparr>"
proof -
  have st: "rcv_inv (store kcp s)" using assms by (rule rcv_inv_store)
  have "ikcp_parse_data kcp s = kcp\<lparr>rcv_buf := rcv_buf (ikcp_parse_data kcp s),
      nrcv_buf := nrcv_buf (ikcp_parse_data kcp s), rcv_queue := rcv_queue (ikcp_parse_data kcp s),
      nrcv_que := nrcv_que (ikcp_parse_data kcp s), rcv_nxt := rcv_nxt (ikcp_parse_data kcp s)\<rparr>"
    unfolding parse_data_store [OF assms(1)] move_available_ready [OF st]
    by (simp add: store_def Let_def)
  then show thesis by (rule that)
qed

lemma parse_data_step:
  assumes "kcp_inv kcp" and "seg_wf 65535 s"
  shows "kcp_inv (ikcp_parse_data kcp s)" and "same_link kcp (ikcp_parse_data kcp s)"
    and "ackcount (ikcp_parse_data kcp s) = ackcount kcp"
proof -
  have r: "rcv_inv kcp" using assms(1) by (simp add: kcp_inv_def)
  obtain a b c d e where k: "ikcp_parse_data kcp s =
    kcp\<lparr>rcv_buf := a, nrcv_buf := b, rcv_queue := c, nrcv_que := d, rcv_nxt := e\<rparr>"
    using r assms(2) by (rule parse_data_upd)
  have "snd_inv (ikcp_parse_data kcp s) \<longleftrightarrow> snd_inv kcp" unfolding k by (rule snd_inv_frame) simp_all
  moreover have "ack_inv (ikcp_parse_data kcp s) \<longleftrightarrow> ack_inv kcp" unfolding k by (rule ack_inv_frame) simp_all
  moreover have "cfg_inv (ikcp_parse_data kcp s) \<longleftrightarrow> cfg_inv kcp" unfolding k by (rule cfg_inv_same) simp_all
  ultimately show "kcp_inv (ikcp_parse_data kcp s)"
    using assms rcv_inv_parse_data [OF r assms(2)] by (simp add: kcp_inv_def)
  show "same_link kcp (ikcp_parse_data kcp s)" "ackcount (ikcp_parse_data kcp s) = ackcount kcp"
    unfolding k by (simp_all add: same_link_def)
qed

lemma push_ack_step:
  assumes "kcp_inv kcp" and "allocator_sound al" and "allocator_total al" and "unat (ackcount kcp) < 2 ^ 31"
  obtains k where "ikcp_ack_push al kcp sn ts = Inr k" and "kcp_inv k" and "same_link kcp k"
    and "unat (ackcount k) = unat (ackcount kcp) + 1" and "rcv_nxt k = rcv_nxt kcp"
    and "rcv_wnd k = rcv_wnd kcp" and "pending_acks k = pending_acks kcp @ [(sn, ts)]"
proof -
  obtain l b where p: "ikcp_ack_push al kcp sn ts = Inr (kcp\<lparr>ackblock := b, acklist := l, ackcount := ackcount kcp + 1\<rparr>)"
    and a: "ack_inv (kcp\<lparr>ackblock := b, acklist := l, ackcount := ackcount kcp + 1\<rparr>)"
    and pend: "pending_acks (kcp\<lparr>ackblock := b, acklist := l, ackcount := ackcount kcp + 1\<rparr>)
         = pending_acks kcp @ [(sn, ts)]"
    using ack_push_ok [of kcp al sn ts] assms by (auto simp: kcp_inv_def)
  have u: "unat (ackcount kcp + 1) = unat (ackcount kcp) + 1"
    using assms(4) by (intro unat_Suc_small) simp
  show thesis
  proof (rule that [OF p])
    let ?k = "kcp\<lparr>ackblock := b, acklist := l, ackcount := ackcount kcp + 1\<rparr>"
    have "snd_inv ?k \<longleftrightarrow> snd_inv kcp" by (rule snd_inv_frame) simp_all
    moreover have "rcv_inv ?k \<longleftrightarrow> rcv_inv kcp" by (rule rcv_inv_frame) simp_all
    moreover have "cfg_inv ?k \<longleftrightarrow> cfg_inv kcp" by (rule cfg_inv_same) simp_all
    ultimately show "kcp_inv ?k" using assms(1) a by (simp add: kcp_inv_def)
  qed (use u pend in \<open>simp_all add: same_link_def\<close>)
qed

text \<open>The segment a PUSH header and the bytes behind it make.\<close>

definition seg_of :: "IKCPSEG \<Rightarrow> seg_head \<Rightarrow> bytes \<Rightarrow> IKCPSEG" where
  "seg_of seg h data = seg\<lparr>seg_conv := h_conv h, seg_cmd := ucast (h_cmd h),
     seg_frg := ucast (h_frg h), seg_wnd := ucast (h_wnd h), seg_ts := h_ts h, seg_sn := h_sn h,
     seg_una := h_una h, seg_len := h_len h, seg_data := take (unat (h_len h)) data\<rparr>"

lemma push_step:
  assumes inv: "kcp_inv kcp" and al: "allocator_sound al" "allocator_total al"
    and cnt: "unat (ackcount kcp) < 2 ^ 31" and len: "unat (h_len h) \<le> length data" "unat (h_len h) \<le> 65535"
  shows "\<exists>k. input_push al kcp h data = Inr k \<and> kcp_inv k \<and> same_link kcp k \<and>
    unat (ackcount k) \<le> unat (ackcount kcp) + 1"
proof (cases "itimediff (h_sn h) (rcv_nxt kcp + rcv_wnd kcp) < 0")
  case True
  obtain k where k: "ikcp_ack_push al kcp (h_sn h) (h_ts h) = Inr k" "kcp_inv k" "same_link kcp k"
    "unat (ackcount k) = unat (ackcount kcp) + 1"
    using push_ack_step [OF inv al cnt] by blast
  obtain seg where seg: "new_seg al (unat (h_len h)) = Some seg"
    using al(2) unfolding allocator_total_def by (meson not_None_eq)
  have "seg_wf 65535 (seg_of seg h data)" using len unat_ucast8 [of "h_frg h"] by (simp add: seg_wf_def seg_of_def)
  note pd = parse_data_step [OF k(2) this]
  have "input_push al kcp h data =
      Inr (if itimediff (h_sn h) (rcv_nxt k) \<ge> 0 then ikcp_parse_data k (seg_of seg h data) else k)"
    using True k(1) seg len(1) by (simp add: input_push_def seg_of_def)
  then show ?thesis using pd k same_link_trans by auto
next
  case False
  then show ?thesis using inv by (simp add: input_push_def)
qed

lemma cmd_step:
  assumes inv: "kcp_inv kcp" and al: "allocator_sound al" "allocator_total al"
    and cnt: "unat (ackcount kcp) < 2 ^ 31" and len: "unat (h_len h) \<le> length data" "unat (h_len h) \<le> 65535"
  shows "\<exists>k scan'. input_cmd al kcp h data scan = Inr (k, scan') \<and> kcp_inv k \<and> same_link kcp k \<and>
    unat (ackcount k) \<le> unat (ackcount kcp) + 1"
proof -
  define k where "k = ikcp_shrink_buf (ikcp_parse_una (kcp\<lparr>rmt_wnd := ucast (h_wnd h)\<rparr>) (h_una h))"
  note u = una_step [OF inv, of "h_wnd h" "h_una h", folded k_def]
  have cnt': "unat (ackcount k) < 2 ^ 31" using cnt u(3) by simp
  have cmd: "input_cmd al kcp h data scan =
     (let cmd = ucast (h_cmd h) :: u32
      in if cmd = IKCP_CMD_ACK then Inr (input_ack k h scan)
         else if cmd = IKCP_CMD_PUSH then rbind (input_push al k h data) (\<lambda>kcp. Inr (kcp, scan))
         else if cmd = IKCP_CMD_WASK then Inr (k\<lparr>probe := probe k OR IKCP_ASK_TELL\<rparr>, scan)
         else Inr (k, scan))"
    unfolding input_cmd_def k_def Let_def by (rule refl)
  have ack: "\<exists>k' scan'. input_ack k h scan = (k', scan') \<and> kcp_inv k' \<and> same_link k k' \<and> ackcount k' = ackcount k"
    using ack_step [OF u(1), of h scan] by (cases "input_ack k h scan") auto
  have probe: "kcp_inv (k\<lparr>probe := x\<rparr>)" "same_link k (k\<lparr>probe := x\<rparr>)" for x
    using u(1) by (simp_all add: same_link_def)
  show ?thesis
    unfolding cmd Let_def
    using ack push_step [OF u(1) al cnt' len] u probe same_link_trans [OF u(2)]
    by (cases scan) (auto simp: u(3))
qed


section \<open>The input loop\<close>

lemma input_loop_step:
  assumes "24 \<le> sz" and "sz \<le> int (length data)"
  obtains h where "decode_head data = Some (h, drop 24 data)"
    and "input_loop al kcp data sz scan =
      (if h_conv h \<noteq> conv kcp then Inr (-1, kcp, scan)
       else if sz - 24 < uint (h_len h) \<or> sint (h_len h) < 0 then Inr (-2, kcp, scan)
       else if \<not> known_cmd (h_cmd h) then Inr (-3, kcp, scan)
       else rbind (input_cmd al kcp h (drop 24 data) scan) (\<lambda>(kcp, scan).
         input_loop al kcp (drop (24 + unat (h_len h)) data) (sz - 24 - uint (h_len h)) scan))"
proof -
  have l: "24 \<le> length data" using assms by linarith
  obtain cv where cv: "ikcp_decode32u data = Some (cv, drop 4 data)"
    using c32.dec_long [of data] l by auto
  have "20 \<le> length (drop 4 data)" using l by (simp add: le_diff_conv2)
  from input_head_long [OF this, of cv]
  obtain h where h: "input_head cv (drop 4 data) = Inr (h, drop 24 data)" "h_conv h = cv" by auto
  have d: "decode_head data = Some (h, drop 24 data)" by (simp add: decode_head_def cv h(1))
  have o: "sint IKCP_OVERHEAD = 24" "uint IKCP_OVERHEAD = 24" by (simp_all add: ikcp_consts)
  have dd: "drop (unat (h_len h)) (drop 24 data) = drop (24 + unat (h_len h)) data"
    by (simp add: add.commute)
  have od: "odecode (ikcp_decode32u data) = Inr (cv, drop 4 data)" by (simp add: cv odecode_def)
  show thesis
    by (rule that [OF d], unfold input_loop.simps [of al kcp data sz scan] od rbind_def sum.case prod.case h o Let_def dd)
      (use assms(1) in simp)
qed

lemma input_loop_safe:
  assumes "kcp_inv kcp" and al: "allocator_sound al" "allocator_total al"
    and "sz \<le> int (length data)" and "length data \<le> 65535" and "unat (ackcount kcp) + length data < 2 ^ 31"
  shows "\<exists>ret k scan'. input_loop al kcp data sz scan = Inr (ret, k, scan') \<and>
    ret \<in> {0, -1, -2, -3} \<and> kcp_inv k \<and> same_link kcp k \<and>
    unat (ackcount k) \<le> unat (ackcount kcp) + length data"
  using assms(1,4,5,6)
proof (induction "length data" arbitrary: kcp data sz scan rule: less_induct)
  case less
  show ?case
  proof (cases "24 \<le> sz")
    case False
    then show ?thesis
      using less.prems by (subst input_loop.simps) (cases scan, simp add: ikcp_consts)
  next
    case True
    obtain h where step: "input_loop al kcp data sz scan =
      (if h_conv h \<noteq> conv kcp then Inr (-1, kcp, scan)
       else if sz - 24 < uint (h_len h) \<or> sint (h_len h) < 0 then Inr (-2, kcp, scan)
       else if \<not> known_cmd (h_cmd h) then Inr (-3, kcp, scan)
       else rbind (input_cmd al kcp h (drop 24 data) scan) (\<lambda>(kcp, scan).
         input_loop al kcp (drop (24 + unat (h_len h)) data) (sz - 24 - uint (h_len h)) scan))"
      using input_loop_step [OF True less.prems(2)] by metis
    show ?thesis
    proof (cases "h_conv h \<noteq> conv kcp \<or> (sz - 24 < uint (h_len h) \<or> sint (h_len h) < 0) \<or> \<not> known_cmd (h_cmd h)")
      case True
      then show ?thesis unfolding step using less.prems by (cases scan) auto
    next
      case False
      let ?n = "24 + unat (h_len h)"
      have u: "uint (h_len h) = int (unat (h_len h))" by simp
      have n: "int ?n \<le> sz" using False u by linarith
      have len: "?n \<le> length data" using n less.prems(2) by linarith
      obtain k scan' where k: "input_cmd al kcp h (drop 24 data) scan = Inr (k, scan')" "kcp_inv k"
        "same_link kcp k" "unat (ackcount k) \<le> unat (ackcount kcp) + 1"
      proof -
        have "unat (ackcount kcp) < 2 ^ 31" "unat (h_len h) \<le> length (drop 24 data)" "unat (h_len h) \<le> 65535"
          using less.prems(3,4) len by (simp_all add: le_diff_conv2)
        from cmd_step [OF less.prems(1) al this, of scan] that show thesis by blast
      qed
      have "\<exists>ret k' scan''. input_loop al k (drop ?n data) (sz - 24 - uint (h_len h)) scan' = Inr (ret, k', scan'') \<and>
          ret \<in> {0, -1, -2, -3} \<and> kcp_inv k' \<and> same_link k k' \<and>
          unat (ackcount k') \<le> unat (ackcount k) + length (drop ?n data)"
      proof (rule less.hyps [OF _ k(2)])
        show "length (drop ?n data) < length data" using len by simp
        show "sz - 24 - uint (h_len h) \<le> int (length (drop ?n data))"
          using less.prems(2) len u by (simp only: length_drop of_nat_diff [OF len])
        show "length (drop ?n data) \<le> 65535" using less.prems(3) by simp
        show "unat (ackcount k) + length (drop ?n data) < 2 ^ 31"
          using less.prems(4) k(4) len by simp
      qed
      then obtain ret k' scan'' where r: "input_loop al k (drop ?n data) (sz - 24 - uint (h_len h)) scan' = Inr (ret, k', scan'')"
          "ret \<in> {0, -1, -2, -3}" "kcp_inv k'" "same_link k k'"
          "unat (ackcount k') \<le> unat (ackcount k) + length (drop ?n data)" by blast
      have "unat (ackcount k') \<le> unat (ackcount kcp) + length data" using r(5) k(4) len by simp
      moreover have "input_loop al kcp data sz scan = Inr (ret, k', scan'')"
        using False unfolding step by (simp add: k(1) r(1))
      ultimately show ?thesis using r(2,3) same_link_trans [OF k(3) r(4)] by blast
    qed
  qed
qed

section \<open>A whole datagram\<close>

lemma cwnd_grow_ok: "0 < mss kcp \<Longrightarrow> \<exists>c i. cwnd_grow kcp = Inr (c, i)"
  by (auto simp: cwnd_grow_def Let_def)

lemma input_cwnd_ok:
  assumes "kcp_inv kcp"
  shows "\<exists>a b. input_cwnd prev kcp = Inr (kcp\<lparr>cwnd := a, incr := b\<rparr>) \<and>
    (a = cwnd kcp \<or> a \<le> rmt_wnd kcp)"
proof (cases "itimediff (snd_una kcp) prev > 0 \<and> cwnd kcp < rmt_wnd kcp")
  case True
  have "0 < mss kcp" using assms by (auto simp: kcp_inv_def cfg_inv_def word_less_nat_alt)
  then obtain c i where "cwnd_grow kcp = Inr (c, i)" using cwnd_grow_ok by blast
  then have g: "input_cwnd prev kcp = (if c > rmt_wnd kcp
      then Inr (kcp\<lparr>cwnd := rmt_wnd kcp, incr := rmt_wnd kcp * mss kcp\<rparr>)
      else Inr (kcp\<lparr>cwnd := c, incr := i\<rparr>))"
    unfolding input_cwnd_def if_P [OF True] by simp
  show ?thesis
  proof (cases "c > rmt_wnd kcp")
    case True
    show ?thesis unfolding g if_P [OF True]
      by (rule exI [of _ "rmt_wnd kcp"], rule exI [of _ "rmt_wnd kcp * mss kcp"]) simp
  next
    case False
    show ?thesis unfolding g if_not_P [OF False]
      by (rule exI [of _ c], rule exI [of _ i]) (use False in \<open>simp add: not_less\<close>)
  qed
next
  case False
  show ?thesis unfolding input_cwnd_def if_not_P [OF False]
    by (rule exI [of _ "cwnd kcp"], rule exI [of _ "incr kcp"]) simp
qed

lemma kcp_inv_fastack:
  assumes "kcp_inv kcp"
  shows "kcp_inv (ikcp_parse_fastack kcp sn ts)" and "same_link kcp (ikcp_parse_fastack kcp sn ts)"
    and "ackcount (ikcp_parse_fastack kcp sn ts) = ackcount kcp"
proof -
  let ?k = "ikcp_parse_fastack kcp sn ts"
  have k: "?k = kcp\<lparr>snd_buf := snd_buf ?k\<rparr>" by (simp add: ikcp_parse_fastack_def)
  have "rcv_inv ?k \<longleftrightarrow> rcv_inv kcp" by (subst k) (rule rcv_inv_frame, simp_all)
  moreover have "ack_inv ?k \<longleftrightarrow> ack_inv kcp" by (subst k) (rule ack_inv_frame, simp_all)
  moreover have "cfg_inv ?k \<longleftrightarrow> cfg_inv kcp" by (subst k) (rule cfg_inv_same, simp_all)
  ultimately show "kcp_inv ?k" using assms by (simp add: kcp_inv_def)
  show "same_link kcp ?k" by (subst k) (simp add: same_link_def)
  show "ackcount ?k = ackcount kcp" by (subst k) simp
qed

text \<open>
  Whatever bytes arrive, \<^verbatim>\<open>ikcp_input\<close> stays inside the datagram and the control block,
  keeps the invariant and answers with one of its documented codes.
\<close>

lemma input_safe:
  assumes inv: "kcp_inv kcp" and al: "allocator_sound al" "allocator_total al"
    and len: "length data \<le> 65535" and cnt: "unat (ackcount kcp) + length data < 2 ^ 31"
  shows "\<exists>ret k. ikcp_input al kcp (Some data) (int (length data)) = Inr (ret, k) \<and>
    ret \<in> {0, -1, -2, -3} \<and> kcp_inv k \<and> same_link kcp k \<and>
    unat (ackcount k) \<le> unat (ackcount kcp) + length data"
proof (cases "length data < 24")
  case True
  then show ?thesis using inv by (simp add: ikcp_input_def ikcp_consts)
next
  case False
  have s: "s32 (int (length data)) = int (length data)" using len by simp
  obtain ret k flag ma ts where l: "input_loop al kcp data (int (length data)) (False, 0, 0) = Inr (ret, k, flag, ma, ts)"
    and ret: "ret \<in> {0, -1, -2, -3}" and k: "kcp_inv k" "same_link kcp k"
    and c: "unat (ackcount k) \<le> unat (ackcount kcp) + length data"
    using input_loop_safe [OF inv al order.refl len cnt, of "(False, 0, 0)"] by auto
  let ?k1 = "if flag then ikcp_parse_fastack k ma ts else k"
  have k1: "kcp_inv ?k1" "same_link k ?k1" "ackcount ?k1 = ackcount k"
    using k kcp_inv_fastack [OF k(1)] by simp_all
  obtain a b where cw: "input_cwnd (snd_una kcp) ?k1 = Inr (?k1\<lparr>cwnd := a, incr := b\<rparr>)"
    using input_cwnd_ok [OF k1(1)] by blast
  have res: "ikcp_input al kcp (Some data) (int (length data)) =
      (if ret < 0 then Inr (ret, k) else Inr (0, ?k1\<lparr>cwnd := a, incr := b\<rparr>))"
    using False unfolding ikcp_input_def option.case s l rbind_simps prod.case Let_def cw
    by (simp add: ikcp_consts split del: if_split)
  have link: "same_link kcp (?k1\<lparr>cwnd := a, incr := b\<rparr>)"
    using same_link_trans [OF k(2) k1(2)] by (simp add: same_link_def)
  have inv': "kcp_inv (?k1\<lparr>cwnd := a, incr := b\<rparr>)" using k1(1) by (simp split del: if_split)
  have "unat (ackcount (?k1\<lparr>cwnd := a, incr := b\<rparr>)) \<le> unat (ackcount kcp) + length data"
    using k1(3) c by (simp split del: if_split)
  with res link inv' ret k c show ?thesis
    by (cases "ret < 0") (simp_all split del: if_split)
qed

section \<open>What a flush sends, a peer understands\<close>

text \<open>The commands of a list of segments, executed in order.\<close>

fun feed :: "allocator \<Rightarrow> IKCPSEG list \<Rightarrow> IKCPCB \<times> ack_scan \<Rightarrow> (IKCPCB \<times> ack_scan) res" where
  "feed al [] st = Inr st"
| "feed al (s # segs) st =
     rbind (input_cmd al (fst st) (head_of s) (seg_data s) (snd st)) (feed al segs)"

definition sendable :: "u32 \<Rightarrow> IKCPSEG \<Rightarrow> bool" where
  "sendable cv s \<longleftrightarrow> seg_conv s = cv \<and> seg_wf 65535 s \<and> known_cmd (ucast (seg_cmd s))"

lemma input_cmd_prefix:
  assumes "length d = unat (h_len h)"
  shows "input_cmd al kcp h (d @ rest) scan = input_cmd al kcp h d scan"
proof -
  have "input_push al k h (d @ rest) = input_push al k h d" for k
    using assms by (cases "ikcp_ack_push al k (h_sn h) (h_ts h)")
      (simp_all add: input_push_def split: option.split)
  then show ?thesis by (simp add: input_cmd_def Let_def)
qed

lemma input_loop_wire:
  assumes "kcp_inv kcp" and al: "allocator_sound al" "allocator_total al"
    and "\<forall>s \<in> set segs. sendable (conv kcp) s"
    and "unat (ackcount kcp) + length segs < 2 ^ 31"
  shows "\<exists>k scan'. feed al segs (kcp, scan) = Inr (k, scan') \<and>
    input_loop al kcp (concat (map wire_seg segs)) (int (length (concat (map wire_seg segs)))) scan =
      Inr (0, k, scan') \<and> kcp_inv k \<and> same_link kcp k"
  using assms(1,4,5)
proof (induction segs arbitrary: kcp scan)
  case Nil
  then show ?case by (subst input_loop.simps) (simp add: ikcp_consts)
next
  case (Cons s segs)
  let ?rest = "concat (map wire_seg segs)" and ?all = "concat (map wire_seg (s # segs))"
  have s: "seg_conv s = conv kcp" "length (seg_data s) = unat (seg_len s)" "unat (seg_len s) \<le> 65535"
    "known_cmd (ucast (seg_cmd s))"
    using Cons.prems(2) by (simp_all add: sendable_def seg_wf_def)
  have all: "?all = encode_head (head_of s) @ seg_data s @ ?rest"
    by (simp add: wire_seg_def encode_seg_head)
  have u: "uint (seg_len s) = int (unat (seg_len s))" by simp
  have len: "int (length ?all) = 24 + uint (seg_len s) + int (length ?rest)"
    unfolding all u using s(2) hd.enc_width [of "head_of s"] by simp
  obtain h where h: "decode_head ?all = Some (h, drop 24 ?all)"
    and step: "input_loop al kcp ?all (int (length ?all)) scan =
      (if h_conv h \<noteq> conv kcp then Inr (-1, kcp, scan)
       else if int (length ?all) - 24 < uint (h_len h) \<or> sint (h_len h) < 0 then Inr (-2, kcp, scan)
       else if \<not> known_cmd (h_cmd h) then Inr (-3, kcp, scan)
       else rbind (input_cmd al kcp h (drop 24 ?all) scan) (\<lambda>(kcp, scan).
         input_loop al kcp (drop (24 + unat (h_len h)) ?all) (int (length ?all) - 24 - uint (h_len h)) scan))"
    using input_loop_step [of "int (length ?all)" ?all al kcp scan] len by auto
  have hs: "h = head_of s" "drop 24 ?all = seg_data s @ ?rest"
    using h hd.enc_width [of "head_of s"] unfolding all hd.dec_enc by simp_all
  have hf: "h_conv h = conv kcp" "h_len h = seg_len s" "known_cmd (h_cmd h)"
    using s(1,4) by (simp_all add: hs(1) head_of_def)
  have "sint (seg_len s) = uint (seg_len s)" using s(3) by (intro sint_small) simp
  then have pos: "\<not> sint (h_len h) < 0" by (simp add: hf(2))
  have rest: "drop (24 + unat (h_len h)) ?all = ?rest"
  proof -
    have "drop (unat (seg_len s)) (drop 24 ?all) = ?rest" unfolding hs(2) using s(2) by simp
    then show ?thesis unfolding hf(2) by (simp only: drop_drop add.commute [of 24])
  qed
  have cmd: "input_cmd al kcp h (drop 24 ?all) scan = input_cmd al kcp h (seg_data s) scan"
    unfolding hs(2) using s(2) by (intro input_cmd_prefix) (simp add: hf(2))
  obtain k scan1 where k: "input_cmd al kcp h (seg_data s) scan = Inr (k, scan1)" "kcp_inv k"
    "same_link kcp k" "unat (ackcount k) \<le> unat (ackcount kcp) + 1"
    using cmd_step [OF Cons.prems(1) al, of h "seg_data s" scan] Cons.prems(3) s hf by auto
  have loop: "input_loop al kcp ?all (int (length ?all)) scan = input_loop al k ?rest (int (length ?rest)) scan1"
    unfolding step cmd k(1) rbind_simps prod.case rest using hf pos len by simp
  have cv: "conv k = conv kcp" using k(3) by (simp add: same_link_def)
  have "\<forall>s \<in> set segs. sendable (conv k) s" unfolding cv using Cons.prems(2) by simp
  moreover have "unat (ackcount k) + length segs < 2 ^ 31" using Cons.prems(3) k(4) by simp
  ultimately obtain k' scan' where "feed al segs (k, scan1) = Inr (k', scan')"
    "input_loop al k ?rest (int (length ?rest)) scan1 = Inr (0, k', scan')" "kcp_inv k'" "same_link k k'"
    using Cons.IH [OF k(2)] by blast
  then show ?case
    unfolding loop using k(1,3) same_link_trans [of kcp k k'] by (simp add: hs(1))
qed

lemma conv_flush_move [simp]: "conv (flush_move cw wnd q kcp) = conv kcp"
  by (induction cw wnd q kcp rule: flush_move.induct) (simp_all add: Let_def)

lemma conv_admitted [simp]: "conv (admitted kcp) = conv kcp"
  by (simp add: admitted_def flush_probe_def Let_def)

lemma seg_wf_mono: "seg_wf m s \<Longrightarrow> m \<le> n \<Longrightarrow> seg_wf n s"
  by (auto simp: seg_wf_def)

lemma reply_sendable:
  assumes "c \<in> {IKCP_CMD_ACK, IKCP_CMD_WASK, IKCP_CMD_WINS}"
  shows "\<exists>s. ikcp_encode_seg ((reply_seg kcp)\<lparr>seg_cmd := c, seg_sn := sn, seg_ts := ts\<rparr>) = wire_seg s \<and> sendable (conv kcp) s"
  using assms
  by (intro exI [of _ "(reply_seg kcp)\<lparr>seg_cmd := c, seg_sn := sn, seg_ts := ts\<rparr>"])
    (auto simp: wire_seg_def sendable_def reply_seg_def seg_wf_def known_cmd_def ikcp_consts)

lemma flush_items_sendable:
  assumes "kcp_inv kcp" and "unat (mtu kcp) \<le> 65535"
    and "x \<in> set (ack_items kcp @ ctl_items kcp sn ts @ data_items kcp)"
  shows "\<exists>s. x = wire_seg s \<and> sendable (conv kcp) s"
proof -
  consider "x \<in> set (ack_items kcp)" | "x \<in> set (ctl_items kcp sn ts)" | "x \<in> set (data_items kcp)"
    using assms(3) by auto
  then show ?thesis
  proof cases
    case 1
    have "(reply_seg kcp)\<lparr>seg_sn := a, seg_ts := b\<rparr> = (reply_seg kcp)\<lparr>seg_cmd := IKCP_CMD_ACK, seg_sn := a, seg_ts := b\<rparr>" for a b
      by (simp add: reply_seg_def)
    with 1 reply_sendable [where c = IKCP_CMD_ACK and kcp = kcp] show ?thesis by (auto simp: ack_items_def)
  next
    case 2
    have "(reply_seg kcp)\<lparr>seg_sn := sn, seg_ts := ts, seg_cmd := c\<rparr> = (reply_seg kcp)\<lparr>seg_cmd := c, seg_sn := sn, seg_ts := ts\<rparr>" for c
      by simp
    with 2 reply_sendable [where c = IKCP_CMD_WASK and kcp = kcp] reply_sendable [where c = IKCP_CMD_WINS and kcp = kcp]
    show ?thesis by (auto simp: ctl_items_def wnd_items_def split: if_splits)
  next
    case 3
    let ?k = "admitted kcp"
    let ?r = "resend ?k (flush_resent ?k) (flush_rtomin ?k) (flush_wnd kcp)"
    from 3 obtain seg where seg: "seg \<in> set (snd_buf ?k)" "x = wire_seg (?r seg)"
      by (auto simp: data_items_def Let_def)
    have i: "snd_inv ?k" "unat (mss ?k) \<le> 65535"
      using admitted_inv [OF assms(1)] assms by (auto simp: kcp_inv_def cfg_inv_def)
    have "seg_wf (unat (mss ?k)) seg" "pushed (conv kcp) seg"
      using snd_inv_core [OF i(1)] seg(1) by (auto simp: snd_core_def)
    then have "sendable (conv kcp) (?r seg)"
      using i(2) seg_wf_mono [of "unat (mss ?k)" "?r seg" 65535]
      by (simp add: sendable_def pushed_def known_cmd_def ikcp_consts)
    with seg(2) show ?thesis by blast
  qed
qed

lemma wire_list:
  assumes "\<forall>x \<in> set g. \<exists>s. x = wire_seg s \<and> P s"
  shows "\<exists>segs. g = map wire_seg segs \<and> (\<forall>s \<in> set segs. P s)"
  using assms
proof (induction g)
  case (Cons x g)
  then obtain s segs where "x = wire_seg s" "P s" "g = map wire_seg segs" "\<forall>s \<in> set segs. P s"
    by auto
  then show ?case by (intro exI [of _ "s # segs"]) simp
qed simp

text \<open>Every datagram of a flush is a sequence of whole segments of the conversation.\<close>

lemma flush_datagrams:
  assumes "kcp_inv kcp" and "output_cb kcp" and "unat (ackcount kcp) < 2 ^ 31"
    and "unat (mtu kcp) \<le> 65535" and "ikcp_flush kcp = Inr (kcp', outs)" and "d \<in> set outs"
  shows "\<exists>segs. d = concat (map wire_seg segs) \<and> (\<forall>s \<in> set segs. sendable (conv kcp) s) \<and>
    d \<noteq> [] \<and> length d \<le> unat (mtu kcp)"
proof (cases "updated kcp = 0")
  case True
  then show ?thesis using assms(5,6) by (simp add: ikcp_flush_def)
next
  case False
  obtain gs sn ts where gs: "outs = map concat gs"
    "concat gs = ack_items kcp @ ctl_items kcp sn ts @ data_items kcp"
    "\<forall>d \<in> set outs. d \<noteq> [] \<and> length d \<le> unat (mtu kcp)"
    using flush_ok [OF assms(1-3) False] assms(5) by auto
  obtain g where g: "g \<in> set gs" "d = concat g" using gs(1) assms(6) by auto
  have "\<forall>x \<in> set g. \<exists>s. x = wire_seg s \<and> sendable (conv kcp) s"
  proof
    fix x assume "x \<in> set g"
    then have "x \<in> set (concat gs)" using g(1) by auto
    then show "\<exists>s. x = wire_seg s \<and> sendable (conv kcp) s"
      unfolding gs(2) by (rule flush_items_sendable [OF assms(1,4)])
  qed
  from wire_list [OF this] obtain segs where "g = map wire_seg segs" "\<forall>s \<in> set segs. sendable (conv kcp) s"
    by blast
  moreover have "d \<noteq> []" "length d \<le> unat (mtu kcp)" using gs(3) assms(6) by blast+
  ultimately show ?thesis using g(2) by blast
qed

lemma length_wire_list: "length segs \<le> length (concat (map wire_seg segs))"
  by (induction segs) (simp_all add: wire_seg_def)

lemma input_accepts:
  assumes "kcp_inv kcp" and "allocator_sound al" and "allocator_total al"
    and "\<forall>s \<in> set segs. sendable (conv kcp) s" and "segs \<noteq> []"
    and "length (concat (map wire_seg segs)) < 2 ^ 31"
    and "unat (ackcount kcp) + length (concat (map wire_seg segs)) < 2 ^ 31"
  shows "\<exists>k. ikcp_input al kcp (Some (concat (map wire_seg segs))) (int (length (concat (map wire_seg segs)))) = Inr (0, k) \<and> kcp_inv k"
proof -
  let ?d = "concat (map wire_seg segs)"
  have n: "24 \<le> length ?d" using assms(5) by (cases segs) (simp_all add: wire_seg_def)
  have "unat (ackcount kcp) + length segs < 2 ^ 31" using assms(7) length_wire_list [of segs] by simp
  from input_loop_wire [OF assms(1-4) this, of "(False, 0, 0)"]
  obtain k flag ma ts where l: "input_loop al kcp ?d (int (length ?d)) (False, 0, 0) = Inr (0, k, flag, ma, ts)"
    and k: "kcp_inv k" by auto
  let ?k1 = "if flag then ikcp_parse_fastack k ma ts else k"
  have k1: "kcp_inv ?k1" using k kcp_inv_fastack(1) [OF k] by simp
  obtain a b where cw: "input_cwnd (snd_una kcp) ?k1 = Inr (?k1\<lparr>cwnd := a, incr := b\<rparr>)"
    using input_cwnd_ok [OF k1] by blast
  have s: "s32 (int (length ?d)) = int (length ?d)" using assms(6) by simp
  have "ikcp_input al kcp (Some ?d) (int (length ?d)) = Inr (0, ?k1\<lparr>cwnd := a, incr := b\<rparr>)"
    using n unfolding ikcp_input_def option.case s l rbind_simps prod.case Let_def cw
    by (simp add: ikcp_consts split del: if_split)
  moreover have "kcp_inv (?k1\<lparr>cwnd := a, incr := b\<rparr>)" using k1 by (simp split del: if_split)
  ultimately show ?thesis by blast
qed

end
