(* ===== verification/Kcp_Api.thy ===== *)
theory Kcp_Api
  imports Kcp_Input
begin

text \<open>
  The public calls of a control block as one machine. A program that uses KCP makes a
  sequence of calls; \<open>kcp_step\<close> runs one call of the API, \<open>run_calls\<close> a sequence of them. The
  locale \<open>safe_machine\<close> is the contract of such a machine (in a state that satisfies the
  invariant, a call whose guard holds ends without a fault and keeps the invariant); its
  lemmas lift the contract to sequences of calls.
\<close>

section \<open>Machines of calls\<close>

fun run_calls :: "('c \<Rightarrow> 's \<Rightarrow> ('o \<times> 's) res) \<Rightarrow> 'c list \<Rightarrow> 's \<Rightarrow> ('o list \<times> 's) res" where
  "run_calls f [] s = Inr ([], s)"
| "run_calls f (c # cs) s =
     rbind (f c s) (\<lambda>(x, s). rbind (run_calls f cs s) (\<lambda>(xs, s). Inr (x # xs, s)))"

text \<open>Every call of the sequence finds its guard true when it is made.\<close>

fun guarded :: "('c \<Rightarrow> 's \<Rightarrow> ('o \<times> 's) res) \<Rightarrow> ('c \<Rightarrow> 's \<Rightarrow> bool) \<Rightarrow> 'c list \<Rightarrow> 's \<Rightarrow> bool" where
  "guarded f ok [] s \<longleftrightarrow> True"
| "guarded f ok (c # cs) s \<longleftrightarrow>
     ok c s \<and> (case f c s of Inl _ \<Rightarrow> True | Inr (_, s') \<Rightarrow> guarded f ok cs s')"

locale safe_machine =
  fixes f :: "'c \<Rightarrow> 's \<Rightarrow> ('o \<times> 's) res"
    and ok :: "'c \<Rightarrow> 's \<Rightarrow> bool"
    and inv :: "'s \<Rightarrow> bool"
  assumes step_safe: "inv s \<Longrightarrow> ok c s \<Longrightarrow> \<exists>x s'. f c s = Inr (x, s') \<and> inv s'"
begin

lemma run_safe:
  assumes "inv s" and "guarded f ok cs s"
  shows "\<exists>xs s'. run_calls f cs s = Inr (xs, s') \<and> inv s' \<and> length xs = length cs"
  using assms
proof (induction cs arbitrary: s)
  case (Cons c cs)
  then obtain x s1 where 1: "f c s = Inr (x, s1)" "inv s1" using step_safe [of s c] by auto
  then have "guarded f ok cs s1" using Cons.prems(2) by simp
  from Cons.IH [OF 1(2) this] 1(1) show ?case by auto
qed simp

lemma guarded_append:
  assumes "inv s" and "guarded f ok cs s" and "run_calls f cs s = Inr (xs, s')"
  shows "guarded f ok (cs @ ds) s \<longleftrightarrow> guarded f ok ds s'"
  using assms
proof (induction cs arbitrary: s xs)
  case (Cons c cs)
  then obtain x s1 where 1: "f c s = Inr (x, s1)" "inv s1" using step_safe [of s c] by auto
  with Cons show ?case by (auto simp: fault_simps)
qed simp

end

section \<open>The KCP calls\<close>

datatype call =
    Send bytes
  | Recv int
  | Input bytes
  | Update u32
  | Flush
  | Setmtu int
  | Interval int
  | Nodelay int int int int
  | Wndsize int int

text \<open>What a call gives back: its return value, the bytes received, the datagrams sent.\<close>

type_synonym answer = "int \<times> bytes \<times> bytes list"

fun kcp_step :: "allocator \<Rightarrow> call \<Rightarrow> IKCPCB \<Rightarrow> (answer \<times> IKCPCB) res" where
  "kcp_step al (Send buf) kcp =
     rbind (ikcp_send al kcp buf (int (length buf))) (\<lambda>(r, kcp). Inr ((r, [], []), kcp))"
| "kcp_step al (Recv len) kcp =
     rbind (ikcp_recv kcp len) (\<lambda>(r, out, kcp). Inr ((r, out, []), kcp))"
| "kcp_step al (Input data) kcp =
     rbind (ikcp_input al kcp (Some data) (int (length data))) (\<lambda>(r, kcp). Inr ((r, [], []), kcp))"
| "kcp_step al (Update cur) kcp =
     rbind (ikcp_update kcp cur) (\<lambda>(kcp, outs). Inr ((0, [], outs), kcp))"
| "kcp_step al Flush kcp =
     rbind (ikcp_flush kcp) (\<lambda>(kcp, outs). Inr ((0, [], outs), kcp))"
| "kcp_step al (Setmtu m) kcp = (case ikcp_setmtu al kcp m of (r, kcp) \<Rightarrow> Inr ((r, [], []), kcp))"
| "kcp_step al (Interval i) kcp = (case ikcp_interval kcp i of (r, kcp) \<Rightarrow> Inr ((r, [], []), kcp))"
| "kcp_step al (Nodelay nd i rs nc) kcp =
     (case ikcp_nodelay kcp nd i rs nc of (r, kcp) \<Rightarrow> Inr ((r, [], []), kcp))"
| "kcp_step al (Wndsize s r) kcp =
     (case ikcp_wndsize kcp s r of (r, kcp) \<Rightarrow> Inr ((r, [], []), kcp))"

text \<open>
  The guards. A datagram is one of UDP and there is room to count its acknowledgements,
  a receive window fits the 16-bit window field, and the MTU is not lowered below the
  segments that were already cut for the old one.
\<close>

fun call_ok :: "call \<Rightarrow> IKCPCB \<Rightarrow> bool" where
  "call_ok (Input data) kcp \<longleftrightarrow> length data \<le> 65535 \<and> unat (ackcount kcp) + length data < 2 ^ 31"
| "call_ok (Setmtu m) kcp \<longleftrightarrow> m \<le> 2 ^ 30 \<and>
     list_all (\<lambda>seg. int (unat (seg_len seg)) + 24 \<le> m) (snd_queue kcp @ snd_buf kcp)"
| "call_ok (Wndsize s r) kcp \<longleftrightarrow> r \<le> 32767"
| "call_ok c kcp \<longleftrightarrow> True"

definition api_inv :: "IKCPCB \<Rightarrow> bool" where
  "api_inv kcp \<longleftrightarrow> kcp_inv kcp \<and> output_cb kcp \<and> unat (ackcount kcp) < 2 ^ 31"

lemma send_api:
  assumes "api_inv kcp" and "allocator_total al"
  shows "\<exists>r kcp'. ikcp_send al kcp buf (int (length buf)) = Inr (r, kcp') \<and> api_inv kcp'"
proof -
  have "\<And>n. new_seg al n \<noteq> None" using assms(2) by (simp add: allocator_total_def)
  moreover have "0 < unat (mss kcp)" "unat (mss kcp) < 2 ^ 31"
    "\<forall>seg \<in> set (snd_queue kcp). seg_wf (unat (mss kcp)) seg" "nsnd_que kcp = of_nat (length (snd_queue kcp))"
    using assms(1) by (auto simp: api_inv_def kcp_inv_def cfg_inv_def snd_inv_def snd_core_def)
  ultimately obtain q r where q: "ikcp_send al kcp buf (int (length buf)) =
      Inr (r, kcp\<lparr>snd_queue := q, nsnd_que := of_nat (length q)\<rparr>)"
    "\<forall>seg \<in> set q. seg_wf (unat (mss kcp)) seg"
    using send_safe [of al kcp "length buf" buf] by blast
  let ?k = "kcp\<lparr>snd_queue := q, nsnd_que := of_nat (length q)\<rparr>"
  have "snd_inv ?k"
    using assms(1) q(2) unfolding api_inv_def kcp_inv_def snd_inv_def snd_core_def inflight_def by auto
  moreover have "rcv_inv ?k \<longleftrightarrow> rcv_inv kcp" by (rule rcv_inv_frame) simp_all
  moreover have "ack_inv ?k \<longleftrightarrow> ack_inv kcp" by (rule ack_inv_frame) simp_all
  moreover have "cfg_inv ?k \<longleftrightarrow> cfg_inv kcp" by (rule cfg_inv_same) simp_all
  ultimately have "api_inv ?k" using assms(1) by (simp add: api_inv_def kcp_inv_def)
  with q(1) show ?thesis by blast
qed

lemma after_recv_upd:
  assumes "rcv_inv kcp"
  obtains a b c d e g where "after_recv kcp ispeek =
    kcp\<lparr>rcv_buf := a, nrcv_buf := b, rcv_queue := c, nrcv_que := d, rcv_nxt := e, probe := g\<rparr>"
proof -
  let ?k0 = "if ispeek then kcp
      else kcp\<lparr>rcv_queue := later_msgs (rcv_queue kcp),
               nrcv_que := nrcv_que kcp - of_nat (length (first_msg (rcv_queue kcp)))\<rparr>"
  have inv0: "rcv_inv ?k0" using assms rcv_inv_drop_msg [OF assms] by simp
  define k where "k = after_recv kcp ispeek"
  have "k = kcp\<lparr>rcv_buf := rcv_buf k, nrcv_buf := nrcv_buf k, rcv_queue := rcv_queue k,
      nrcv_que := nrcv_que k, rcv_nxt := rcv_nxt k, probe := probe k\<rparr>"
    unfolding k_def after_recv_def Let_def move_available_ready [OF inv0] by (cases ispeek) simp_all
  then show thesis unfolding k_def by (rule that)
qed

lemma recv_api:
  assumes "api_inv kcp"
  shows "\<exists>r out kcp'. ikcp_recv kcp len = Inr (r, out, kcp') \<and> api_inv kcp'"
proof -
  have r: "rcv_inv kcp" using assms by (simp add: api_inv_def kcp_inv_def)
  have "api_inv (after_recv kcp p)" for p
  proof -
    let ?k = "after_recv kcp p"
    obtain a b c d e g where k: "?k = kcp\<lparr>rcv_buf := a, nrcv_buf := b, rcv_queue := c,
        nrcv_que := d, rcv_nxt := e, probe := g\<rparr>" using r by (rule after_recv_upd)
    have "snd_inv ?k \<longleftrightarrow> snd_inv kcp" unfolding k by (rule snd_inv_frame) simp_all
    moreover have "ack_inv ?k \<longleftrightarrow> ack_inv kcp" unfolding k by (rule ack_inv_frame) simp_all
    moreover have "cfg_inv ?k \<longleftrightarrow> cfg_inv kcp" unfolding k by (rule cfg_inv_same) simp_all
    moreover have "output_cb ?k = output_cb kcp" "ackcount ?k = ackcount kcp" unfolding k by simp_all
    ultimately show ?thesis using assms rcv_inv_after_recv [OF r] by (simp add: api_inv_def kcp_inv_def)
  qed
  then show ?thesis unfolding recv_spec [OF r] Let_def using assms by simp
qed

lemma setmtu_api:
  assumes "api_inv kcp" and "call_ok (Setmtu m) kcp"
  shows "api_inv (snd (ikcp_setmtu al kcp m))"
proof (cases "m < 50 \<or> m < sint IKCP_OVERHEAD \<or> \<not> new_block al (unat ((word_of_int m + IKCP_OVERHEAD) * 3 :: u32))")
  case True
  then show ?thesis using assms(1) by (auto simp: ikcp_setmtu_def Let_def)
next
  case False
  let ?w = "word_of_int m :: u32" and ?s = "unat ((word_of_int m + IKCP_OVERHEAD) * 3 :: u32)"
  let ?k = "kcp\<lparr>mtu := ?w, mss := ?w - IKCP_OVERHEAD, buffer := Some ?s\<rparr>"
  have k: "snd (ikcp_setmtu al kcp m) = ?k" using False by (simp add: ikcp_setmtu_def Let_def)
  obtain n where n: "m = int n" "50 \<le> n" "n \<le> 2 ^ 30"
    using False assms(2) by (cases m) auto
  have w: "unat ?w = n" using n by (subst unat_word_of_int) simp_all
  have o: "unat IKCP_OVERHEAD = 24" by (simp add: ikcp_consts)
  have mss: "unat (?w - IKCP_OVERHEAD) = n - 24"
    using w o n(2) by (subst unat_diff_ge) (simp_all add: word_le_nat_alt)
  have a: "unat (?w + IKCP_OVERHEAD) = n + 24" using w o n(3) by (subst unat_add_small) simp_all
  have "?s = (n + 24) * 3"
    using n(3) unfolding unat_word_ariths(2) a by simp
  then have cfg: "cfg_inv ?k" using w mss n(2,3) unfolding cfg_inv_def by simp
  have "\<forall>seg \<in> set (snd_queue kcp) \<union> set (snd_buf kcp). seg_wf (unat (mss ?k)) seg"
  proof
    fix seg assume seg: "seg \<in> set (snd_queue kcp) \<union> set (snd_buf kcp)"
    have "seg_wf (unat (mss kcp)) seg"
      using assms(1) seg unfolding api_inv_def kcp_inv_def snd_inv_def snd_core_def by blast
    moreover have "int (unat (seg_len seg)) + 24 \<le> m"
      using assms(2) seg by (auto simp: list_all_iff)
    then have "unat (seg_len seg) \<le> n - 24" using n(1) by linarith
    ultimately show "seg_wf (unat (mss ?k)) seg" using n(1) mss by (simp add: seg_wf_def)
  qed
  then have "snd_inv ?k"
    using assms(1) unfolding api_inv_def kcp_inv_def snd_inv_def snd_core_def inflight_def by auto
  moreover have "rcv_inv ?k \<longleftrightarrow> rcv_inv kcp" by (rule rcv_inv_frame) simp_all
  moreover have "ack_inv ?k \<longleftrightarrow> ack_inv kcp" by (rule ack_inv_frame) simp_all
  ultimately show ?thesis using cfg assms(1) unfolding k api_inv_def kcp_inv_def by simp
qed


lemma api_inv_tuning [simp]:
  "api_inv (kcp\<lparr>interval := a\<rparr>) \<longleftrightarrow> api_inv kcp"
  "api_inv (kcp\<lparr>nodelay := b\<rparr>) \<longleftrightarrow> api_inv kcp"
  "api_inv (kcp\<lparr>rx_minrto := c\<rparr>) \<longleftrightarrow> api_inv kcp"
  "api_inv (kcp\<lparr>fastresend := d\<rparr>) \<longleftrightarrow> api_inv kcp"
  "api_inv (kcp\<lparr>nocwnd := d\<rparr>) \<longleftrightarrow> api_inv kcp"
  "api_inv (kcp\<lparr>snd_wnd := e\<rparr>) \<longleftrightarrow> api_inv kcp"
  unfolding api_inv_def kcp_inv_def
  by (simp_all add: snd_inv_def snd_core_def inflight_def rcv_inv_def ack_inv_def cfg_inv_def)

lemma wndsize_api:
  assumes "api_inv kcp" and "r \<le> 32767"
  shows "api_inv (snd (ikcp_wndsize kcp s r))"
proof (cases "r > 0")
  case False
  then show ?thesis using assms(1) by (simp add: ikcp_wndsize_def Let_def)
next
  case True
  let ?w = "imax (word_of_int r) IKCP_WND_RCV"
  have "unat (word_of_int r :: u32) = nat r" using True assms(2) by (intro unat_word_of_int) simp_all
  then have w: "0 < unat ?w" "unat ?w \<le> 32767"
    using True assms(2) by (auto simp: imax_def ikcp_consts)
  have "api_inv (k\<lparr>rcv_wnd := ?w\<rparr>)" if "api_inv k" for k
  proof -
    let ?k = "k\<lparr>rcv_wnd := ?w\<rparr>"
    have "snd_inv ?k \<longleftrightarrow> snd_inv k" by (rule snd_inv_frame) simp_all
    moreover have "ack_inv ?k \<longleftrightarrow> ack_inv k" by (rule ack_inv_frame) simp_all
    moreover have "cfg_inv ?k \<longleftrightarrow> cfg_inv k" by (rule cfg_inv_same) simp_all
    moreover have "rcv_inv ?k" using that w by (simp add: api_inv_def kcp_inv_def rcv_inv_def)
    ultimately show ?thesis using that by (simp add: api_inv_def kcp_inv_def)
  qed
  with True assms(1) show ?thesis by (simp add: ikcp_wndsize_def Let_def)
qed

lemma input_api:
  assumes "api_inv kcp" and "allocator_sound al" "allocator_total al" and "call_ok (Input data) kcp"
  shows "\<exists>r kcp'. ikcp_input al kcp (Some data) (int (length data)) = Inr (r, kcp') \<and> api_inv kcp'"
  using input_safe [of kcp al data] assms by (fastforce simp: api_inv_def same_link_def)

lemma update_api:
  assumes "api_inv kcp"
  shows "\<exists>kcp' outs. ikcp_update kcp cur = Inr (kcp', outs) \<and> api_inv kcp'"
    and "\<exists>kcp' outs. ikcp_flush kcp = Inr (kcp', outs) \<and> api_inv kcp'"
  using update_safe [of kcp cur] flush_safe [of kcp] assms unfolding api_inv_def
  by (metis le_less_trans)+

text \<open>Every call of the API keeps the contract, for every allocator that does not run dry.\<close>

lemma kcp_step_safe:
  assumes "allocator_sound al" and "allocator_total al" and "api_inv kcp" and "call_ok c kcp"
  shows "\<exists>x kcp'. kcp_step al c kcp = Inr (x, kcp') \<and> api_inv kcp'"
proof (cases c)
  case (Send buf)
  then show ?thesis using send_api [OF assms(3,2), of buf] by auto
next
  case (Recv len)
  then show ?thesis using recv_api [OF assms(3), of len] by auto
next
  case (Input data)
  then show ?thesis using input_api [OF assms(3,1,2), of data] assms(4) by auto
next
  case (Update cur)
  then show ?thesis using update_api(1) [OF assms(3), of cur] by auto
next
  case Flush
  then show ?thesis using update_api(2) [OF assms(3)] by auto
next
  case (Setmtu m)
  then show ?thesis using setmtu_api [OF assms(3), of m al] assms(4)
    by (cases "ikcp_setmtu al kcp m") auto
next
  case (Interval i)
  then show ?thesis using assms(3) by (simp add: ikcp_interval_def)
next
  case (Nodelay nd i rs nc)
  then show ?thesis using assms(3) by (simp add: ikcp_nodelay_def Let_def)
next
  case (Wndsize s r)
  then show ?thesis using wndsize_api [OF assms(3), of r s] assms(4)
    by (cases "ikcp_wndsize kcp s r") auto
qed

text \<open>The machine a process runs: its allocator, which no call changes, and the control block.\<close>

definition env_step :: "call \<Rightarrow> allocator \<times> IKCPCB \<Rightarrow> (answer \<times> allocator \<times> IKCPCB) res" where
  "env_step c s = (case s of (al, kcp) \<Rightarrow> rbind (kcp_step al c kcp) (\<lambda>(x, kcp). Inr (x, al, kcp)))"

definition env_ok :: "call \<Rightarrow> allocator \<times> IKCPCB \<Rightarrow> bool" where
  "env_ok c s = call_ok c (snd s)"

definition env_inv :: "allocator \<times> IKCPCB \<Rightarrow> bool" where
  "env_inv s \<longleftrightarrow> allocator_sound (fst s) \<and> allocator_total (fst s) \<and> api_inv (snd s)"

interpretation kcp: safe_machine env_step env_ok env_inv
proof
  fix s c
  assume "env_inv s" "env_ok c s"
  then show "\<exists>x s'. env_step c s = Inr (x, s') \<and> env_inv s'"
    using kcp_step_safe [of "fst s" "snd s" c]
    by (cases s) (auto simp: env_step_def env_ok_def env_inv_def)
qed

definition create_ready :: "allocator \<Rightarrow> nat \<Rightarrow> u32 \<Rightarrow> IKCPCB option" where
  "create_ready al sizeof_cb cv = map_option (\<lambda>kcp. ikcp_setoutput kcp True) (ikcp_create al sizeof_cb cv)"

lemma create_api:
  assumes "create_ready al sizeof_cb cv = Some kcp"
  shows "api_inv kcp"
  using assms
  by (auto simp: create_ready_def ikcp_create_def ikcp_setoutput_def api_inv_def kcp_inv_def snd_inv_def snd_core_def
      inflight_def rcv_inv_def ack_inv_def cfg_inv_def ikcp_consts split: if_splits)

end
