(* ===== verification/Kcp_Link.thy ===== *)
theory Kcp_Link
  imports Kcp_Api
begin

text \<open>
  What a control block knows of its peer: the fragments it cut itself, the fragments it received, and
  what it may say about both in the segments it sends. The log of a direction is the list of the fragments its sender has cut, number and data, in the
  order of \<^verbatim>\<open>ikcp_send\<close>; as a block starts with \<open>snd_nxt = 0\<close>, the sequence number of a fragment is its
  position in the log as long as fewer than \<open>2 ^ 31\<close> fragments are sent. The theory goes up to the
  effect of one incoming datagram on both halves of the block.
\<close>

section \<open>The log\<close>

type_synonym frag = "u32 \<times> bytes"

definition frag :: "IKCPSEG \<Rightarrow> frag" where
  "frag s = (seg_frg s, seg_data s)"

definition genuine :: "frag list \<Rightarrow> IKCPSEG \<Rightarrow> bool" where
  "genuine log s \<longleftrightarrow> unat (seg_sn s) < length log \<and> frag s = log ! unat (seg_sn s)"

lemma genuine_append: "genuine log s \<Longrightarrow> genuine (log @ new) s"
  by (auto simp: genuine_def nth_append)

lemma genuine_same: "seg_sn s = seg_sn t \<Longrightarrow> frag s = frag t \<Longrightarrow> genuine log s = genuine log t"
  by (simp add: genuine_def)

text \<open>What the block has of the other end's fragments: in order, or waiting for a gap to close.\<close>

definition received :: "IKCPCB \<Rightarrow> u32 \<Rightarrow> bool" where
  "received kcp sn \<longleftrightarrow> sn < rcv_nxt kcp \<or> sn \<in> seg_sn ` set (rcv_buf kcp)"

definition receiver :: "frag list \<Rightarrow> nat \<Rightarrow> IKCPCB \<Rightarrow> bool" where
  "receiver log q kcp \<longleftrightarrow> length log < 2 ^ 31 \<and> q \<le> unat (rcv_nxt kcp) \<and>
     unat (rcv_nxt kcp) \<le> length log \<and>
     map frag (rcv_queue kcp) = drop q (take (unat (rcv_nxt kcp)) log) \<and>
     (\<forall>s \<in> set (rcv_buf kcp). genuine log s)"

text \<open>A block only ever gains fragments.\<close>

definition gains :: "IKCPCB \<Rightarrow> IKCPCB \<Rightarrow> bool" where
  "gains kcp kcp' \<longleftrightarrow> rcv_nxt kcp \<le> rcv_nxt kcp' \<and> (\<forall>sn. received kcp sn \<longrightarrow> received kcp' sn)"

lemma gains_refl [simp]: "gains kcp kcp"
  by (simp add: gains_def)

lemma gains_trans: "gains a b \<Longrightarrow> gains b c \<Longrightarrow> gains a c"
  by (auto simp: gains_def)

lemma gains_frame: "rcv_nxt k = rcv_nxt kcp \<Longrightarrow> rcv_buf k = rcv_buf kcp \<Longrightarrow> gains kcp k"
  by (simp add: gains_def received_def)

lemma receiver_frame:
  assumes "rcv_nxt k = rcv_nxt kcp" and "rcv_buf k = rcv_buf kcp" and "rcv_queue k = rcv_queue kcp"
  shows "receiver log q k = receiver log q kcp"
  using assms by (simp add: receiver_def)

lemma receiver_append: "receiver log q kcp \<Longrightarrow> length (log @ new) < 2 ^ 31 \<Longrightarrow> receiver (log @ new) q kcp"
  by (auto simp: receiver_def genuine_append)

section \<open>Receiving\<close>

lemma ready_numbers:
  assumes "receiver log q kcp" and "length d < 2 ^ 31"
    and "\<And>i. i < length d \<Longrightarrow> seg_sn (d ! i) = rcv_nxt kcp + of_nat i"
    and "\<forall>s \<in> set d. genuine log s"
  shows "unat (rcv_nxt kcp + of_nat (length d)) = unat (rcv_nxt kcp) + length d"
    and "unat (rcv_nxt kcp) + length d \<le> length log"
    and "map frag d = take (length d) (drop (unat (rcv_nxt kcp)) log)"
proof -
  let ?r = "unat (rcv_nxt kcp)"
  have r: "?r < 2 ^ 31" "?r \<le> length log" using assms(1) by (simp_all add: receiver_def)
  have n: "unat (rcv_nxt kcp + of_nat i) = ?r + i" if "i \<le> length d" for i
    using r(1) that assms(2) by (subst unat_add_small) (simp_all add: unat_of_nat)
  show "unat (rcv_nxt kcp + of_nat (length d)) = ?r + length d" by (rule n) simp
  have g: "?r + i < length log \<and> frag (d ! i) = log ! (?r + i)" if "i < length d" for i
    using bspec [OF assms(4) nth_mem [OF that]] assms(3) [OF that] n [of i] that
    by (simp add: genuine_def)
  show le: "?r + length d \<le> length log"
  proof (cases "length d")
    case (Suc m)
    then show ?thesis using g [of m] by simp
  qed (use r(2) in simp)
  show "map frag d = take (length d) (drop ?r log)"
  proof (rule nth_equalityI)
    show "length (map frag d) = length (take (length d) (drop ?r log))" using le by simp
    show "map frag d ! i = take (length d) (drop ?r log) ! i" if "i < length (map frag d)" for i
      using g [of i] that le by simp
  qed
qed

lemma receiver_move:
  assumes "receiver log q kcp" and "rcv_inv kcp"
  shows "receiver log q (move_available kcp)" and "gains kcp (move_available kcp)"
proof -
  define d where "d = ready (rcv_nxt kcp) (unat (rcv_wnd kcp) - length (rcv_queue kcp)) (rcv_buf kcp)"
  define rest where "rest = drop (length d) (rcv_buf kcp)"
  have buf: "rcv_buf kcp = d @ rest" unfolding d_def rest_def by (rule ready_drop)
  have mv: "move_available kcp =
    kcp\<lparr>nrcv_buf := nrcv_buf kcp - of_nat (length d), rcv_queue := rcv_queue kcp @ d,
        nrcv_que := nrcv_que kcp + of_nat (length d),
        rcv_nxt := rcv_nxt kcp + of_nat (length d), rcv_buf := rest\<rparr>"
    unfolding d_def rest_def by (rule move_available_ready [OF assms(2)])
  have "length d \<le> 32767"
    using length_ready [of "rcv_nxt kcp" "unat (rcv_wnd kcp) - length (rcv_queue kcp)" "rcv_buf kcp"] assms(2)
    unfolding d_def [symmetric] rcv_inv_def by linarith
  then have small: "length d < 2 ^ 31" by simp
  have sn: "seg_sn (d ! i) = rcv_nxt kcp + of_nat i" if "i < length d" for i
    using that unfolding d_def by (rule ready_sn)
  have gen: "\<forall>s \<in> set d. genuine log s" using assms(1) by (simp add: receiver_def buf)
  note n = ready_numbers [OF assms(1) small sn gen]
  have "drop q (take (unat (rcv_nxt kcp)) log) @ take (length d) (drop (unat (rcv_nxt kcp)) log) =
      drop q (take (unat (rcv_nxt kcp) + length d) log)"
    using assms(1) by (simp add: receiver_def take_add)
  then show "receiver log q (move_available kcp)"
    using assms(1) n unfolding mv by (auto simp: receiver_def buf)
  have "received (move_available kcp) s" if "received kcp s" for s
  proof (cases "s \<in> seg_sn ` set d")
    case True
    then obtain i where i: "i < length d" "s = rcv_nxt kcp + of_nat i" using sn by (auto simp: in_set_conv_nth)
    have "unat (rcv_nxt kcp + of_nat i) < unat (rcv_nxt kcp + of_nat (length d))"
    proof -
      have "unat (rcv_nxt kcp + of_nat i) \<le> unat (rcv_nxt kcp) + unat (of_nat i :: u32)"
        by (simp add: unat_word_ariths)
      moreover have "unat (of_nat i :: u32) = i" using i(1) small by (simp add: unat_of_nat)
      ultimately show ?thesis using n(1) i(1) by simp
    qed
    then show ?thesis unfolding mv by (simp add: received_def i(2) word_less_nat_alt)
  next
    case False
    have "rcv_nxt kcp \<le> rcv_nxt kcp + of_nat (length d)" using n(1) by (simp add: word_le_nat_alt)
    then show ?thesis using False that unfolding mv by (auto simp: received_def buf)
  qed
  then show "gains kcp (move_available kcp)"
    using n(1) unfolding gains_def mv by (simp add: word_le_nat_alt)
qed

lemma receiver_store:
  assumes "receiver log q kcp" and "genuine log s"
  shows "receiver log q (store kcp s)" and "gains kcp (store kcp s)"
    and "rcv_nxt (store kcp s) = rcv_nxt kcp"
    and "offset (rcv_nxt kcp) (seg_sn s) < unat (rcv_wnd kcp) \<Longrightarrow> received (store kcp s) (seg_sn s)"
proof -
  let ?off = "\<lambda>t. offset (rcv_nxt kcp) (seg_sn t)"
  have "t \<in> set (rcv_buf (store kcp s))" if "t \<in> set (rcv_buf kcp)" for t
    using that offset_inject [of "rcv_nxt kcp" "seg_sn t" "seg_sn s"]
    by (auto simp: store_def Let_def)
  then have "set (rcv_buf kcp) \<subseteq> set (rcv_buf (store kcp s))" by (rule subsetI)
  then have "seg_sn ` set (rcv_buf kcp) \<subseteq> seg_sn ` set (rcv_buf (store kcp s))" by (rule image_mono)
  moreover show nxt: "rcv_nxt (store kcp s) = rcv_nxt kcp" by (simp add: store_def Let_def)
  ultimately show "gains kcp (store kcp s)" unfolding gains_def received_def nxt by blast
  show "receiver log q (store kcp s)" using assms by (auto simp: receiver_def store_def Let_def)
  show "received (store kcp s) (seg_sn s)" if "?off s < unat (rcv_wnd kcp)"
    using that by (auto simp: received_def store_def Let_def) (metis image_eqI)
qed

lemma receiver_parse_data:
  assumes "receiver log q kcp" and "rcv_inv kcp" and "genuine log s" and "seg_wf 65535 s"
  shows "receiver log q (ikcp_parse_data kcp s)" and "gains kcp (ikcp_parse_data kcp s)"
    and "offset (rcv_nxt kcp) (seg_sn s) < unat (rcv_wnd kcp) \<Longrightarrow> received (ikcp_parse_data kcp s) (seg_sn s)"
proof -
  note st = receiver_store [OF assms(1,3)]
  note mv = receiver_move [OF st(1) rcv_inv_store [OF assms(2,4)]]
  show "receiver log q (ikcp_parse_data kcp s)" "gains kcp (ikcp_parse_data kcp s)"
    using assms(1) st(2) mv gains_trans by (auto simp: parse_data_store [OF assms(2)])
  show "received (ikcp_parse_data kcp s) (seg_sn s)" if "offset (rcv_nxt kcp) (seg_sn s) < unat (rcv_wnd kcp)"
    using that st(4) mv(2) by (simp add: parse_data_store [OF assms(2)] gains_def)
qed

section \<open>Sending\<close>

definition sender :: "frag list \<Rightarrow> IKCPCB \<Rightarrow> bool" where
  "sender log kcp \<longleftrightarrow> length log < 2 ^ 31 \<and>
     unat (snd_nxt kcp) + length (snd_queue kcp) = length log \<and>
     map frag (snd_queue kcp) = drop (unat (snd_nxt kcp)) log \<and>
     (\<forall>s \<in> set (snd_buf kcp). genuine log s)"

text \<open>No fragment that was numbered is forgotten before the peer has it.\<close>

definition covered :: "IKCPCB \<Rightarrow> IKCPCB \<Rightarrow> bool" where
  "covered kcp peer \<longleftrightarrow>
     (\<forall>sn. sn < snd_nxt kcp \<longrightarrow> sn \<in> seg_sn ` set (snd_buf kcp) \<or> received peer sn)"

definition acks_ok :: "IKCPCB \<Rightarrow> bool" where
  "acks_ok kcp \<longleftrightarrow> (\<forall>a \<in> set (pending_acks kcp). received kcp (fst a))"

text \<open>
  What an end may say in a segment: its own fragments, an \<open>una\<close> that does not exceed what it has in
  order, and acknowledgements of what it has.
\<close>

definition honest :: "frag list \<Rightarrow> IKCPCB \<Rightarrow> IKCPSEG \<Rightarrow> bool" where
  "honest log kcp s \<longleftrightarrow> sendable (conv kcp) s \<and>
     seg_cmd s \<in> {IKCP_CMD_PUSH, IKCP_CMD_ACK, IKCP_CMD_WASK, IKCP_CMD_WINS} \<and>
     (seg_cmd s = IKCP_CMD_PUSH \<longrightarrow> genuine log s) \<and> seg_una s \<le> rcv_nxt kcp \<and>
     (seg_cmd s = IKCP_CMD_ACK \<longrightarrow> received kcp (seg_sn s))"

lemma covered_gains: "covered kcp peer \<Longrightarrow> gains peer peer' \<Longrightarrow> covered kcp peer'"
  by (auto simp: covered_def gains_def)

lemma honest_gains: "honest log kcp s \<Longrightarrow> gains kcp kcp' \<Longrightarrow> conv kcp' = conv kcp \<Longrightarrow> honest log kcp' s"
  by (auto simp: honest_def gains_def)

lemma honest_append: "honest log kcp s \<Longrightarrow> honest (log @ new) kcp s"
  by (auto simp: honest_def genuine_append)

text \<open>What only concerns the sending half leaves the receiving half as it was.\<close>

definition same_rcv :: "IKCPCB \<Rightarrow> IKCPCB \<Rightarrow> bool" where
  "same_rcv kcp k \<longleftrightarrow> rcv_nxt k = rcv_nxt kcp \<and> rcv_buf k = rcv_buf kcp \<and>
     rcv_queue k = rcv_queue kcp \<and> acklist k = acklist kcp \<and> ackcount k = ackcount kcp"

definition same_snd :: "IKCPCB \<Rightarrow> IKCPCB \<Rightarrow> bool" where
  "same_snd kcp k \<longleftrightarrow> snd_nxt k = snd_nxt kcp \<and> snd_queue k = snd_queue kcp \<and> snd_buf k = snd_buf kcp"

lemma same_rcv_frame:
  assumes "same_rcv kcp k"
  shows "receiver log q k = receiver log q kcp" and "acks_ok k = acks_ok kcp" and "gains kcp k"
proof -
  have f: "rcv_nxt k = rcv_nxt kcp" "rcv_buf k = rcv_buf kcp" "rcv_queue k = rcv_queue kcp"
    "acklist k = acklist kcp" "ackcount k = ackcount kcp"
    using assms by (simp_all add: same_rcv_def)
  show "receiver log q k = receiver log q kcp" using f(1-3) by (rule receiver_frame)
  show "gains kcp k" using f(1,2) by (rule gains_frame)
  show "acks_ok k = acks_ok kcp" by (simp add: acks_ok_def pending_acks_def received_def f)
qed

lemma same_snd_frame:
  assumes "same_snd kcp k"
  shows "sender log k = sender log kcp" and "covered k peer = covered kcp peer"
  using assms by (simp_all add: same_snd_def sender_def covered_def)

text \<open>Acknowledged segments leave the send buffer; the others stay what they are.\<close>

lemma sender_cut:
  assumes nxt: "snd_nxt k = snd_nxt kcp" and que: "snd_queue k = snd_queue kcp"
    and old: "\<forall>s \<in> set (snd_buf k). \<exists>t \<in> set (snd_buf kcp). seg_sn s = seg_sn t \<and> frag s = frag t"
    and gone: "\<forall>t \<in> set (snd_buf kcp). seg_sn t \<in> seg_sn ` set (snd_buf k) \<or> received peer (seg_sn t)"
  shows "sender log kcp \<Longrightarrow> sender log k" and "covered kcp peer \<Longrightarrow> covered k peer"
proof -
  assume s: "sender log kcp"
  have "genuine log s" if "s \<in> set (snd_buf k)" for s
  proof -
    obtain t where "t \<in> set (snd_buf kcp)" "seg_sn s = seg_sn t" "frag s = frag t" using old \<open>s \<in> set (snd_buf k)\<close> by blast
    then show ?thesis using s genuine_same [of s t log] by (simp add: sender_def)
  qed
  with s show "sender log k" by (simp add: sender_def nxt que)
next
  assume c: "covered kcp peer"
  show "covered k peer" unfolding covered_def nxt
  proof (intro allI impI)
    fix sn assume "sn < snd_nxt kcp"
    then have "sn \<in> seg_sn ` set (snd_buf kcp) \<or> received peer sn" using c by (simp add: covered_def)
    then show "sn \<in> seg_sn ` set (snd_buf k) \<or> received peer sn" using gone by blast
  qed
qed

section \<open>One incoming segment\<close>

lemma una_link:
  fixes w :: u32
  assumes "sender log kcp" and "una \<le> rcv_nxt peer" and "unat (rcv_nxt peer) < 2 ^ 31"
  defines "k \<equiv> ikcp_shrink_buf (ikcp_parse_una (kcp\<lparr>rmt_wnd := w\<rparr>) una)"
  shows "sender log k" and "covered kcp peer \<Longrightarrow> covered k peer" and "same_rcv kcp k"
    and "rcv_wnd k = rcv_wnd kcp"
proof -
  obtain d ys where p: "snd_buf kcp = d @ ys" "parse_una_loop una (snd_buf kcp) = (ys, of_nat (length d))"
    and d: "\<forall>s \<in> set d. itimediff una (seg_sn s) > 0"
    using parse_una_loop_cut by blast
  have buf: "snd_buf k = ys"
    unfolding k_def ikcp_shrink_buf_def ikcp_parse_una_def using p(2) by (simp split: list.split)
  have rest: "snd_nxt k = snd_nxt kcp" "snd_queue k = snd_queue kcp" "same_rcv kcp k" "rcv_wnd k = rcv_wnd kcp"
    unfolding k_def ikcp_shrink_buf_def ikcp_parse_una_def same_rcv_def
    by (simp_all split: list.split prod.split)
  have got: "received peer (seg_sn s)" if "s \<in> set d" for s
  proof -
    have "genuine log s" "length log < 2 ^ 31" using assms(1) that by (auto simp: sender_def p(1))
    then have "unat (seg_sn s) < 2 ^ 31" by (simp add: genuine_def)
    moreover have "unat una < 2 ^ 31" using assms(2,3) by (simp add: word_le_nat_alt)
    ultimately have "itimediff una (seg_sn s) = uint una - uint (seg_sn s)"
      unfolding itimediff_def by (intro sint_diff)
    then have "seg_sn s < una" using bspec [OF d that] by (simp add: word_less_def)
    then show ?thesis using assms(2) by (auto simp: received_def)
  qed
  have cut: "\<forall>s \<in> set (snd_buf k). \<exists>t \<in> set (snd_buf kcp). seg_sn s = seg_sn t \<and> frag s = frag t"
    unfolding buf p(1) by auto
  have keep: "\<forall>t \<in> set (snd_buf kcp). seg_sn t \<in> seg_sn ` set (snd_buf k) \<or> received peer (seg_sn t)"
    using got unfolding buf p(1) by auto
  note sc = sender_cut [OF rest(1,2) cut keep]
  show "sender log k" using assms(1) by (rule sc(1))
  show "covered kcp peer \<Longrightarrow> covered k peer" by (rule sc(2))
  show "same_rcv kcp k" "rcv_wnd k = rcv_wnd kcp" by (rule rest)+
qed

lemma parse_ack_loop_keeps:
  "set (fst (parse_ack_loop sn p)) \<subseteq> set p"
  "s \<in> set p \<Longrightarrow> seg_sn s \<noteq> sn \<Longrightarrow> s \<in> set (fst (parse_ack_loop sn p))"
  by (induction sn p rule: parse_ack_loop.induct) (auto simp: Let_def case_prod_beta)

lemma ack_link:
  fixes scan :: ack_scan
  assumes "sender log kcp" and "received peer (h_sn h)"
  defines "k \<equiv> fst (input_ack kcp h scan)"
  shows "sender log k" and "covered kcp peer \<Longrightarrow> covered k peer" and "same_rcv kcp k"
proof -
  let ?k0 = "if itimediff (current kcp) (h_ts h) \<ge> 0
             then ikcp_update_ack kcp (itimediff (current kcp) (h_ts h)) else kcp"
  have k: "k = ikcp_shrink_buf (ikcp_parse_ack ?k0 (h_sn h))"
    by (simp add: k_def input_ack_def Let_def split: prod.split)
  have f: "snd_nxt ?k0 = snd_nxt kcp" "snd_queue ?k0 = snd_queue kcp" "snd_buf ?k0 = snd_buf kcp" "same_rcv kcp ?k0"
    by (auto simp: same_rcv_def intro: update_ack_upd [of kcp "itimediff (current kcp) (h_ts h)"])
  have buf: "snd_buf k = (if sn_outside ?k0 (h_sn h) then snd_buf kcp else fst (parse_ack_loop (h_sn h) (snd_buf kcp)))"
    unfolding k ikcp_shrink_buf_def ikcp_parse_ack_def f(3) by (auto split: list.splits prod.split)
  have rest: "snd_nxt k = snd_nxt ?k0" "snd_queue k = snd_queue ?k0" "same_rcv ?k0 k"
    unfolding k ikcp_shrink_buf_def ikcp_parse_ack_def same_rcv_def
    by (simp_all split: list.split prod.split)
  have cut: "\<forall>s \<in> set (snd_buf k). \<exists>t \<in> set (snd_buf kcp). seg_sn s = seg_sn t \<and> frag s = frag t"
    using parse_ack_loop_keeps(1) [of "h_sn h" "snd_buf kcp"] unfolding buf by (auto split: if_splits)
  have "seg_sn t \<in> seg_sn ` set (snd_buf k) \<or> received peer (seg_sn t)" if "t \<in> set (snd_buf kcp)" for t
    using that parse_ack_loop_keeps(2) [of t "snd_buf kcp" "h_sn h"] assms(2) unfolding buf
    by (cases "seg_sn t = h_sn h") auto
  then have keep: "\<forall>t \<in> set (snd_buf kcp). seg_sn t \<in> seg_sn ` set (snd_buf k) \<or> received peer (seg_sn t)" by blast
  note sc = sender_cut [OF trans [OF rest(1) f(1)] trans [OF rest(2) f(2)] cut keep]
  show "sender log k" using assms(1) by (rule sc(1))
  show "covered kcp peer \<Longrightarrow> covered k peer" by (rule sc(2))
  show "same_rcv kcp k" using f(4) rest(3) by (simp add: same_rcv_def)
qed

lemma seg_of_head:
  assumes "seg_wf 65535 s"
  shows "seg_sn (seg_of t (head_of s) (seg_data s)) = seg_sn s"
    and "frag (seg_of t (head_of s) (seg_data s)) = frag s"
    and "seg_wf 65535 (seg_of t (head_of s) (seg_data s))"
proof -
  have w: "length (seg_data s) = unat (seg_len s)" "unat (seg_len s) \<le> 65535" "unat (seg_frg s) < 256"
    using assms by (simp_all add: seg_wf_def)
  have f: "ucast (ucast (seg_frg s) :: byte) = seg_frg s"
    using w(3) by (simp add: word_unat_eq_iff unsigned_ucast_eq unsigned_take_bit_eq take_bit_nat_eq_self)
  show "seg_sn (seg_of t (head_of s) (seg_data s)) = seg_sn s"
    "frag (seg_of t (head_of s) (seg_data s)) = frag s"
    "seg_wf 65535 (seg_of t (head_of s) (seg_data s))"
    using w by (simp_all add: seg_of_def head_of_def frag_def seg_wf_def f)
qed

lemma acks_okI:
  assumes "acks_ok kcp" and "gains kcp k" and "pending_acks k = pending_acks kcp @ [(sn, ts)]"
    and "received k sn"
  shows "acks_ok k"
  unfolding acks_ok_def assms(3)
proof
  fix a assume "a \<in> set (pending_acks kcp @ [(sn, ts)])"
  then have "a \<in> set (pending_acks kcp) \<or> a = (sn, ts)" by auto
  then show "received k (fst a)"
  proof
    assume "a \<in> set (pending_acks kcp)"
    then have "received kcp (fst a)" using assms(1) by (simp add: acks_ok_def)
    then show ?thesis using assms(2) by (simp add: gains_def)
  next
    assume "a = (sn, ts)"
    then show ?thesis using assms(4) by simp
  qed
qed

lemma push_link:
  assumes inv: "kcp_inv kcp" and al: "allocator_sound al" "allocator_total al"
    and cnt: "unat (ackcount kcp) < 2 ^ 31"
    and r: "receiver log q kcp" "acks_ok kcp" and s: "genuine log s" "seg_wf 65535 s"
    and k: "input_push al kcp (head_of s) (seg_data s) = Inr k"
  shows "same_snd kcp k" and "receiver log q k" and "acks_ok k" and "gains kcp k"
proof -
  let ?h = "head_of s" and ?nxt = "rcv_nxt kcp"
  have h: "h_sn ?h = seg_sn s" "h_len ?h = seg_len s" by (simp_all add: head_of_def)
  have ri: "rcv_inv kcp" "ack_inv kcp" "unat (rcv_wnd kcp) < 2 ^ 31" using inv by (simp_all add: kcp_inv_def rcv_inv_def)
  have "same_snd kcp k \<and> receiver log q k \<and> acks_ok k \<and> gains kcp k"
  proof (cases "itimediff (seg_sn s) (?nxt + rcv_wnd kcp) < 0")
    case False
    then have "k = kcp" using k by (simp add: input_push_def h)
    then show ?thesis using r by (simp add: same_snd_def)
  next
    case True
    obtain l b where p: "ikcp_ack_push al kcp (seg_sn s) (h_ts ?h) =
        Inr (kcp\<lparr>ackblock := b, acklist := l, ackcount := ackcount kcp + 1\<rparr>)"
      and pend: "pending_acks (kcp\<lparr>ackblock := b, acklist := l, ackcount := ackcount kcp + 1\<rparr>)
         = pending_acks kcp @ [(seg_sn s, h_ts ?h)]"
      using ack_push_ok [OF ri(2) al cnt] by metis
    define k1 where "k1 = kcp\<lparr>ackblock := b, acklist := l, ackcount := ackcount kcp + 1\<rparr>"
    have f: "rcv_nxt k1 = ?nxt" "rcv_buf k1 = rcv_buf kcp" "rcv_queue k1 = rcv_queue kcp" "rcv_wnd k1 = rcv_wnd kcp"
      "nrcv_buf k1 = nrcv_buf kcp" "nrcv_que k1 = nrcv_que kcp" "same_snd kcp k1"
      by (simp_all add: k1_def same_snd_def)
    have r1: "receiver log q k1" "gains kcp k1" "rcv_inv k1"
      using r(1) ri(1) receiver_frame [OF f(1-3)] gains_frame [OF f(1,2)]
        rcv_inv_frame [OF f(1-4) f(5,6)] by blast+
    obtain t where t: "new_seg al (unat (seg_len s)) = Some t"
      using al(2) unfolding allocator_total_def by (meson not_None_eq)
    let ?seg = "seg_of t ?h (seg_data s)"
    note sg = seg_of_head [OF s(2), of t]
    have k': "k = (if itimediff (seg_sn s) ?nxt \<ge> 0 then ikcp_parse_data k1 ?seg else k1)"
      using k True p t s(2) unfolding input_push_def h k1_def [symmetric]
      by (simp add: f seg_of_def seg_wf_def h split: if_splits)
    show ?thesis
    proof (cases "itimediff (seg_sn s) ?nxt \<ge> 0")
      case in_order: True
      have "offset ?nxt (seg_sn s) < unat (rcv_wnd kcp)"
        using itimediff_range [OF ri(3), of "seg_sn s" ?nxt] True in_order by blast
      moreover have "genuine log ?seg" using s(1) genuine_same [OF sg(1,2)] by simp
      note pd = receiver_parse_data [OF r1(1,3) this sg(3)]
      ultimately have rc: "received k (seg_sn s)" "receiver log q k" "gains kcp k"
        using pd gains_trans [OF r1(2)] in_order by (simp_all add: k' sg f)
      obtain a c d e g where u: "ikcp_parse_data k1 ?seg =
          k1\<lparr>rcv_buf := a, nrcv_buf := c, rcv_queue := d, nrcv_que := e, rcv_nxt := g\<rparr>"
        using r1(3) sg(3) by (rule parse_data_upd)
      have "same_snd kcp k" "pending_acks k = pending_acks k1"
        using f(7) in_order unfolding k' u by (simp_all add: same_snd_def pending_acks_def)
      then show ?thesis using rc acks_okI [OF r(2) rc(3) _ rc(1)] pend unfolding k1_def by simp
    next
      case False
      have "unat (seg_sn s) < 2 ^ 31" "unat ?nxt < 2 ^ 31"
        using s(1) r(1) by (simp_all add: genuine_def receiver_def)
      from sint_diff [OF this] False have "seg_sn s < ?nxt" by (simp add: itimediff_def word_less_def)
      then have "received k1 (seg_sn s)" by (simp add: received_def f)
      then show ?thesis using False r1 f(7) acks_okI [OF r(2) r1(2), of "seg_sn s"] pend
        unfolding k' k1_def by simp
    qed
  qed
  then show "same_snd kcp k" "receiver log q k" "acks_ok k" "gains kcp k" by auto
qed

text \<open>One segment of the peer, whose command it may be: nothing is lost, nothing is made up.\<close>

definition linked :: "frag list \<Rightarrow> frag list \<Rightarrow> nat \<Rightarrow> IKCPCB \<Rightarrow> IKCPCB \<Rightarrow> bool" where
  "linked out_log in_log q kcp peer \<longleftrightarrow>
     sender out_log kcp \<and> receiver in_log q kcp \<and> acks_ok kcp \<and> covered kcp peer"

lemma cmd_link:
  assumes inv: "kcp_inv kcp" and al: "allocator_sound al" "allocator_total al"
    and cnt: "unat (ackcount kcp) < 2 ^ 31"
    and l: "linked out_log in_log q kcp peer" and s: "honest in_log peer s"
    and p: "unat (rcv_nxt peer) < 2 ^ 31"
    and k: "input_cmd al kcp (head_of s) (seg_data s) scan = Inr (k, scan')"
  shows "linked out_log in_log q k peer" and "gains kcp k"
proof -
  let ?h = "head_of s"
  define k0 where "k0 = ikcp_shrink_buf (ikcp_parse_una (kcp\<lparr>rmt_wnd := ucast (h_wnd ?h)\<rparr>) (h_una ?h))"
  have h: "h_una ?h \<le> rcv_nxt peer" using s by (simp add: honest_def head_of_def)
  have l0: "sender out_log kcp" "receiver in_log q kcp" "acks_ok kcp" "covered kcp peer"
    using l by (simp_all add: linked_def)
  note u = una_step [OF inv, of "h_wnd ?h" "h_una ?h", folded k0_def]
  note un = una_link [OF l0(1) h p, of "ucast (h_wnd ?h)", folded k0_def]
  note rf = same_rcv_frame [OF un(3)]
  have l1: "sender out_log k0" "receiver in_log q k0" "acks_ok k0" "covered k0 peer" "gains kcp k0"
    using un(1) un(2) [OF l0(4)] l0 rf by simp_all
  have cmd: "ucast (h_cmd ?h) = seg_cmd s"
    using s by (auto simp: honest_def head_of_def ikcp_consts)
  have run: "input_cmd al kcp ?h (seg_data s) scan =
     (if seg_cmd s = IKCP_CMD_ACK then Inr (input_ack k0 ?h scan)
      else if seg_cmd s = IKCP_CMD_PUSH then rbind (input_push al k0 ?h (seg_data s)) (\<lambda>kcp. Inr (kcp, scan))
      else if seg_cmd s = IKCP_CMD_WASK then Inr (k0\<lparr>probe := probe k0 OR IKCP_ASK_TELL\<rparr>, scan)
      else Inr (k0, scan))"
    unfolding input_cmd_def k0_def [symmetric] Let_def cmd by (rule refl)
  have "linked out_log in_log q k peer \<and> gains kcp k"
  proof (cases "seg_cmd s = IKCP_CMD_ACK")
    case True
    then have fst: "k = fst (input_ack k0 ?h scan)" using k run by (cases "input_ack k0 ?h scan") auto
    have "received peer (h_sn ?h)" using s True by (simp add: honest_def head_of_def)
    note a = ack_link [OF l1(1) this, of scan, folded fst]
    show ?thesis
      using a(1) a(2) [OF l1(4)] same_rcv_frame [OF a(3)] l1 gains_trans [OF l1(5)] by (simp add: linked_def)
  next
    case na: False
    show ?thesis
    proof (cases "seg_cmd s = IKCP_CMD_PUSH")
      case True
      then have push: "input_push al k0 ?h (seg_data s) = Inr k"
        using k run na by (auto simp: fault_simps)
      have "genuine in_log s" "seg_wf 65535 s" using s True by (simp_all add: honest_def sendable_def)
      moreover have "unat (ackcount k0) < 2 ^ 31" using cnt u(3) by simp
      ultimately have a: "same_snd k0 k" "receiver in_log q k" "acks_ok k" "gains k0 k"
        using push_link [OF u(1) al _ l1(2,3) _ _ push] by blast+
      then show ?thesis
        using same_snd_frame [OF a(1)] l1 gains_trans [OF l1(5) a(4)] by (simp add: linked_def)
    next
      case False
      then have "same_snd k0 k \<and> same_rcv k0 k"
        using k run na by (auto simp: same_snd_def same_rcv_def split: if_splits)
      then show ?thesis
        using same_snd_frame [of k0 k] same_rcv_frame [of k0 k] l1 gains_trans [OF l1(5)] by (simp add: linked_def)
    qed
  qed
  then show "linked out_log in_log q k peer" "gains kcp k" by auto
qed

section \<open>A datagram of the peer\<close>

definition carries :: "frag list \<Rightarrow> IKCPCB \<Rightarrow> bytes \<Rightarrow> bool" where
  "carries log kcp d \<longleftrightarrow>
     (\<exists>segs. segs \<noteq> [] \<and> d = concat (map wire_seg segs) \<and> (\<forall>s \<in> set segs. honest log kcp s))"

lemma carries_gains: "carries log kcp d \<Longrightarrow> gains kcp kcp' \<Longrightarrow> conv kcp' = conv kcp \<Longrightarrow> carries log kcp' d"
  unfolding carries_def using honest_gains by blast

lemma carries_append: "carries log kcp d \<Longrightarrow> carries (log @ new) kcp d"
  unfolding carries_def using honest_append by blast

lemma linked_gains: "linked out_log in_log q kcp peer \<Longrightarrow> gains peer peer' \<Longrightarrow> linked out_log in_log q kcp peer'"
  unfolding linked_def using covered_gains by blast

lemma linked_frame:
  assumes "same_snd kcp k" and "same_rcv kcp k"
  shows "linked out_log in_log q k peer = linked out_log in_log q kcp peer" and "gains kcp k"
  using same_snd_frame [OF assms(1)] same_rcv_frame [OF assms(2)] by (simp_all add: linked_def)

lemma feed_link:
  assumes "kcp_inv kcp" and al: "allocator_sound al" "allocator_total al"
    and "unat (ackcount kcp) + length segs < 2 ^ 31"
    and "linked out_log in_log q kcp peer" and s: "\<forall>s \<in> set segs. honest in_log peer s"
    and p: "unat (rcv_nxt peer) < 2 ^ 31"
    and "feed al segs (kcp, scan) = Inr (k, scan')"
  shows "linked out_log in_log q k peer \<and> gains kcp k"
  using assms(1,4,5,6,8)
proof (induction segs arbitrary: kcp scan)
  case (Cons s segs)
  have hs: "honest in_log peer s" using Cons.prems(4) by simp
  then have w: "seg_wf 65535 s" by (simp add: honest_def sendable_def)
  have cnt: "unat (ackcount kcp) < 2 ^ 31" using Cons.prems(2) by simp
  have len: "unat (h_len (head_of s)) \<le> length (seg_data s)" "unat (h_len (head_of s)) \<le> 65535"
    using w by (simp_all add: head_of_def seg_wf_def)
  obtain k1 scan1 where k1: "input_cmd al kcp (head_of s) (seg_data s) scan = Inr (k1, scan1)" "kcp_inv k1"
    "unat (ackcount k1) \<le> unat (ackcount kcp) + 1"
    using cmd_step [OF Cons.prems(1) al cnt len, of scan] by blast
  note c = cmd_link [OF Cons.prems(1) al cnt Cons.prems(3) hs p k1(1)]
  have "feed al segs (k1, scan1) = Inr (k, scan')" using Cons.prems(5) k1(1) by simp
  moreover have "unat (ackcount k1) + length segs < 2 ^ 31" using Cons.prems(2) k1(3) by simp
  ultimately have "linked out_log in_log q k peer \<and> gains k1 k"
    using Cons.IH [OF k1(2) _ c(1)] Cons.prems(4) by simp
  then show ?case using gains_trans [OF c(2)] by blast
qed simp

lemma sender_same_places:
  assumes "snd_nxt k = snd_nxt kcp" and "snd_queue k = snd_queue kcp"
    and m: "map (\<lambda>s. (seg_sn s, frag s)) (snd_buf k) = map (\<lambda>s. (seg_sn s, frag s)) (snd_buf kcp)"
  shows "sender log k = sender log kcp" and "covered k peer = covered kcp peer"
proof -
  have g: "(\<forall>s \<in> set p. genuine log s) \<longleftrightarrow>
      (\<forall>x \<in> set (map (\<lambda>s. (seg_sn s, frag s)) p). unat (fst x) < length log \<and> snd x = log ! unat (fst x))" for p
    by (simp add: genuine_def)
  show "sender log k = sender log kcp" unfolding sender_def g m assms(1,2) by (rule refl)
  have i: "seg_sn ` set p = fst ` set (map (\<lambda>s. (seg_sn s, frag s)) p)" for p
    by (simp add: image_image)
  show "covered k peer = covered kcp peer" unfolding covered_def i m assms(1) by (rule refl)
qed

lemma fastack_link:
  shows "linked out_log in_log q (ikcp_parse_fastack kcp sn ts) peer = linked out_log in_log q kcp peer"
    and "gains kcp (ikcp_parse_fastack kcp sn ts)"
proof -
  let ?k = "ikcp_parse_fastack kcp sn ts"
  have f: "snd_nxt ?k = snd_nxt kcp" "snd_queue ?k = snd_queue kcp" "same_rcv kcp ?k"
    by (simp_all add: ikcp_parse_fastack_def same_rcv_def)
  have m: "map (\<lambda>s. (seg_sn s, frag s)) (snd_buf ?k) = map (\<lambda>s. (seg_sn s, frag s)) (snd_buf kcp)"
    by (simp add: ikcp_parse_fastack_def fastack_loop_frame frag_def)
  note sf = sender_same_places [OF f(1,2) m]
  show "linked out_log in_log q ?k peer = linked out_log in_log q kcp peer"
    using sf same_rcv_frame [OF f(3)] by (simp add: linked_def)
  show "gains kcp ?k" by (rule same_rcv_frame [OF f(3)])
qed

lemma input_link:
  assumes inv: "kcp_inv kcp" and al: "allocator_sound al" "allocator_total al"
    and len: "length d \<le> 65535" and cnt: "unat (ackcount kcp) + length d < 2 ^ 31"
    and l: "linked out_log in_log q kcp peer" and d: "carries in_log peer d"
    and cv: "conv peer = conv kcp" and p: "unat (rcv_nxt peer) < 2 ^ 31"
    and k: "ikcp_input al kcp (Some d) (int (length d)) = Inr (r, k)"
  shows "linked out_log in_log q k peer" and "gains kcp k"
proof -
  obtain segs where segs: "segs \<noteq> []" "d = concat (map wire_seg segs)" "\<forall>s \<in> set segs. honest in_log peer s"
    using d by (auto simp: carries_def)
  have n: "24 \<le> length d" using segs(1,2) by (cases segs) (simp_all add: wire_seg_def)
  have s: "s32 (int (length d)) = int (length d)" using len by simp
  have c: "unat (ackcount kcp) + length segs < 2 ^ 31" using cnt length_wire_list [of segs] segs(2) by simp
  have "\<forall>s \<in> set segs. sendable (conv kcp) s" using segs(3) cv by (simp add: honest_def)
  from input_loop_wire [OF inv al this c, of "(False, 0, 0)"]
  obtain k0 flag ma ts where fd: "feed al segs (kcp, False, 0, 0) = Inr (k0, flag, ma, ts)"
    and il: "input_loop al kcp d (int (length d)) (False, 0, 0) = Inr (0, k0, flag, ma, ts)"
    and k0: "kcp_inv k0" unfolding segs(2) by auto
  note f = feed_link [OF inv al c l segs(3) p fd]
  let ?k1 = "if flag then ikcp_parse_fastack k0 ma ts else k0"
  have "kcp_inv ?k1" using k0 kcp_inv_fastack(1) [OF k0] by simp
  then obtain a b where cw: "input_cwnd (snd_una kcp) ?k1 = Inr (?k1\<lparr>cwnd := a, incr := b\<rparr>)"
    using input_cwnd_ok by blast
  have "ikcp_input al kcp (Some d) (int (length d)) = Inr (0, ?k1\<lparr>cwnd := a, incr := b\<rparr>)"
    using n unfolding ikcp_input_def option.case s il rbind_simps prod.case Let_def cw
    by (simp add: ikcp_consts split del: if_split)
  then have "k = ?k1\<lparr>cwnd := a, incr := b\<rparr>" using k by simp
  then have "same_snd ?k1 k \<and> same_rcv ?k1 k" by (simp add: same_snd_def same_rcv_def split del: if_split)
  note fr = linked_frame [OF conjunct1 [OF this] conjunct2 [OF this]]
  have k1: "linked out_log in_log q ?k1 peer \<and> gains k0 ?k1" using f fastack_link by simp
  show "linked out_log in_log q k peer" using k1 fr(1) by blast
  show "gains kcp k" using f k1 fr(2) gains_trans by blast
qed

end
