(* ===== verification/Kcp_Messages.thy ===== *)
theory Kcp_Messages
  imports Kcp_Link
begin

text \<open>
  The calls of a user at one end of a conversation, in terms of the logs: what a flush writes is true of
  the block, a sent message becomes a piece of the log, and the message \<^verbatim>\<open>ikcp_recv\<close> gives is the next one
  of the peer's log.
\<close>

section \<open>A flush\<close>

lemma admitted_eq:
  assumes "kcp_inv kcp"
  defines "n \<equiv> min (length (snd_queue kcp)) (unat (flush_cwnd kcp) - inflight kcp)"
  obtains a b c wnd d where "admitted kcp =
    (kcp\<lparr>ackcount := 0, ts_probe := a, probe_wait := b, probe := 0\<rparr>)
    \<lparr>snd_buf := snd_buf kcp @ map (\<lambda>i. admit kcp wnd (snd_queue kcp ! i) (snd_nxt kcp + of_nat i)) [0..<n],
     nsnd_que := c, nsnd_buf := d, snd_nxt := snd_nxt kcp + of_nat n, snd_queue := drop n (snd_queue kcp)\<rparr>"
proof -
  obtain a b c where pr: "flush_probe (kcp\<lparr>ackcount := 0\<rparr>) = kcp\<lparr>ackcount := 0, probe := a, ts_probe := b, probe_wait := c\<rparr>"
    by (rule flush_probe_frame)
  let ?k = "kcp\<lparr>ackcount := 0, ts_probe := b, probe_wait := c, probe := 0\<rparr>"
  have k: "admitted kcp = flush_move (flush_cwnd kcp) (flush_wnd kcp) (snd_queue ?k) ?k"
    unfolding admitted_def pr by simp
  have s: "snd_inv ?k" using assms snd_inv_frame [of ?k kcp] by (simp add: kcp_inv_def)
  have c: "unat (flush_cwnd kcp) \<le> 65535"
    using assms flush_cwnd_le(1) [of kcp] by (simp add: kcp_inv_def snd_inv_def snd_core_def)
  have i: "inflight ?k \<le> 65535" using snd_inv_core [OF s] by (simp add: snd_core_def)
  have f: "inflight ?k = inflight kcp" by (simp add: inflight_def)
  have ad: "admit ?k = admit kcp" by (intro ext) (simp add: admit_def)
  show thesis
    using flush_move_ok [OF i c, of "flush_wnd kcp" "snd_queue ?k", unfolded Let_def f ad]
    by (intro that [where a = b and b = c and c = "nsnd_que kcp - of_nat (min (length (snd_queue kcp)) (unat (flush_cwnd kcp) - inflight kcp))"
          and wnd = "flush_wnd kcp" and d = "nsnd_buf kcp + of_nat (min (length (snd_queue kcp)) (unat (flush_cwnd kcp) - inflight kcp))"])
      (simp add: k n_def)
qed

lemma frag_admit [simp]: "frag (admit kcp wnd s sn) = frag s"
  by (simp add: frag_def admit_def)

lemma admitted_link:
  assumes inv: "kcp_inv kcp" and l: "linked out_log in_log q kcp peer"
  defines "k \<equiv> admitted kcp"
  shows "linked out_log in_log q k peer" and "gains kcp k" and "rcv_nxt k = rcv_nxt kcp"
proof -
  define n where "n = min (length (snd_queue kcp)) (unat (flush_cwnd kcp) - inflight kcp)"
  define N where "N = unat (snd_nxt kcp)"
  obtain a b c wnd d where k: "k =
    (kcp\<lparr>ackcount := 0, ts_probe := a, probe_wait := b, probe := 0\<rparr>)
    \<lparr>snd_buf := snd_buf kcp @ map (\<lambda>i. admit kcp wnd (snd_queue kcp ! i) (snd_nxt kcp + of_nat i)) [0..<n],
     nsnd_que := c, nsnd_buf := d, snd_nxt := snd_nxt kcp + of_nat n, snd_queue := drop n (snd_queue kcp)\<rparr>"
    unfolding k_def n_def by (rule admitted_eq [OF inv])
  have s: "length out_log < 2 ^ 31" "N + length (snd_queue kcp) = length out_log"
    "map frag (snd_queue kcp) = drop N out_log" "\<forall>s \<in> set (snd_buf kcp). genuine out_log s"
    using l by (simp_all add: linked_def sender_def N_def)
  have nq: "n \<le> length (snd_queue kcp)" by (simp add: n_def)
  have num: "unat (snd_nxt kcp + of_nat i) = N + i" if "i \<le> n" for i
    using s(1,2) nq that unfolding N_def by (subst unat_add_small) (simp_all add: unat_of_nat)
  have new: "genuine out_log (admit kcp wnd (snd_queue kcp ! i) (snd_nxt kcp + of_nat i))" if "i < n" for i
  proof -
    have "frag (snd_queue kcp ! i) = map frag (snd_queue kcp) ! i" using that nq by simp
    also have "\<dots> = out_log ! (N + i)" unfolding s(3) using s(2) that nq by simp
    finally show ?thesis using s(2) that nq num [of i] by (simp add: genuine_def)
  qed
  have "map frag (snd_queue k) = drop (N + n) out_log"
    using s(3) by (simp add: k drop_map [symmetric] add.commute)
  then have "sender out_log k"
    using s nq num [of n] new by (auto simp: sender_def k)
  moreover have "covered k peer"
    unfolding covered_def
  proof (intro allI impI)
    fix sn assume sn: "sn < snd_nxt k"
    show "sn \<in> seg_sn ` set (snd_buf k) \<or> received peer sn"
    proof (cases "sn < snd_nxt kcp")
      case True
      then show ?thesis using l by (auto simp: linked_def covered_def k)
    next
      case False
      define i where "i = unat sn - N"
      have "N \<le> unat sn" "unat sn < N + n"
        using False sn num [of n] by (simp_all add: word_less_nat_alt N_def k)
      then have i: "i < n" "unat sn = N + i" by (simp_all add: i_def)
      then have "sn = snd_nxt kcp + of_nat i" using num [of i] by (simp add: word_unat_eq_iff)
      then have "sn = seg_sn (admit kcp wnd (snd_queue kcp ! i) (snd_nxt kcp + of_nat i))" by simp
      then have "sn \<in> seg_sn ` (\<lambda>i. admit kcp wnd (snd_queue kcp ! i) (snd_nxt kcp + of_nat i)) ` {0..<n}"
        using i(1) by (intro image_eqI [of _ _ "admit kcp wnd (snd_queue kcp ! i) (snd_nxt kcp + of_nat i)"] image_eqI [of _ _ i]) simp_all
      then show ?thesis by (auto simp: k)
    qed
  qed
  moreover have r: "rcv_nxt k = rcv_nxt kcp" "rcv_buf k = rcv_buf kcp" "rcv_queue k = rcv_queue kcp" "ackcount k = 0"
    by (simp_all add: k)
  moreover have "receiver in_log q k" using l receiver_frame [OF r(1-3)] by (simp add: linked_def)
  ultimately show "linked out_log in_log q k peer"
    by (simp add: linked_def acks_ok_def pending_acks_def)
  show "gains kcp k" using r(1,2) by (rule gains_frame)
  show "rcv_nxt k = rcv_nxt kcp" by (rule r(1))
qed

lemma resend_una: "due kcp resent s \<Longrightarrow> seg_una (resend kcp resent rtomin wnd s) = rcv_nxt kcp"
  by (simp add: due_def resend_def Let_def flush_stamp_def)

text \<open>Everything a flush writes is honest.\<close>

lemma reply_honest:
  assumes "c \<in> {IKCP_CMD_ACK, IKCP_CMD_WASK, IKCP_CMD_WINS}" and "c = IKCP_CMD_ACK \<Longrightarrow> received kcp sn"
  shows "\<exists>s. ikcp_encode_seg ((reply_seg kcp)\<lparr>seg_cmd := c, seg_sn := sn, seg_ts := ts\<rparr>) = wire_seg s \<and> honest log kcp s"
  using assms
  by (intro exI [of _ "(reply_seg kcp)\<lparr>seg_cmd := c, seg_sn := sn, seg_ts := ts\<rparr>"])
    (auto simp: honest_def wire_seg_def sendable_def reply_seg_def seg_wf_def known_cmd_def ikcp_consts)

lemma flush_items_honest:
  assumes inv: "kcp_inv kcp" and mtu: "unat (mtu kcp) \<le> 65535" and l: "linked log in_log q kcp peer"
    and x: "x \<in> set (ack_items kcp @ ctl_items kcp sn ts @ data_items kcp)"
  shows "\<exists>s. x = wire_seg s \<and> honest log kcp s"
proof -
  consider "x \<in> set (ack_items kcp)" | "x \<in> set (ctl_items kcp sn ts)" | "x \<in> set (data_items kcp)"
    using x by auto
  then show ?thesis
  proof cases
    case 1
    have eq: "(reply_seg kcp)\<lparr>seg_sn := a, seg_ts := b\<rparr> = (reply_seg kcp)\<lparr>seg_cmd := IKCP_CMD_ACK, seg_sn := a, seg_ts := b\<rparr>" for a b
      by (simp add: reply_seg_def)
    from 1 obtain a b where ab: "(a, b) \<in> set (pending_acks kcp)"
      "x = ikcp_encode_seg ((reply_seg kcp)\<lparr>seg_sn := a, seg_ts := b\<rparr>)"
      by (auto simp: ack_items_def)
    have "received kcp a" using l ab(1) by (auto simp: linked_def acks_ok_def)
    then show ?thesis using reply_honest [of IKCP_CMD_ACK kcp a b log] unfolding ab(2) eq by auto
  next
    case 2
    have eq: "(reply_seg kcp)\<lparr>seg_sn := sn, seg_ts := ts, seg_cmd := c\<rparr> = (reply_seg kcp)\<lparr>seg_cmd := c, seg_sn := sn, seg_ts := ts\<rparr>" for c
      by simp
    have ne: "IKCP_CMD_WASK \<noteq> IKCP_CMD_ACK" "IKCP_CMD_WINS \<noteq> IKCP_CMD_ACK" by (simp_all add: ikcp_consts)
    have "x = ikcp_encode_seg ((reply_seg kcp)\<lparr>seg_cmd := IKCP_CMD_WASK, seg_sn := sn, seg_ts := ts\<rparr>) \<or>
        x = ikcp_encode_seg ((reply_seg kcp)\<lparr>seg_cmd := IKCP_CMD_WINS, seg_sn := sn, seg_ts := ts\<rparr>)"
      using 2 unfolding ctl_items_def wnd_items_def eq by (auto split: if_splits)
    then show ?thesis
      using reply_honest [of IKCP_CMD_WASK kcp sn ts log] reply_honest [of IKCP_CMD_WINS kcp sn ts log] ne by auto
  next
    case 3
    let ?k = "admitted kcp"
    let ?r = "resend ?k (flush_resent ?k) (flush_rtomin ?k) (flush_wnd kcp)"
    from 3 obtain s where s: "s \<in> set (snd_buf ?k)" "due ?k (flush_resent ?k) s" "x = wire_seg (?r s)"
      by (auto simp: data_items_def Let_def)
    have i: "snd_inv ?k" "unat (mss ?k) \<le> 65535"
      using admitted_inv [OF inv] mtu by (auto simp: kcp_inv_def cfg_inv_def)
    have w: "seg_wf (unat (mss ?k)) s" "pushed (conv kcp) s"
      using snd_inv_core [OF i(1)] s(1) by (auto simp: snd_core_def)
    note al = admitted_link [OF inv l]
    have "genuine log s" using al(1) s(1) by (simp add: linked_def sender_def)
    then have "genuine log (?r s)" using genuine_same [of "?r s" s log] by (simp add: frag_def)
    moreover have "sendable (conv kcp) (?r s)"
      using i(2) w seg_wf_mono [of "unat (mss ?k)" "?r s" 65535]
      by (simp add: sendable_def pushed_def known_cmd_def ikcp_consts)
    moreover have "seg_cmd (?r s) = IKCP_CMD_PUSH" using w(2) by (simp add: pushed_def)
    moreover have "seg_una (?r s) = rcv_nxt kcp" using resend_una [OF s(2)] al(3) by simp
    ultimately have "honest log kcp (?r s)" by (simp add: honest_def ikcp_consts)
    with s(3) show ?thesis by blast
  qed
qed

lemma stream_admitted [simp]: "stream (admitted kcp) = stream kcp"
proof -
  have "stream (flush_move cw wnd q kcp) = stream kcp" for cw wnd q and kcp :: IKCPCB
    by (induction cw wnd q kcp rule: flush_move.induct) (simp_all add: Let_def)
  then show ?thesis by (simp add: admitted_def flush_probe_def Let_def)
qed

lemma flush_link:
  assumes inv: "kcp_inv kcp" and cb: "output_cb kcp" and cnt: "unat (ackcount kcp) < 2 ^ 31"
    and mtu: "unat (mtu kcp) \<le> 65535" and l: "linked out_log in_log q kcp peer"
    and f: "ikcp_flush kcp = Inr (k, outs)"
  shows "linked out_log in_log q k peer" and "gains kcp k"
    and "conv k = conv kcp" and "mtu k = mtu kcp" and "stream k = stream kcp"
    and "\<forall>d \<in> set outs. carries out_log k d \<and> length d \<le> 65535"
proof -
  have "linked out_log in_log q k peer \<and> gains kcp k \<and> conv k = conv kcp \<and> mtu k = mtu kcp \<and> stream k = stream kcp \<and>
    (\<forall>d \<in> set outs. carries out_log k d \<and> length d \<le> 65535)"
  proof (cases "updated kcp = 0")
    case True
    then have "k = kcp" "outs = []" using f by (simp_all add: ikcp_flush_def)
    then show ?thesis using l by simp
  next
    case False
    obtain gs sn ts where gs: "outs = map concat gs"
      "concat gs = ack_items kcp @ ctl_items kcp sn ts @ data_items kcp"
      and d: "\<forall>d \<in> set outs. d \<noteq> [] \<and> length d \<le> unat (mtu kcp)" and r: "flush_result kcp k"
      using flush_ok [OF inv cb cnt False] f by auto
    let ?k = "admitted kcp"
    let ?r = "resend ?k (flush_resent ?k) (flush_rtomin ?k) (flush_wnd kcp)"
    obtain a b c' d' e where k: "k = ?k\<lparr>xmit := a, state := b, snd_buf := map ?r (snd_buf ?k),
        ssthresh := c', cwnd := d', incr := e\<rparr>"
      using r unfolding flush_result_def Let_def by blast
    note al = admitted_link [OF inv l]
    have s: "snd_nxt k = snd_nxt ?k" "snd_queue k = snd_queue ?k" "same_rcv ?k k" "conv k = conv kcp"
      "mtu k = mtu kcp" "stream k = stream kcp"
      "map (\<lambda>s. (seg_sn s, frag s)) (snd_buf k) = map (\<lambda>s. (seg_sn s, frag s)) (snd_buf ?k)"
      by (simp_all add: k same_rcv_def frag_def admitted_inv(3) [OF inv])
    have lk: "linked out_log in_log q k peer"
      using sender_same_places [OF s(1,2,7)] same_rcv_frame [OF s(3)] al(1) by (simp add: linked_def)
    have g: "gains kcp k" using same_rcv_frame(3) [OF s(3)] al(2) gains_trans by blast
    have "carries out_log k x \<and> length x \<le> 65535" if "x \<in> set outs" for x
    proof -
      obtain g where g: "g \<in> set gs" "x = concat g" using gs(1) \<open>x \<in> set outs\<close> by auto
      have "\<forall>y \<in> set g. \<exists>s. y = wire_seg s \<and> honest out_log kcp s"
      proof
        fix y assume "y \<in> set g"
        then have "y \<in> set (concat gs)" using g(1) by auto
        then show "\<exists>s. y = wire_seg s \<and> honest out_log kcp s"
          unfolding gs(2) by (rule flush_items_honest [OF inv mtu l])
      qed
      from wire_list [OF this] obtain segs where segs: "g = map wire_seg segs" "\<forall>s \<in> set segs. honest out_log kcp s"
        by blast
      have "x \<noteq> []" using d \<open>x \<in> set outs\<close> by blast
      then have "segs \<noteq> []" using g(2) segs(1) by auto
      then have "carries out_log kcp x"
        unfolding carries_def using g(2) segs by (intro exI [of _ segs]) simp
      then show ?thesis using carries_gains [OF _ \<open>gains kcp k\<close> s(4)] d \<open>x \<in> set outs\<close> mtu by fastforce
    qed
    with lk g s(4-6) show ?thesis by blast
  qed
  then show "linked out_log in_log q k peer" "gains kcp k" "conv k = conv kcp" "mtu k = mtu kcp" "stream k = stream kcp"
    "\<forall>d \<in> set outs. carries out_log k d \<and> length d \<le> 65535" by blast+
qed

lemma linked_clock:
  "linked out_log in_log q (kcp\<lparr>current := a, updated := b, ts_flush := c\<rparr>) peer = linked out_log in_log q kcp peer"
  "gains kcp (kcp\<lparr>current := a, updated := b, ts_flush := c\<rparr>)"
proof -
  have "same_snd kcp (kcp\<lparr>current := a, updated := b, ts_flush := c\<rparr>)"
    "same_rcv kcp (kcp\<lparr>current := a, updated := b, ts_flush := c\<rparr>)"
    by (simp_all add: same_snd_def same_rcv_def)
  note f = linked_frame [OF this]
  show "linked out_log in_log q (kcp\<lparr>current := a, updated := b, ts_flush := c\<rparr>) peer = linked out_log in_log q kcp peer"
    "gains kcp (kcp\<lparr>current := a, updated := b, ts_flush := c\<rparr>)" by (rule f)+
qed

lemma update_link:
  assumes inv: "kcp_inv kcp" and cb: "output_cb kcp" and cnt: "unat (ackcount kcp) < 2 ^ 31"
    and mtu: "unat (mtu kcp) \<le> 65535" and l: "linked out_log in_log q kcp peer"
    and u: "ikcp_update kcp cur = Inr (k, outs)"
  shows "linked out_log in_log q k peer \<and> gains kcp k \<and> conv k = conv kcp \<and> mtu k = mtu kcp \<and> stream k = stream kcp \<and>
    (\<forall>d \<in> set outs. carries out_log k d \<and> length d \<le> 65535)"
proof (cases rule: update_cases [of kcp cur])
  case (wait a b)
  then show ?thesis using u l linked_clock by auto
next
  case (flush a b)
  let ?k = "kcp\<lparr>current := cur, updated := a, ts_flush := b\<rparr>"
  have "linked out_log in_log q ?k peer" using l by (simp only: linked_clock)
  then have "linked out_log in_log q k peer \<and> gains ?k k \<and> conv k = conv ?k \<and> mtu k = mtu ?k \<and> stream k = stream ?k \<and>
      (\<forall>d \<in> set outs. carries out_log k d \<and> length d \<le> 65535)"
    using flush_link [of ?k out_log in_log q peer k outs] assms flush(1) by simp
  moreover have "gains kcp ?k" by (rule linked_clock)
  ultimately show ?thesis using gains_trans [of kcp ?k k] by simp
qed

section \<open>Messages\<close>

text \<open>
  The fragments of one message: numbered downwards to zero, and together the message. A log is cut
  into the messages its sender accepted.
\<close>

definition is_msg :: "frag list \<Rightarrow> bytes \<Rightarrow> bool" where
  "is_msg fs m \<longleftrightarrow> fs \<noteq> [] \<and> length fs \<le> 128 \<and> map fst fs = map of_nat (rev [0..<length fs]) \<and> concat (map snd fs) = m"

lemma frags_of_msg:
  assumes "frags_of segs (chunks m n buf)" and "0 < n" and "n \<le> 128" and "length buf \<le> n * m"
  shows "is_msg (map frag segs) buf"
proof -
  let ?ds = "chunks m n buf"
  have len: "length segs = n" using assms(1) by (simp add: frags_of_def)
  have at: "seg_data (segs ! i) = ?ds ! i" "seg_frg (segs ! i) = of_nat (n - 1 - i)" if "i < n" for i
    using assms(1) that by (simp_all add: frags_of_def is_frag_def)
  have "map seg_data segs = ?ds" by (rule nth_equalityI) (simp_all add: len at)
  moreover have "map seg_frg segs = map of_nat (rev [0..<n])"
    by (rule nth_equalityI) (simp_all add: len at rev_nth)
  ultimately show ?thesis
    using assms(2-4) len concat_chunks [OF assms(4)] by (auto simp: is_msg_def frag_def comp_def)
qed

lemma send_link:
  assumes l: "linked out_log in_log q kcp peer" and cfg: "cfg_inv kcp" and al: "allocator_total al"
    and st: "stream kcp = 0" and len: "length buf < 2 ^ 31"
    and room: "length out_log + frag_count kcp (length buf) < 2 ^ 31"
    and k: "ikcp_send al kcp buf (int (length buf)) = Inr (r, k)"
  shows "gains kcp k \<and> conv k = conv kcp \<and> mtu k = mtu kcp \<and> stream k = stream kcp \<and>
    (r < 0 \<and> linked out_log in_log q k peer \<or>
     0 \<le> r \<and> (\<exists>fs. is_msg fs buf \<and> length (out_log @ fs) < 2 ^ 31 \<and> linked (out_log @ fs) in_log q k peer))"
proof -
  have m: "0 < unat (mss kcp)" "unat (mss kcp) < 2 ^ 31" using cfg by (auto simp: cfg_inv_def)
  have al': "\<And>n. new_seg al n \<noteq> None" using al by (simp add: allocator_total_def)
  let ?n = "frag_count kcp (length buf)"
  show ?thesis
  proof (cases "?n < 128")
    case False
    then have "r = -2 \<and> k = kcp" using send_message_too_big [OF m st len] k by simp
    then show ?thesis using l by simp
  next
    case True
    obtain segs where s: "r = int (length buf)"
      "k = kcp\<lparr>snd_queue := snd_queue kcp @ segs, nsnd_que := nsnd_que kcp + of_nat (length segs)\<rparr>"
      "frags_of segs (chunks (unat (mss kcp)) ?n buf)"
      using send_message_ok [OF al' m st len True] k by auto
    have "length buf \<le> ?n * unat (mss kcp)" unfolding frag_count_def by (rule count_fits) (rule m)
    then have msg: "is_msg (map frag segs) buf"
      using s(3) frag_count_pos [OF m(1), of "length buf"] True by (intro frags_of_msg) simp_all
    have n: "length segs = ?n" using s(3) by (simp add: frags_of_def)
    have rcv: "same_rcv kcp k" by (simp add: s(2) same_rcv_def)
    have "sender (out_log @ map frag segs) k"
      using l room n by (auto simp: linked_def sender_def s(2) genuine_append)
    moreover have "covered k peer" using l by (simp add: linked_def covered_def s(2))
    ultimately have "linked (out_log @ map frag segs) in_log q k peer"
      using l same_rcv_frame [OF rcv] by (simp add: linked_def)
    then show ?thesis
      using same_rcv_frame(3) [OF rcv] msg room n s(1)
      by (intro conjI disjI2 exI [of _ "map frag segs"]) (simp_all add: s(2))
  qed
qed

definition cut_in :: "frag list list \<Rightarrow> bytes list \<Rightarrow> bool" where
  "cut_in fss msgs \<longleftrightarrow> list_all2 is_msg fss msgs"

text \<open>Where the fragments of message number \<open>n\<close> begin in the log.\<close>

definition start_of :: "frag list list \<Rightarrow> nat \<Rightarrow> nat" where
  "start_of fss n = length (concat (take n fss))"

lemma start_of_Suc: "n < length fss \<Longrightarrow> start_of fss (Suc n) = start_of fss n + length (fss ! n)"
  by (simp add: start_of_def take_Suc_conv_app_nth)

lemma drop_start: "n < length fss \<Longrightarrow> drop (start_of fss n) (concat fss) = fss ! n @ concat (drop (Suc n) fss)"
proof -
  assume n: "n < length fss"
  have "concat fss = concat (take n fss) @ concat (drop n fss)"
    by (simp only: concat_append [symmetric] append_take_drop_id)
  then have "drop (start_of fss n) (concat fss) = concat (drop n fss)" by (simp add: start_of_def)
  then show ?thesis using n by (simp add: Cons_nth_drop_Suc [symmetric])
qed

lemma first_msg_frags:
  assumes "map seg_frg a = map of_nat (rev [0..<length a])" and "a \<noteq> []" and "length a \<le> 128"
  shows "first_msg (a @ b) = a" and "later_msgs (a @ b) = b"
proof -
  have "first_msg (a @ b) = a \<and> later_msgs (a @ b) = b"
    using assms
  proof (induction a)
    case (Cons s a)
    then have s: "seg_frg s = of_nat (length a)" "map seg_frg a = map of_nat (rev [0..<length a])" by simp_all
    show ?case
    proof (cases "a = []")
      case False
      then have "unat (of_nat (length a) :: u32) \<noteq> 0" using Cons.prems(3) by (simp add: unat_of_nat)
      then have "seg_frg s \<noteq> 0" unfolding s(1) by (metis unat_0)
      then show ?thesis using Cons.IH [OF s(2) False] Cons.prems(3) by simp
    qed (use s(1) in simp)
  qed simp
  then show "first_msg (a @ b) = a" "later_msgs (a @ b) = b" by simp_all
qed

lemma frag_proj: "map seg_frg q = map fst (map frag q)" "payload q = concat (map snd (map frag q))"
  by (simp_all add: frag_def comp_def payload_def)

lemma is_msg_frg: "is_msg fs m \<Longrightarrow> fst (hd fs) = of_nat (length fs - 1)"
proof -
  assume m: "is_msg fs m"
  then obtain f fs' where "fs = f # fs'" by (cases fs) (simp_all add: is_msg_def)
  with m show ?thesis by (simp add: is_msg_def)
qed

text \<open>A complete message at the head of the receive queue is the next message of the log.\<close>

lemma complete_msg:
  assumes r: "receiver (concat fss) (start_of fss n) kcp" and inv: "rcv_inv kcp" and cut: "cut_in fss msgs"
    and n: "n \<le> length msgs" and c: "msg_complete kcp"
  obtains a b where "rcv_queue kcp = a @ b" and "first_msg (rcv_queue kcp) = a" and "later_msgs (rcv_queue kcp) = b"
    and "n < length msgs" and "payload a = msgs ! n" and "length a = length (fss ! n)"
proof -
  let ?q = "rcv_queue kcp" and ?st = "start_of fss n" and ?r = "unat (rcv_nxt kcp)"
  obtain s q where sq: "?q = s # q" using c by (cases ?q) (simp_all add: msg_complete_def)
  have f: "map frag ?q = drop ?st (take ?r (concat fss))" "?r \<le> length (concat fss)"
    using r by (simp_all add: receiver_def)
  have lf: "length fss = length msgs" using cut by (simp add: cut_in_def list_all2_lengthD)
  have lq: "length ?q = ?r - ?st" using f(1,2) by (metis length_drop length_map length_take min.absorb2)
  have n': "n < length msgs"
  proof (rule ccontr)
    assume "\<not> n < length msgs"
    then have "?st = length (concat fss)" using lf by (simp add: start_of_def)
    then show False using lq f(2) sq by simp
  qed
  let ?fs = "fss ! n"
  have m: "is_msg ?fs (msgs ! n)" using cut n' by (simp add: cut_in_def list_all2_nthD2)
  then have fs: "?fs \<noteq> []" "length ?fs \<le> 128" "map fst ?fs = map of_nat (rev [0..<length ?fs])"
    "concat (map snd ?fs) = msgs ! n" by (simp_all add: is_msg_def)
  have "drop ?st (take ?r (concat fss)) = take (?r - ?st) (?fs @ concat (drop (Suc n) fss))"
    using drop_start [of n fss] n' lf by (simp add: drop_take)
  then have mq: "map frag ?q = take (length ?q) (?fs @ concat (drop (Suc n) fss))" using f(1) lq by simp
  have "hd (map frag ?q) = hd ?fs" unfolding mq using sq fs(1) by (cases ?fs) simp_all
  then have "frag s = hd ?fs" using sq by simp
  then have hd: "seg_frg s = of_nat (length ?fs - 1)" using is_msg_frg [OF m] by (metis frag_def fst_conv)
  have u: "unat (of_nat (length ?fs - 1) :: u32) = length ?fs - 1" using fs(2) by (simp add: unat_of_nat)
  have long: "length ?fs \<le> length ?q"
  proof (cases "seg_frg s = 0")
    case True
    then have "length ?fs - 1 = 0" using hd u by (metis unat_0)
    then show ?thesis using sq by simp
  next
    case False
    then have "\<not> nrcv_que kcp < seg_frg s + 1" using c sq by (simp add: msg_complete_def)
    moreover have "unat (nrcv_que kcp) = length ?q" using inv by (simp add: rcv_inv_def unat_of_nat)
    moreover have "unat (seg_frg s + 1) = length ?fs"
      using hd u fs(1,2) by (subst unat_Suc_small) (cases ?fs; simp)+
    ultimately show ?thesis by (simp add: word_less_nat_alt)
  qed
  define a where "a = take (length ?fs) ?q"
  define b where "b = drop (length ?fs) ?q"
  have ab: "?q = a @ b" by (simp add: a_def b_def)
  have ma: "map frag a = ?fs" using long mq by (simp add: a_def take_map [symmetric])
  then have la: "length a = length ?fs" by (metis length_map)
  have "map seg_frg a = map of_nat (rev [0..<length a])" unfolding frag_proj(1) ma la by (rule fs(3))
  note fm = first_msg_frags [OF this _, of b]
  have "a \<noteq> []" "length a \<le> 128" using la fs(1,2) by auto
  then have "first_msg ?q = a" "later_msgs ?q = b" unfolding ab by (rule fm)+
  moreover have "payload a = msgs ! n" unfolding frag_proj(2) ma by (rule fs(4))
  ultimately show thesis using that ab n' la by blast
qed

lemma recv_link:
  assumes l: "linked out_log (concat fss) (start_of fss n) kcp peer" and inv: "rcv_inv kcp"
    and cut: "cut_in fss msgs" and n: "n \<le> length msgs"
    and k: "ikcp_recv kcp len = Inr (r, out, k)"
  shows "gains kcp k \<and> conv k = conv kcp \<and> mtu k = mtu kcp \<and> stream k = stream kcp \<and>
    (if r < 0 \<or> len < 0 then linked out_log (concat fss) (start_of fss n) k peer
     else n < length msgs \<and> out = msgs ! n \<and> linked out_log (concat fss) (start_of fss (Suc n)) k peer)"
proof (cases "r < 0")
  case True
  then have "k = kcp" using k unfolding recv_spec [OF inv] Let_def by (auto split: if_splits)
  then show ?thesis using True l by simp
next
  case False
  then have c: "msg_complete kcp" and out: "out = payload (first_msg (rcv_queue kcp))" and k: "k = after_recv kcp (len < 0)"
    using k unfolding recv_spec [OF inv] Let_def by (auto split: if_splits)
  have r: "receiver (concat fss) (start_of fss n) kcp" using l by (simp add: linked_def)
  obtain a b where ab: "rcv_queue kcp = a @ b" "first_msg (rcv_queue kcp) = a" "later_msgs (rcv_queue kcp) = b"
    and m: "n < length msgs" "payload a = msgs ! n" "length a = length (fss ! n)"
    using complete_msg [OF r inv cut n c] by blast
  have lf: "length fss = length msgs" using cut by (simp add: cut_in_def list_all2_lengthD)
  define q where "q = (if len < 0 then start_of fss n else start_of fss (Suc n))"
  let ?k0 = "if len < 0 then kcp
      else kcp\<lparr>rcv_queue := later_msgs (rcv_queue kcp),
               nrcv_que := nrcv_que kcp - of_nat (length (first_msg (rcv_queue kcp)))\<rparr>"
  have inv0: "rcv_inv ?k0" using inv rcv_inv_drop_msg [OF inv] by simp
  have r0: "receiver (concat fss) q ?k0"
  proof (cases "len < 0")
    case False
    let ?r = "unat (rcv_nxt kcp)" and ?st = "start_of fss n"
    have f: "map frag (rcv_queue kcp) = drop ?st (take ?r (concat fss))" "?r \<le> length (concat fss)"
      using r by (simp_all add: receiver_def)
    then have "length a + length b = ?r - ?st"
      using ab(1) by (metis length_append length_drop length_map length_take min.absorb2)
    moreover have "?st \<le> ?r" using r by (simp add: receiver_def)
    ultimately have "?st + length a \<le> ?r" by simp
    moreover have "map frag b = drop (?st + length a) (take ?r (concat fss))"
    proof -
      have "map frag b = drop (length a) (map frag (rcv_queue kcp))" by (simp add: ab(1))
      then show ?thesis unfolding f(1) by (simp add: add.commute)
    qed
    ultimately show ?thesis
      using r False ab m lf start_of_Suc [of n fss] by (simp add: receiver_def q_def)
  qed (use r in \<open>simp add: q_def\<close>)
  have g0: "gains kcp ?k0" by (rule gains_frame) simp_all
  note mv = receiver_move [OF r0 inv0]
  have fr: "rcv_nxt k = rcv_nxt (move_available ?k0)" "rcv_buf k = rcv_buf (move_available ?k0)"
    "rcv_queue k = rcv_queue (move_available ?k0)"
    unfolding k after_recv_def Let_def by simp_all
  have rk: "receiver (concat fss) q k" using mv(1) receiver_frame [OF fr] by simp
  have g: "gains kcp k"
    using gains_trans [OF gains_trans [OF g0 mv(2)] gains_frame [OF fr(1,2)]] .
  obtain a' b' c' d' e' g' where u: "k = kcp\<lparr>rcv_buf := a', nrcv_buf := b', rcv_queue := c', nrcv_que := d',
      rcv_nxt := e', probe := g'\<rparr>"
    unfolding k by (rule after_recv_upd [OF inv])
  have s: "same_snd kcp k" "pending_acks k = pending_acks kcp" "conv k = conv kcp" "mtu k = mtu kcp" "stream k = stream kcp"
    unfolding u by (simp_all add: same_snd_def pending_acks_def)
  have "acks_ok k" using l g unfolding linked_def acks_ok_def gains_def s(2) by blast
  then have "linked out_log (concat fss) q k peer"
    using l rk same_snd_frame [OF s(1)] by (simp add: linked_def)
  then show ?thesis using False g s(3-5) m out ab(2) by (cases "len < 0") (simp_all add: q_def)
qed

end
