(* ===== verification/Kcp_Network.thy ===== *)
theory Kcp_Network
  imports Kcp_Messages
begin

text \<open>
  Two control blocks of one conversation and the network between them. The network keeps every
  datagram an end has ever given to its output callback and may hand any of them to the other end, at
  any time and any number of times: it loses, repeats and reorders as it likes, but it makes up
  nothing. The calls of both ends and the deliveries are a \<open>safe_machine\<close>; its invariant says what the
  users of \<^verbatim>\<open>ikcp_send\<close> and \<^verbatim>\<open>ikcp_recv\<close> get in spite of the network.
\<close>

section \<open>Two ends and the network\<close>

text \<open>
  An end has its control block, the messages \<^verbatim>\<open>ikcp_send\<close> accepted, the messages \<^verbatim>\<open>ikcp_recv\<close> gave, and
  every datagram it has sent. The two ends of a link are the values at \<^const>\<open>True\<close> and \<^const>\<open>False\<close>.
\<close>

record endpoint =
  ep_block :: IKCPCB
  ep_sent :: "bytes list"
  ep_got :: "bytes list"
  ep_out :: "bytes list"

type_synonym link = "bool \<Rightarrow> endpoint"

text \<open>
  \<open>Call_by x c\<close>: end \<open>x\<close> makes a call. \<open>Deliver_to x i\<close>: the network hands end \<open>x\<close> the datagram number \<open>i\<close> of all
  that the other end ever sent. A datagram that is never chosen is lost, one that is chosen twice is
  duplicated, and the choice need not follow the order of sending.
\<close>

datatype link_event = Call_by bool call | Deliver_to bool nat

fun note_call :: "call \<Rightarrow> answer \<Rightarrow> IKCPCB \<Rightarrow> endpoint \<Rightarrow> endpoint" where
  "note_call c (r, out, outs) kcp e =
     e\<lparr>ep_block := kcp,
       ep_sent := ep_sent e @ (case c of Send m \<Rightarrow> if r < 0 then [] else [m] | _ \<Rightarrow> []),
       ep_got := ep_got e @ (case c of Recv len \<Rightarrow> if r < 0 \<or> len < 0 then [] else [out] | _ \<Rightarrow> []),
       ep_out := ep_out e @ outs\<rparr>"

definition end_call :: "allocator \<Rightarrow> call \<Rightarrow> endpoint \<Rightarrow> (int \<times> endpoint) res" where
  "end_call al c e =
     rbind (kcp_step al c (ep_block e)) (\<lambda>(a, kcp). Inr (fst a, note_call c a kcp e))"

fun event_end :: "link_event \<Rightarrow> bool" where
  "event_end (Call_by x c) = x"
| "event_end (Deliver_to x i) = x"

fun event_call :: "link_event \<Rightarrow> link \<Rightarrow> call" where
  "event_call (Call_by x c) l = c"
| "event_call (Deliver_to x i) l = Input (ep_out (l (\<not> x)) ! i)"

definition link_step :: "link_event \<Rightarrow> allocator \<times> link \<Rightarrow> (int \<times> allocator \<times> link) res" where
  "link_step ev s =
     (case s of (al, l) \<Rightarrow>
        rbind (end_call al (event_call ev l) (l (event_end ev)))
          (\<lambda>(r, e). Inr (r, al, l(event_end ev := e))))"

text \<open>
  The guards: those of the calls; nobody but the network feeds datagrams in, and only datagrams that
  were sent; an end sends fewer than \<open>2 ^ 31\<close> fragments in all, and a datagram fits UDP.
\<close>

fun end_ok_call :: "call \<Rightarrow> IKCPCB \<Rightarrow> bool" where
  "end_ok_call (Send m) kcp \<longleftrightarrow> int (length m) < 2 ^ 31 \<and>
     uint (snd_nxt kcp) + int (length (snd_queue kcp)) + int (frag_count kcp (length m)) < 2 ^ 31"
| "end_ok_call (Input d) kcp \<longleftrightarrow> False"
| "end_ok_call (Setmtu m) kcp \<longleftrightarrow> m \<le> 65535 \<and> call_ok (Setmtu m) kcp"
| "end_ok_call c kcp \<longleftrightarrow> call_ok c kcp"

fun link_guard :: "link_event \<Rightarrow> link \<Rightarrow> bool" where
  "link_guard (Call_by x c) l \<longleftrightarrow> end_ok_call c (ep_block (l x))"
| "link_guard (Deliver_to x i) l \<longleftrightarrow> i < length (ep_out (l (\<not> x))) \<and>
     uint (ackcount (ep_block (l x))) + int (length (ep_out (l (\<not> x)) ! i)) < 2 ^ 31"

definition link_ok :: "link_event \<Rightarrow> allocator \<times> link \<Rightarrow> bool" where
  "link_ok ev s = link_guard ev (snd s)"

definition start_end :: "IKCPCB \<Rightarrow> endpoint" where
  "start_end kcp = \<lparr>ep_block = kcp, ep_sent = [], ep_got = [], ep_out = []\<rparr>"

section \<open>The invariant of a link\<close>

definition end_inv :: "frag list list \<Rightarrow> frag list list \<Rightarrow> endpoint \<Rightarrow> endpoint \<Rightarrow> bool" where
  "end_inv fs fs' e e' \<longleftrightarrow>
     cut_in fs (ep_sent e) \<and> length (concat fs) < 2 ^ 31 \<and>
     api_inv (ep_block e) \<and> unat (mtu (ep_block e)) \<le> 65535 \<and> stream (ep_block e) = 0 \<and>
     conv (ep_block e) = conv (ep_block e') \<and>
     (\<forall>d \<in> set (ep_out e). carries (concat fs) (ep_block e) d \<and> length d \<le> 65535) \<and>
     prefix (ep_got e) (ep_sent e') \<and>
     linked (concat fs) (concat fs') (start_of fs' (length (ep_got e))) (ep_block e) (ep_block e')"

definition link_inv :: "link \<Rightarrow> bool" where
  "link_inv l \<longleftrightarrow> (\<exists>fs. \<forall>x. end_inv (fs x) (fs (\<not> x)) (l x) (l (\<not> x)))"

text \<open>A step of one end seen from the other one: it gains fragments and may have cut a new message.\<close>

lemma end_inv_peer:
  assumes e: "end_inv fs fs' e e'" and g: "gains (ep_block e') (ep_block e1)"
    and c: "conv (ep_block e1) = conv (ep_block e')"
    and new: "fs1 = fs' @ fs2" "ep_sent e1 = ep_sent e' @ msgs" "length (concat fs1) < 2 ^ 31"
    and n: "length fs' = length (ep_sent e')"
  shows "end_inv fs fs1 e e1"
proof -
  let ?n = "length (ep_got e)"
  have p: "prefix (ep_got e) (ep_sent e')" "linked (concat fs) (concat fs') (start_of fs' ?n) (ep_block e) (ep_block e')"
    using e by (simp_all add: end_inv_def)
  have "?n \<le> length fs'" using prefix_length_le [OF p(1)] n by simp
  then have st: "start_of fs1 ?n = start_of fs' ?n" by (simp add: start_of_def new(1))
  have r: "receiver (concat fs1) (start_of fs1 ?n) (ep_block e)"
    unfolding st using p(2) new(1,3) receiver_append [of "concat fs'" _ _ "concat fs2"]
    by (simp add: linked_def)
  have "linked (concat fs) (concat fs1) (start_of fs1 ?n) (ep_block e) (ep_block e1)"
    using p(2) r covered_gains [OF _ g] by (simp add: linked_def)
  moreover have "prefix (ep_got e) (ep_sent e1)" using p(1) new(2) by (simp add: prefix_prefix)
  ultimately show ?thesis using e c by (simp add: end_inv_def)
qed

section \<open>A step keeps the invariant\<close>

definition advances :: "frag list list \<Rightarrow> frag list list \<Rightarrow> endpoint \<Rightarrow> endpoint \<Rightarrow> endpoint \<Rightarrow> bool" where
  "advances fs fs' e e' e1 \<longleftrightarrow>
     (\<exists>fs2 msgs. end_inv (fs @ fs2) fs' e1 e' \<and> gains (ep_block e) (ep_block e1) \<and>
        conv (ep_block e1) = conv (ep_block e) \<and> ep_sent e1 = ep_sent e @ msgs)"

text \<open>What has to be shown of a call, in terms of the control block alone.\<close>

definition good_block :: "IKCPCB \<Rightarrow> IKCPCB \<Rightarrow> bool" where
  "good_block kcp k \<longleftrightarrow> gains kcp k \<and> conv k = conv kcp \<and> unat (mtu k) \<le> 65535 \<and> stream k = 0"

lemma advancesI:
  assumes e: "end_inv fs fs' e e'" and k: "api_inv (ep_block e1)" "good_block (ep_block e) (ep_block e1)"
    and e1: "ep_sent e1 = ep_sent e @ msgs" "ep_got e1 = ep_got e @ gots" "ep_out e1 = ep_out e @ outs"
    and cut: "cut_in added msgs" "length (concat fs @ concat added) < 2 ^ 31"
    and outs: "\<forall>d \<in> set outs. carries (concat fs @ concat added) (ep_block e1) d \<and> length d \<le> 65535"
    and got: "prefix (ep_got e1) (ep_sent e')"
    and l: "linked (concat fs @ concat added) (concat fs') (start_of fs' (length (ep_got e1))) (ep_block e1) (ep_block e')"
  shows "advances fs fs' e e' e1"
proof -
  have old: "carries (concat fs @ concat added) (ep_block e1) d" if "carries (concat fs) (ep_block e) d" for d
    using carries_append [OF carries_gains [OF that, of "ep_block e1"], of "concat added"] k(2) by (simp add: good_block_def)
  have "cut_in (fs @ added) (ep_sent e1)"
    using e cut(1) by (simp add: end_inv_def cut_in_def e1 list_all2_appendI)
  moreover have "\<forall>d \<in> set (ep_out e1). carries (concat (fs @ added)) (ep_block e1) d \<and> length d \<le> 65535"
    using e outs old by (auto simp: end_inv_def e1)
  ultimately have "end_inv (fs @ added) fs' e1 e'"
    using e k cut(2) got l by (simp add: end_inv_def good_block_def)
  then show ?thesis
    using k(2) unfolding advances_def good_block_def e1(1)
    by (intro exI [of _ added] exI [of _ msgs]) simp
qed

lemma end_inv_parts:
  assumes "end_inv fs fs' e e'"
  shows "linked (concat fs) (concat fs') (start_of fs' (length (ep_got e))) (ep_block e) (ep_block e')"
    and "api_inv (ep_block e)" and "unat (mtu (ep_block e)) \<le> 65535" and "stream (ep_block e) = 0"
    and "prefix (ep_got e) (ep_sent e')" and "cut_in fs (ep_sent e)" and "length (concat fs) < 2 ^ 31"
    and "conv (ep_block e) = conv (ep_block e')"
  using assms by (simp_all add: end_inv_def)

lemma api_parts:
  assumes "api_inv kcp"
  shows "kcp_inv kcp" and "output_cb kcp" and "unat (ackcount kcp) < 2 ^ 31" and "cfg_inv kcp" and "rcv_inv kcp"
  using assms by (simp_all add: api_inv_def kcp_inv_def)

text \<open>Calls that neither send nor receive a message.\<close>

lemma quiet_advances:
  assumes e: "end_inv fs fs' e e'" and k: "api_inv (ep_block e1)" "good_block (ep_block e) (ep_block e1)"
    and e1: "ep_sent e1 = ep_sent e" "ep_got e1 = ep_got e" "ep_out e1 = ep_out e @ outs"
    and outs: "\<forall>d \<in> set outs. carries (concat fs) (ep_block e1) d \<and> length d \<le> 65535"
    and l: "linked (concat fs) (concat fs') (start_of fs' (length (ep_got e))) (ep_block e1) (ep_block e')"
  shows "advances fs fs' e e' e1"
  by (rule advancesI [OF e k, where msgs = "[]" and gots = "[]" and outs = outs and added = "[]"])
    (use end_inv_parts [OF e] outs l e1 in \<open>simp_all add: cut_in_def\<close>)

lemma tune_advances:
  assumes e: "end_inv fs fs' e e'" and k: "api_inv k" "unat (mtu k) \<le> 65535"
    and s: "same_snd (ep_block e) k" "same_rcv (ep_block e) k" "conv k = conv (ep_block e)" "stream k = stream (ep_block e)"
    and e1: "e1 = e\<lparr>ep_block := k\<rparr>"
  shows "advances fs fs' e e' e1"
proof -
  note f = linked_frame [OF s(1,2)]
  have gb: "good_block (ep_block e) (ep_block e1)" using e1 f(2) k(2) s(3,4) end_inv_parts(4) [OF e] by (simp add: good_block_def)
  show ?thesis
    using quiet_advances [OF e _ gb, of "[]"] k(1) f(1) end_inv_parts(1) [OF e] e1 by simp
qed

lemma tune_frames:
  "same_snd kcp (snd (ikcp_setmtu al kcp m))" "same_rcv kcp (snd (ikcp_setmtu al kcp m))"
  "conv (snd (ikcp_setmtu al kcp m)) = conv kcp" "stream (snd (ikcp_setmtu al kcp m)) = stream kcp"
  "same_snd kcp (snd (ikcp_interval kcp i))" "same_rcv kcp (snd (ikcp_interval kcp i))"
  "conv (snd (ikcp_interval kcp i)) = conv kcp" "stream (snd (ikcp_interval kcp i)) = stream kcp"
  "same_snd kcp (snd (ikcp_nodelay kcp nd i rs nc))" "same_rcv kcp (snd (ikcp_nodelay kcp nd i rs nc))"
  "conv (snd (ikcp_nodelay kcp nd i rs nc)) = conv kcp" "stream (snd (ikcp_nodelay kcp nd i rs nc)) = stream kcp"
  "same_snd kcp (snd (ikcp_wndsize kcp s r))" "same_rcv kcp (snd (ikcp_wndsize kcp s r))"
  "conv (snd (ikcp_wndsize kcp s r)) = conv kcp" "stream (snd (ikcp_wndsize kcp s r)) = stream kcp"
  "mtu (snd (ikcp_interval kcp i)) = mtu kcp" "mtu (snd (ikcp_nodelay kcp nd i rs nc)) = mtu kcp"
  "mtu (snd (ikcp_wndsize kcp s r)) = mtu kcp"
  by (simp_all add: same_snd_def same_rcv_def ikcp_setmtu_def ikcp_interval_def ikcp_nodelay_def ikcp_wndsize_def Let_def)

lemma setmtu_bound:
  "unat (mtu kcp) \<le> 65535 \<Longrightarrow> m \<le> 65535 \<Longrightarrow> unat (mtu (snd (ikcp_setmtu al kcp m))) \<le> 65535"
  by (auto simp: ikcp_setmtu_def Let_def unat_word_of_int)

lemma send_advances:
  assumes e: "end_inv fs fs' e e'" and al: "allocator_sound al" "allocator_total al"
    and g: "end_ok_call (Send m) (ep_block e)" and c: "end_call al (Send m) e = Inr (r, e1)"
  shows "advances fs fs' e e' e1"
proof -
  note p = end_inv_parts [OF e]
  note a = api_parts [OF p(2)]
  obtain k where k: "ikcp_send al (ep_block e) m (int (length m)) = Inr (r, k)"
    "e1 = note_call (Send m) (r, [], []) k e"
    using c by (auto simp: end_call_def fault_simps)
  have inv: "api_inv k" using send_api [OF p(2) al(2), of m] k(1) by auto
  have "int (unat (snd_nxt (ep_block e)) + length (snd_queue (ep_block e)) + frag_count (ep_block e) (length m)) < int (2 ^ 31)"
    using g by simp
  then have room: "length (concat fs) + frag_count (ep_block e) (length m) < 2 ^ 31"
    using p(1) unfolding of_nat_less_iff by (simp add: linked_def sender_def)
  have "int (length m) < int (2 ^ 31)" using g by simp
  then have len: "length m < 2 ^ 31" unfolding of_nat_less_iff .
  have s: "gains (ep_block e) k" "conv k = conv (ep_block e)" "mtu k = mtu (ep_block e)" "stream k = stream (ep_block e)"
    "r < 0 \<and> linked (concat fs) (concat fs') (start_of fs' (length (ep_got e))) k (ep_block e') \<or>
     0 \<le> r \<and> (\<exists>f. is_msg f m \<and> length (concat fs @ f) < 2 ^ 31 \<and>
        linked (concat fs @ f) (concat fs') (start_of fs' (length (ep_got e))) k (ep_block e'))"
    using send_link [OF p(1) a(4) al(2) p(4) len room k(1)] by blast+
  have gb: "api_inv (ep_block e1)" "good_block (ep_block e) (ep_block e1)"
    using s(1-4) p(3,4) inv k(2) by (simp_all add: good_block_def)
  show ?thesis
  proof (cases "r < 0")
    case True
    then show ?thesis using quiet_advances [OF e gb, of "[]"] s(5) k(2) by simp
  next
    case False
    then obtain f where f: "is_msg f m" "length (concat fs @ f) < 2 ^ 31"
      "linked (concat fs @ f) (concat fs') (start_of fs' (length (ep_got e))) k (ep_block e')" using s(5) by auto
    show ?thesis
      by (rule advancesI [OF e gb, where msgs = "[m]" and gots = "[]" and outs = "[]" and added = "[f]"])
        (use False f k(2) p(5) in \<open>simp_all add: cut_in_def\<close>)
  qed
qed

lemma recv_advances:
  assumes e: "end_inv fs fs' e e'" and e': "end_inv fs' fs e' e" and c: "end_call al (Recv len) e = Inr (r, e1)"
  shows "advances fs fs' e e' e1"
proof -
  note p = end_inv_parts [OF e]
  note a = api_parts [OF p(2)]
  obtain out k where k: "ikcp_recv (ep_block e) len = Inr (r, out, k)"
    "e1 = note_call (Recv len) (r, out, []) k e"
    using c by (auto simp: end_call_def fault_simps)
  have inv: "api_inv k" using recv_api [OF p(2), of len] k(1) by auto
  let ?n = "length (ep_got e)"
  have n: "?n \<le> length (ep_sent e')" using prefix_length_le [OF p(5)] .
  note s = recv_link [OF p(1) a(5) end_inv_parts(6) [OF e'] n k(1)]
  have gb: "api_inv (ep_block e1)" "good_block (ep_block e) (ep_block e1)"
    using s p(3,4) inv k(2) by (simp_all add: good_block_def)
  show ?thesis
  proof (cases "r < 0 \<or> len < 0")
    case True
    then show ?thesis using quiet_advances [OF e gb, of "[]"] s k(2) by auto
  next
    case False
    then have m: "?n < length (ep_sent e')" "out = ep_sent e' ! ?n"
      "linked (concat fs) (concat fs') (start_of fs' (Suc ?n)) k (ep_block e')" using s by auto
    have "ep_got e = take ?n (ep_sent e')" using p(5) by (auto simp: prefix_def)
    then have "ep_got e @ [out] = take (Suc ?n) (ep_sent e')" using m(1,2) by (metis take_Suc_conv_app_nth)
    then have "prefix (ep_got e @ [out]) (ep_sent e')" by (simp add: take_is_prefix)
    then show ?thesis
      by (intro advancesI [OF e gb, where msgs = "[]" and gots = "[out]" and outs = "[]" and added = "[]"])
        (use False m(3) k(2) p(7) in \<open>simp_all add: cut_in_def\<close>)
  qed
qed

lemma input_advances:
  assumes e: "end_inv fs fs' e e'" and e': "end_inv fs' fs e' e"
    and al: "allocator_sound al" "allocator_total al"
    and d: "d \<in> set (ep_out e')" and n: "unat (ackcount (ep_block e)) + length d < 2 ^ 31"
    and c: "end_call al (Input d) e = Inr (r, e1)"
  shows "advances fs fs' e e' e1"
proof -
  note p = end_inv_parts [OF e]
  note a = api_parts [OF p(2)]
  obtain k where k: "ikcp_input al (ep_block e) (Some d) (int (length d)) = Inr (r, k)"
    "e1 = note_call (Input d) (r, [], []) k e"
    using c by (auto simp: end_call_def fault_simps)
  have dg: "carries (concat fs') (ep_block e') d" "length d \<le> 65535" using e' d by (simp_all add: end_inv_def)
  have nxt: "unat (rcv_nxt (ep_block e')) < 2 ^ 31"
    using end_inv_parts(1) [OF e'] by (simp add: linked_def receiver_def)
  note i = input_link [OF a(1) al dg(2) n p(1) dg(1) p(8) [symmetric] nxt k(1)]
  have "same_link (ep_block e) k" "kcp_inv k" using input_safe [OF a(1) al dg(2) n] k(1) by auto
  then have s: "conv k = conv (ep_block e)" "mtu k = mtu (ep_block e)" "stream k = stream (ep_block e)"
    by (simp_all add: same_link_def)
  have "call_ok (Input d) (ep_block e)" using dg(2) n by simp
  then have inv: "api_inv k" using input_api [OF p(2) al] k(1) by fastforce
  have gb: "api_inv (ep_block e1)" "good_block (ep_block e) (ep_block e1)"
    using i(2) s p(3,4) inv k(2) by (simp_all add: good_block_def)
  then show ?thesis using quiet_advances [OF e gb, of "[]"] i(1) k(2) by simp
qed

lemma flush_advances:
  assumes e: "end_inv fs fs' e e'"
    and c: "c = Flush \<or> c = Update cur" "end_call al c e = Inr (r, e1)"
  shows "advances fs fs' e e' e1"
proof -
  note p = end_inv_parts [OF e]
  note a = api_parts [OF p(2)]
  obtain k outs where k: "(if c = Flush then ikcp_flush (ep_block e) else ikcp_update (ep_block e) cur) = Inr (k, outs)"
    "e1 = note_call c (0, [], outs) k e"
    using c by (auto simp: end_call_def fault_simps)
  have f: "linked (concat fs) (concat fs') (start_of fs' (length (ep_got e))) k (ep_block e') \<and>
      gains (ep_block e) k \<and> conv k = conv (ep_block e) \<and> mtu k = mtu (ep_block e) \<and>
      stream k = stream (ep_block e) \<and> (\<forall>d \<in> set outs. carries (concat fs) k d \<and> length d \<le> 65535)"
  proof (cases "c = Flush")
    case True
    then have "ikcp_flush (ep_block e) = Inr (k, outs)" using k(1) by simp
    from flush_link [OF a(1,2,3) p(3,1) this] show ?thesis by blast
  next
    case False
    then have "ikcp_update (ep_block e) cur = Inr (k, outs)" using k(1) by simp
    from update_link [OF a(1,2,3) p(3,1) this] show ?thesis by blast
  qed
  have "api_inv k"
    using update_api [OF p(2)] k(1) by (metis (mono_tags) Pair_inject sum.inject(2))
  then have gb: "api_inv (ep_block e1)" "good_block (ep_block e) (ep_block e1)"
    using f p(3,4) k(2) by (simp_all add: good_block_def)
  show ?thesis
    by (rule quiet_advances [OF e gb, of outs]) (use f k(2) c(1) in auto)
qed

lemma end_call_advances:
  assumes e: "end_inv fs fs' e e'" and e': "end_inv fs' fs e' e"
    and al: "allocator_sound al" "allocator_total al"
    and g: "end_ok_call c (ep_block e) \<or>
      (\<exists>d \<in> set (ep_out e'). c = Input d \<and> unat (ackcount (ep_block e)) + length d < 2 ^ 31)"
  shows "\<exists>r e1. end_call al c e = Inr (r, e1) \<and> advances fs fs' e e' e1"
proof -
  note p = end_inv_parts [OF e]
  have "call_ok c (ep_block e)" using g e' by (cases c) (auto simp: end_inv_def)
  from kcp_step_safe [OF al p(2) this] obtain a k where k: "kcp_step al c (ep_block e) = Inr (a, k)" "api_inv k" by blast
  then have c: "end_call al c e = Inr (fst a, note_call c a k e)" by (simp add: end_call_def)
  have "advances fs fs' e e' (note_call c a k e)"
  proof (cases c)
    case (Send m)
    then show ?thesis using send_advances [OF e al _ c [unfolded Send]] g by simp
  next
    case (Recv len)
    then show ?thesis using recv_advances [OF e e' c [unfolded Recv]] by simp
  next
    case (Input d)
    then show ?thesis using input_advances [OF e e' al _ _ c [unfolded Input]] g by auto
  next
    case (Update cur)
    then show ?thesis using flush_advances [OF e _ c] by simp
  next
    case Flush
    then show ?thesis using flush_advances [OF e _ c] by simp
  next
    case (Setmtu m)
    then show ?thesis
      using g k setmtu_bound [OF p(3), of m al] tune_frames(1-4) [where kcp = "ep_block e" and al = al and m = m]
      by (intro tune_advances [OF e, of k]) (auto split: prod.splits)
  next
    case (Interval i)
    then show ?thesis
      using k p(3) by (intro tune_advances [OF e, of k]) (auto simp: tune_frames ikcp_interval_def same_snd_def same_rcv_def)
  next
    case (Nodelay nd i rs nc)
    then show ?thesis
      using k p(3) tune_frames(9-12,18) [of "ep_block e" nd i rs nc]
      by (intro tune_advances [OF e, of k]) (auto split: prod.splits)
  next
    case (Wndsize s r)
    then show ?thesis
      using k p(3) tune_frames(13-16,19) [of "ep_block e" s r]
      by (intro tune_advances [OF e, of k]) (auto split: prod.splits)
  qed
  with c show ?thesis by blast
qed

lemma start_link:
  assumes "create_ready al n cv = Some a" and "create_ready al n cv = Some b"
  shows "end_inv [] [] (start_end a) (start_end b)"
  using assms create_api [OF assms(1)]
  by (auto simp: create_ready_def ikcp_create_def ikcp_setoutput_def end_inv_def start_end_def cut_in_def
      linked_def sender_def receiver_def acks_ok_def pending_acks_def covered_def start_of_def ikcp_consts
      split: if_splits)

definition net_inv :: "allocator \<times> link \<Rightarrow> bool" where
  "net_inv s \<longleftrightarrow> allocator_sound (fst s) \<and> allocator_total (fst s) \<and> link_inv (snd s)"

lemma link_step_safe:
  assumes inv: "net_inv s" and ok: "link_ok ev s"
  shows "\<exists>r s'. link_step ev s = Inr (r, s') \<and> net_inv s'"
proof -
  obtain al l where s: "s = (al, l)" by (cases s)
  let ?x = "event_end ev"
  have al: "allocator_sound al" "allocator_total al" using inv by (simp_all add: net_inv_def s)
  obtain fs where fs: "\<And>x. end_inv (fs x) (fs (\<not> x)) (l x) (l (\<not> x))"
    using inv by (auto simp: net_inv_def link_inv_def s)
  have e: "end_inv (fs ?x) (fs (\<not> ?x)) (l ?x) (l (\<not> ?x))" by (rule fs)
  have e': "end_inv (fs (\<not> ?x)) (fs ?x) (l (\<not> ?x)) (l ?x)" using fs [of "\<not> ?x"] by simp
  have g: "end_ok_call (event_call ev l) (ep_block (l ?x)) \<or>
      (\<exists>d \<in> set (ep_out (l (\<not> ?x))). event_call ev l = Input d \<and> unat (ackcount (ep_block (l ?x))) + length d < 2 ^ 31)"
  proof (cases ev)
    case (Deliver_to x i)
    then have "int (unat (ackcount (ep_block (l x))) + length (ep_out (l (\<not> x)) ! i)) < int (2 ^ 31)"
      using ok by (simp add: link_ok_def s)
    then have "unat (ackcount (ep_block (l x))) + length (ep_out (l (\<not> x)) ! i) < 2 ^ 31" unfolding of_nat_less_iff .
    then show ?thesis using ok Deliver_to by (auto simp: link_ok_def s)
  qed (use ok in \<open>simp add: link_ok_def s\<close>)
  obtain r e1 where c: "end_call al (event_call ev l) (l ?x) = Inr (r, e1)"
    and adv: "advances (fs ?x) (fs (\<not> ?x)) (l ?x) (l (\<not> ?x)) e1"
    using end_call_advances [OF e e' al g] by blast
  then obtain added msgs where a: "end_inv (fs ?x @ added) (fs (\<not> ?x)) e1 (l (\<not> ?x))"
    "gains (ep_block (l ?x)) (ep_block e1)" "conv (ep_block e1) = conv (ep_block (l ?x))"
    "ep_sent e1 = ep_sent (l ?x) @ msgs" unfolding advances_def by blast
  have n: "length (fs ?x) = length (ep_sent (l ?x))"
    using end_inv_parts(6) [OF e] by (simp add: cut_in_def list_all2_lengthD)
  have "end_inv (fs (\<not> ?x)) (fs ?x @ added) (l (\<not> ?x)) e1"
    by (rule end_inv_peer [OF e' a(2,3) refl a(4) _ n]) (rule end_inv_parts(7) [OF a(1)])
  then have "end_inv ((fs(?x := fs ?x @ added)) y) ((fs(?x := fs ?x @ added)) (\<not> y))
      ((l(?x := e1)) y) ((l(?x := e1)) (\<not> y))" for y
    using a(1) by (cases "y = ?x") auto
  then have "link_inv (l(?x := e1))" unfolding link_inv_def by blast
  then show ?thesis using c al by (simp add: link_step_def s net_inv_def)
qed

interpretation net: safe_machine link_step link_ok net_inv
  using link_step_safe by unfold_locales

lemma link_inv_prefix: "link_inv l \<Longrightarrow> prefix (ep_got (l x)) (ep_sent (l (\<not> x)))"
  by (auto simp: link_inv_def end_inv_def)

section \<open>A drained sender\<close>

text \<open>
  When nothing waits in the sender's queues, the receiver has every byte: what it delivered, what
  waits in its queue and what waits in its buffer are the accepted messages.
\<close>

lemma number_after:
  assumes "offset (of_nat r) sn < 2 ^ 31" and "r < 2 ^ 31" and "unat sn < 2 ^ 31"
  shows "r \<le> unat sn" and "offset (of_nat r) sn = unat sn - r"
proof -
  have r: "unat (of_nat r :: u32) = r" using assms(2) by (simp add: unat_of_nat)
  have "0 \<le> itimediff sn (of_nat r)" using assms(1) by (simp only: itimediff_base)
  moreover have "itimediff sn (of_nat r) = uint sn - uint (of_nat r :: u32)"
    unfolding itimediff_def using assms(2,3) r by (intro sint_diff) simp_all
  ultimately have le: "(of_nat r :: u32) \<le> sn" by (simp add: word_le_def)
  then show "r \<le> unat sn" using r by (simp add: word_le_nat_alt)
  show "offset (of_nat r) sn = unat sn - r" using unat_diff_ge [OF le] r by (simp add: offset_def)
qed

lemma in_window_gapless:
  assumes w: "in_window (of_nat r) (2 ^ 31) (map seg_sn p)" and n: "n < 2 ^ 31" "r \<le> n"
    and lt: "\<forall>s \<in> set p. unat (seg_sn s) < n" and all: "\<forall>i. r \<le> i \<and> i < n \<longrightarrow> of_nat i \<in> seg_sn ` set p"
  shows "map (\<lambda>s. unat (seg_sn s)) p = [r..<n]"
proof (rule sorted_distinct_set_unique)
  have num: "r \<le> unat (seg_sn s) \<and> offset (of_nat r) (seg_sn s) = unat (seg_sn s) - r" if "s \<in> set p" for s
  proof -
    have "offset (of_nat r) (seg_sn s) < 2 ^ 31" using w that by (auto simp: in_window_def)
    moreover have "unat (seg_sn s) < 2 ^ 31" using lt that n(1) by fastforce
    ultimately show ?thesis using number_after [of r "seg_sn s"] n by simp
  qed
  have "sorted_wrt (\<lambda>s t. unat (seg_sn s) < unat (seg_sn t)) p"
  proof (rule sorted_wrt_mono_rel)
    show "sorted_wrt (\<lambda>s t. offset (of_nat r) (seg_sn s) < offset (of_nat r) (seg_sn t)) p"
      using w by (simp add: in_window_def sorted_wrt_map)
    show "unat (seg_sn s) < unat (seg_sn t)"
      if "s \<in> set p" "t \<in> set p" "offset (of_nat r) (seg_sn s) < offset (of_nat r) (seg_sn t)" for s t
      using num [OF that(1)] num [OF that(2)] that(3) by simp
  qed
  then have srt: "sorted_wrt (<) (map (\<lambda>s. unat (seg_sn s)) p)" by (simp add: sorted_wrt_map)
  then show "sorted (map (\<lambda>s. unat (seg_sn s)) p)" "distinct (map (\<lambda>s. unat (seg_sn s)) p)"
    by (simp_all only: strict_sorted_iff)
  have "i \<in> (\<lambda>s. unat (seg_sn s)) ` set p" if "r \<le> i" "i < n" for i
  proof -
    obtain s where "s \<in> set p" "of_nat i = seg_sn s" using all \<open>r \<le> i\<close> \<open>i < n\<close> by blast
    moreover have "unat (of_nat i :: u32) = i" using \<open>i < n\<close> n(1) by (simp add: unat_of_nat)
    ultimately show ?thesis by (metis image_eqI)
  qed
  then show "set (map (\<lambda>s. unat (seg_sn s)) p) = set [r..<n]"
    using num lt by (auto simp: image_iff)
qed simp_all

lemma cut_bytes: "cut_in fss msgs \<Longrightarrow> concat (map snd (concat fss)) = concat msgs"
  unfolding cut_in_def by (induction fss msgs rule: list_all2_induct) (simp_all add: is_msg_def)

lemma waitsnd_zero:
  assumes "snd_core kcp" and "length (snd_queue kcp) < 2 ^ 31" and "ikcp_waitsnd kcp = 0"
  shows "snd_buf kcp = []" and "snd_queue kcp = []"
proof -
  let ?b = "length (snd_buf kcp)" and ?q = "length (snd_queue kcp)"
  have w: "in_window (snd_una kcp) (inflight kcp) (map seg_sn (snd_buf kcp))" "inflight kcp \<le> 65535"
    using assms(1) by (simp_all add: snd_core_def)
  have "inj_on (offset (snd_una kcp)) (set (map seg_sn (snd_buf kcp)))" by (simp add: inj_on_def offset_inject)
  then have "card (set (map seg_sn (snd_buf kcp))) \<le> card {..<inflight kcp}"
    using w(1) by (intro card_inj_on_le [of "offset (snd_una kcp)"]) (auto simp: in_window_def)
  moreover have "card (set (map seg_sn (snd_buf kcp))) = ?b"
    using distinct_card [OF in_window_distinct [OF w(1)]] by simp
  ultimately have b: "?b \<le> 65535" using w(2) by simp
  have "sint (of_nat (?b + ?q) :: u32) = 0"
    using assms(1,3) by (simp add: ikcp_waitsnd_def snd_core_def)
  then have "(of_nat (?b + ?q) :: u32) = 0" by (simp only: signed_eq_0_iff)
  then have "unat (of_nat (?b + ?q) :: u32) = 0" by (simp only: unat_0)
  moreover have "unat (of_nat (?b + ?q) :: u32) = ?b + ?q"
    using b assms(2) by (simp only: unat_of_nat take_bit_nat_def) simp
  ultimately have "?b + ?q = 0" by simp
  then show "snd_buf kcp = []" "snd_queue kcp = []" by simp_all
qed

lemma drained_log:
  assumes s: "sender log a" and c: "covered a b" and r: "receiver log q b" and inv: "rcv_inv b"
    and w: "snd_buf a = []" "snd_queue a = []"
  shows "take q log @ map frag (rcv_queue b) @ map frag (rcv_buf b) = log"
proof -
  let ?r = "unat (rcv_nxt b)" and ?n = "length log"
  have n: "?n < 2 ^ 31" "unat (snd_nxt a) = ?n" using s w by (simp_all add: sender_def)
  have rb: "q \<le> ?r" "?r \<le> ?n" "map frag (rcv_queue b) = drop q (take ?r log)" "\<forall>s \<in> set (rcv_buf b). genuine log s"
    using r by (simp_all add: receiver_def)
  have win: "in_window (of_nat ?r) (2 ^ 31) (map seg_sn (rcv_buf b))" using inv by (simp add: rcv_inv_def)
  have "\<forall>i. ?r \<le> i \<and> i < ?n \<longrightarrow> of_nat i \<in> seg_sn ` set (rcv_buf b)"
  proof (intro allI impI)
    fix i assume i: "?r \<le> i \<and> i < ?n"
    then have u: "unat (of_nat i :: u32) = i" using n(1) by (simp add: unat_of_nat)
    then have lt: "(of_nat i :: u32) < snd_nxt a" "\<not> (of_nat i :: u32) < rcv_nxt b"
      using i n(2) by (simp_all add: word_less_nat_alt)
    then have "received b (of_nat i)" using c w(1) unfolding covered_def by simp
    then show "of_nat i \<in> seg_sn ` set (rcv_buf b)" using lt(2) unfolding received_def by simp
  qed
  with in_window_gapless [OF win n(1) rb(2)] rb(4)
  have sn: "map (\<lambda>s. unat (seg_sn s)) (rcv_buf b) = [?r..<?n]" by (simp add: genuine_def)
  have "map frag (rcv_buf b) = map ((!) log) (map (\<lambda>s. unat (seg_sn s)) (rcv_buf b))"
    using rb(4) by (simp add: genuine_def)
  also have "\<dots> = drop ?r log" unfolding sn by (rule nth_equalityI) simp_all
  finally have "map frag (rcv_buf b) = drop ?r log" .
  moreover have "take q log @ drop q (take ?r log) = take ?r log"
    using rb(1) by (metis append_take_drop_id min.absorb1 take_take)
  ultimately show ?thesis using rb(3) by (metis append.assoc append_take_drop_id)
qed

lemma drained_link:
  assumes inv: "link_inv l" and w: "ikcp_waitsnd (ep_block (l x)) = 0"
  shows "concat (ep_got (l (\<not> x))) @ payload (rcv_queue (ep_block (l (\<not> x)))) @ payload (rcv_buf (ep_block (l (\<not> x)))) =
    concat (ep_sent (l x))"
proof -
  let ?e = "l x" and ?e' = "l (\<not> x)"
  obtain fs where fs: "\<And>x. end_inv (fs x) (fs (\<not> x)) (l x) (l (\<not> x))" using inv by (auto simp: link_inv_def)
  have e: "end_inv (fs x) (fs (\<not> x)) ?e ?e'" and e': "end_inv (fs (\<not> x)) (fs x) ?e' ?e"
    using fs [of x] fs [of "\<not> x"] by simp_all
  note p = end_inv_parts [OF e] and p' = end_inv_parts [OF e']
  let ?log = "concat (fs x)" and ?q = "start_of (fs x) (length (ep_got ?e'))"
  have s: "sender ?log (ep_block ?e)" "covered (ep_block ?e) (ep_block ?e')" using p(1) by (simp_all add: linked_def)
  have r: "receiver ?log ?q (ep_block ?e')" using p'(1) by (simp add: linked_def)
  have core: "snd_core (ep_block ?e)" using p(2) by (simp add: api_inv_def kcp_inv_def snd_inv_def)
  have "length (snd_queue (ep_block ?e)) < 2 ^ 31" using s(1) by (auto simp: sender_def)
  note z = waitsnd_zero [OF core this w]
  note d = drained_log [OF s r api_parts(5) [OF p'(2)] z]
  have got: "ep_got ?e' = take (length (ep_got ?e')) (ep_sent ?e)" using p'(5) by (auto simp: prefix_def)
  have "cut_in (take (length (ep_got ?e')) (fs x)) (ep_got ?e')"
    using p(6) unfolding cut_in_def by (subst got) (rule list_all2_takeI)
  from cut_bytes [OF this]
  have "concat (map snd (take ?q ?log)) = concat (ep_got ?e')"
    by (simp add: start_of_def) (metis append_eq_conv_conj append_take_drop_id concat_append)
  moreover have "payload q = concat (map snd (map frag q))" for q by (rule frag_proj(2))
  moreover have "concat (map snd ?log) = concat (ep_sent ?e)" using cut_bytes [OF p(6)] .
  ultimately show ?thesis using arg_cong [OF d, of "\<lambda>fs. concat (map snd fs)"] by simp
qed

text \<open>
  And what has arrived in order comes out: as long as a message is missing, the next \<^verbatim>\<open>ikcp_recv\<close> with
  enough room gives it.
\<close>

lemma next_complete:
  assumes r: "receiver (concat fss) (start_of fss n) kcp" and inv: "rcv_inv kcp" and cut: "cut_in fss msgs"
    and n: "n < length msgs" and all: "unat (rcv_nxt kcp) = length (concat fss)"
  shows "msg_complete kcp"
proof -
  let ?q = "rcv_queue kcp" and ?fs = "fss ! n"
  have lf: "length fss = length msgs" using cut by (simp add: cut_in_def list_all2_lengthD)
  have m: "is_msg ?fs (msgs ! n)" using cut n by (simp add: cut_in_def list_all2_nthD2)
  have q: "map frag ?q = ?fs @ concat (drop (Suc n) fss)"
    using r all drop_start [of n fss] n lf by (simp add: receiver_def)
  obtain f fs where fs: "?fs = f # fs" "length fs < 128" using m by (cases ?fs) (auto simp: is_msg_def)
  then obtain s q' where sq: "?q = s # q'" "frag s = f" using q by (cases ?q) auto
  have frg: "seg_frg s = of_nat (length fs)" using is_msg_frg [OF m] fs sq(2) by (auto simp: frag_def)
  have u: "unat (of_nat (length fs) :: u32) = length fs" using fs(2) by (simp add: unat_of_nat)
  have "unat (seg_frg s + 1) = Suc (length fs)" unfolding frg using u fs(2) by (subst unat_Suc_small) simp_all
  moreover have "unat (nrcv_que kcp) = length ?q" using inv by (simp add: rcv_inv_def unat_of_nat)
  moreover have "Suc (length fs) \<le> length ?q"
    using arg_cong [OF q, of length] fs(1) by simp
  ultimately have "\<not> nrcv_que kcp < seg_frg s + 1" by (simp add: word_less_nat_alt)
  then show ?thesis by (simp add: msg_complete_def sq(1))
qed

lemma drained_next:
  assumes inv: "link_inv l" and w: "ikcp_waitsnd (ep_block (l x)) = 0"
    and b: "rcv_buf (ep_block (l (\<not> x))) = []" and len: "int (length m) \<le> len"
    and m: "ep_sent (l x) = ep_got (l (\<not> x)) @ m # ms"
  shows "\<exists>k. ikcp_recv (ep_block (l (\<not> x))) len = Inr (int (length m), m, k)"
proof -
  let ?e = "l x" and ?e' = "l (\<not> x)"
  let ?n = "length (ep_got ?e')" and ?k = "ep_block ?e'"
  obtain fs where fs: "\<And>x. end_inv (fs x) (fs (\<not> x)) (l x) (l (\<not> x))" using inv by (auto simp: link_inv_def)
  have e: "end_inv (fs x) (fs (\<not> x)) ?e ?e'" and e': "end_inv (fs (\<not> x)) (fs x) ?e' ?e"
    using fs [of x] fs [of "\<not> x"] by simp_all
  note p = end_inv_parts [OF e] and p' = end_inv_parts [OF e']
  have s: "sender (concat (fs x)) (ep_block ?e)" "covered (ep_block ?e) ?k" using p(1) by (simp_all add: linked_def)
  have r: "receiver (concat (fs x)) (start_of (fs x) ?n) ?k" using p'(1) by (simp add: linked_def)
  note ri = api_parts(5) [OF p'(2)]
  have core: "snd_core (ep_block ?e)" using p(2) by (simp add: api_inv_def kcp_inv_def snd_inv_def)
  have "length (snd_queue (ep_block ?e)) < 2 ^ 31" using s(1) by (auto simp: sender_def)
  note z = waitsnd_zero [OF core this w]
  have "snd_nxt (ep_block ?e) \<le> rcv_nxt ?k"
  proof (rule ccontr)
    assume "\<not> snd_nxt (ep_block ?e) \<le> rcv_nxt ?k"
    then have "rcv_nxt ?k < snd_nxt (ep_block ?e)" by simp
    then have "received ?k (rcv_nxt ?k)" using s(2) z(1) unfolding covered_def by simp
    then show False using b by (simp add: received_def)
  qed
  then have nxt: "unat (rcv_nxt ?k) = length (concat (fs x))"
    using s(1) r z(2) by (simp add: sender_def receiver_def word_le_nat_alt)
  have n: "?n < length (ep_sent ?e)" "ep_sent ?e ! ?n = m" by (simp_all add: m)
  have c: "msg_complete ?k" by (rule next_complete [OF r ri p(6) n(1) nxt])
  have pm: "payload (first_msg (rcv_queue ?k)) = m"
    using complete_msg [OF r ri p(6) order.strict_implies_order [OF n(1)] c] n(2) by metis
  have "rcv_queue ?k \<noteq> []" using c by (auto simp: msg_complete_def split: list.splits)
  then show ?thesis
    using c len pm by (simp add: recv_spec [OF ri] Let_def)
qed

text \<open>From two fresh blocks, any guarded sequence of calls and deliveries runs and keeps the invariant.\<close>

lemma link_runs:
  assumes "create_ready al n cv = Some kcp" and "allocator_sound al" and "allocator_total al"
    and "guarded link_step link_ok evs (al, \<lambda>x. start_end kcp)"
  shows "\<exists>rs al' l. run_calls link_step evs (al, \<lambda>x. start_end kcp) = Inr (rs, al', l) \<and> link_inv l"
proof -
  have "end_inv [] [] (start_end kcp) (start_end kcp)" using start_link [OF assms(1,1)] .
  then have "link_inv (\<lambda>x. start_end kcp)" unfolding link_inv_def by (intro exI [of _ "\<lambda>x. []"]) simp
  then have "net_inv (al, \<lambda>x. start_end kcp)" using assms(2,3) by (simp add: net_inv_def)
  from net.run_safe [OF this assms(4)] show ?thesis by (auto simp: net_inv_def)
qed

end
