(* ===== verification/Kcp_Samples.thy ===== *)
theory Kcp_Samples
  imports Kcp_Network
begin

text \<open>
  Concrete control blocks and traffic for the witnesses: an allocator that never runs dry,
  a fresh control block of conversation 7, the same block with a message queued and sent,
  and with a message received.
\<close>

definition sample_seg :: IKCPSEG where
  "sample_seg = \<lparr> seg_conv = 0, seg_cmd = 0, seg_frg = 0, seg_wnd = 0, seg_ts = 0, seg_sn = 0,
     seg_una = 0, seg_len = 0, seg_resendts = 0, seg_rto = 0, seg_fastack = 0, seg_xmit = 0,
     seg_data = [] \<rparr>"

definition sample_alloc :: allocator where
  "sample_alloc = \<lparr> new_block = \<lambda>n. True, new_seg = \<lambda>n. Some sample_seg,
     new_array = \<lambda>n. Some (replicate n 0) \<rparr>"

lemma sample_alloc_ok [simp]: "allocator_sound sample_alloc" "allocator_total sample_alloc"
  by (simp_all add: sample_alloc_def allocator_sound_def allocator_total_def)

definition sample_kcp :: IKCPCB where
  "sample_kcp = the (create_ready sample_alloc 400 7)"

lemma sample_kcp_ready: "create_ready sample_alloc 400 7 = Some sample_kcp"
  by (simp add: sample_kcp_def create_ready_def ikcp_create_def sample_alloc_def)

lemma sample_kcp_inv: "api_inv sample_kcp"
  using sample_kcp_ready by (rule create_api)

text \<open>The value of a call that ends, for use in definitions of samples.\<close>

definition sample_call :: "call \<Rightarrow> IKCPCB \<Rightarrow> IKCPCB" where
  "sample_call c kcp = (case kcp_step sample_alloc c kcp of Inl _ \<Rightarrow> kcp | Inr (_, kcp') \<Rightarrow> kcp')"

lemma sample_call_inv: "api_inv kcp \<Longrightarrow> call_ok c kcp \<Longrightarrow> api_inv (sample_call c kcp)"
  using kcp_step_safe [of sample_alloc kcp c] by (auto simp: sample_call_def)

text \<open>Two segments on the wire: data of conversation 7 with number 0, and of another one.\<close>

definition sample_push :: IKCPSEG where
  "sample_push = sample_seg\<lparr>seg_conv := 7, seg_cmd := IKCP_CMD_PUSH, seg_wnd := 128, seg_len := 3,
     seg_data := [1, 2, 3]\<rparr>"

definition sample_waiting :: IKCPCB where
  "sample_waiting = sample_call (Update 5) (sample_call (Send [1, 2, 3]) sample_kcp)"

definition sample_sender :: IKCPCB where
  "sample_sender = sample_call (Update 205) sample_waiting"

definition sample_receiver :: IKCPCB where
  "sample_receiver = sample_call (Input (wire_seg sample_push)) sample_kcp"

lemma sample_waiting_inv: "api_inv sample_waiting"
  unfolding sample_waiting_def by (intro sample_call_inv sample_kcp_inv) simp_all

lemma sample_sender_inv: "api_inv sample_sender"
  unfolding sample_sender_def by (intro sample_call_inv sample_waiting_inv) simp_all

lemma sample_receiver_inv: "api_inv sample_receiver"
proof -
  have "ackcount sample_kcp = 0" "length (wire_seg sample_push) = 27" by code_simp+
  then show ?thesis
    unfolding sample_receiver_def by (intro sample_call_inv sample_kcp_inv) simp
qed

definition sample_calls :: "call list" where
  "sample_calls = [Send [1, 2, 3], Update 0, Recv 100, Flush, Nodelay 1 20 2 1]"

section \<open>A link\<close>

text \<open>
  One end sends a message, its datagram arrives twice at the other end, which acknowledges it; the
  message waits to be received.
\<close>

definition sample_arrival :: "link_event list" where
  "sample_arrival =
     [Call_by True (Send [1, 2, 3]), Call_by True (Update 0), Call_by True (Update 100), Deliver_to False 0,
      Deliver_to False 0, Call_by False (Update 0), Deliver_to True 0]"

lemma sample_arrival_guarded: "guarded link_step link_ok sample_arrival (sample_alloc, \<lambda>x. start_end sample_kcp)"
  by code_simp

definition sample_arrived :: link where
  "sample_arrived = (case run_calls link_step sample_arrival (sample_alloc, \<lambda>x. start_end sample_kcp) of
     Inl e \<Rightarrow> (\<lambda>x. start_end sample_kcp) | Inr (rs, al, l) \<Rightarrow> l)"

definition sample_view :: "link \<Rightarrow> int \<times> bytes list \<times> bytes list \<times> bytes list \<times> nat" where
  "sample_view l = (ikcp_waitsnd (ep_block (l True)), ep_sent (l True), ep_got (l False),
     map seg_data (rcv_queue (ep_block (l False))), length (rcv_buf (ep_block (l False))))"

lemma sample_arrived_view: "sample_view sample_arrived = (0, [[1, 2, 3]], [], [[1, 2, 3]], 0)"
  by code_simp

lemma sample_arrived_run:
  obtains rs al where "run_calls link_step sample_arrival (sample_alloc, \<lambda>x. start_end sample_kcp) = Inr (rs, al, sample_arrived)"
proof -
  obtain rs al l where r: "run_calls link_step sample_arrival (sample_alloc, \<lambda>x. start_end sample_kcp) = Inr (rs, al, l)"
    using link_runs [OF sample_kcp_ready sample_alloc_ok sample_arrival_guarded] by blast
  then have "sample_arrived = l" by (simp add: sample_arrived_def)
  with r show thesis by (intro that) simp
qed

end
