(* ===== verification/Rtsp_Session.thy ===== *)
theory Rtsp_Session
  imports Kcp_Api
begin

unbundle bit_operations_syntax

text \<open>
  The camera's session (\<^verbatim>\<open>rtsp.h\<close>) and its transports: the TCP control connection (\<^verbatim>\<open>tcp.c\<close>)
  and KCP over UDP (\<^verbatim>\<open>kcp.c\<close>, \<^verbatim>\<open>udp.c\<close>). The record has the members of \<^verbatim>\<open>rtsp_session_t\<close> (the
  two socket structures by their descriptors, the mutex left out) and three members for the
  world outside the process: what the coming \<^verbatim>\<open>write\<close> calls on the TCP socket return
  (\<open>os_writes\<close>), the bytes the kernel took on that socket and the datagrams given to
  \<^verbatim>\<open>sendto\<close>.
\<close>

datatype rtsp_state = RTSP_STATE_INIT | RTSP_STATE_READY | RTSP_STATE_PLAYING

text \<open>What one \<^verbatim>\<open>write\<close> can do: take some bytes, be interrupted, not be ready, fail.\<close>

datatype wres = Wrote nat | Interrupted | Would_block | Write_error

record rtsp_session =
  client_fd :: int
  sess_state :: rtsp_state
  sess_kcp :: "IKCPCB option"
  session_id :: string
  cseq :: int
  rtp_port :: u16
  rtcp_port :: u16
  server_rtp_port :: u16
  server_rtcp_port :: u16
  rtp_socket_fd :: int
  rtpChannel :: u16
  rtcpChannel :: u16
  rtp_ssrc :: u32
  rtp_seq :: "64 word"
  rtp_timestamp :: u32
  content_base :: string
  control_attr :: string
  setup_url :: string
  payload_type :: int
  clock_rate :: int
  transType :: string
  os_writes :: "wres list"
  tcp_sent :: bytes
  udp_sent :: "bytes list"

text \<open>\<^verbatim>\<open>rtsp_session_init\<close>: everything zero, then the members that start differently.\<close>

definition rtsp_session_init :: "wres list \<Rightarrow> rtsp_session" where
  "rtsp_session_init ws =
     \<lparr> client_fd = -1, sess_state = RTSP_STATE_INIT, sess_kcp = None, session_id = [], cseq = 0,
       rtp_port = 0, rtcp_port = 0, server_rtp_port = 0, server_rtcp_port = 0,
       rtp_socket_fd = -1, rtpChannel = 0, rtcpChannel = 0, rtp_ssrc = 0x12345678, rtp_seq = 0,
       rtp_timestamp = 0, content_base = [], control_attr = [], setup_url = [],
       payload_type = 0, clock_rate = 0, transType = [], os_writes = ws, tcp_sent = [],
       udp_sent = [] \<rparr>"

section \<open>TCP\<close>

text \<open>
  The loop of \<^verbatim>\<open>tcp_write\<close> over the results of its \<^verbatim>\<open>write\<close> calls: whether it failed, the bytes
  taken, and the results left for later calls. When the results run out the call blocks
  (\<^const>\<open>None\<close>). A \<^verbatim>\<open>write\<close> never takes more than it is given.
\<close>

fun tcp_write_loop :: "wres list \<Rightarrow> 'a list \<Rightarrow> 'a list \<Rightarrow> (bool \<times> 'a list \<times> wres list) option" where
  "tcp_write_loop ws [] sent = Some (False, sent, ws)"
| "tcp_write_loop [] (b # left) sent = None"
| "tcp_write_loop (w # ws) (b # left) sent =
     (case w of
        Interrupted \<Rightarrow> tcp_write_loop ws (b # left) sent
      | Would_block \<Rightarrow> Some (False, sent, ws)
      | Write_error \<Rightarrow> Some (True, sent, ws)
      | Wrote n \<Rightarrow>
          if n = 0 then Some (False, sent, ws)
          else tcp_write_loop ws (drop n (b # left)) (sent @ take n (b # left)))"

definition tcp_write :: "rtsp_session \<Rightarrow> bytes \<Rightarrow> (int \<times> rtsp_session) option" where
  "tcp_write s buf =
     map_option
       (\<lambda>(err, sent, ws).
          (if err then -1 else int (length sent),
           s\<lparr>tcp_sent := tcp_sent s @ sent, os_writes := ws\<rparr>))
       (tcp_write_loop (os_writes s) buf [])"

text \<open>
  \<^verbatim>\<open>tcp_read\<close> with what \<^verbatim>\<open>recv\<close> delivers as an argument (\<^const>\<open>None\<close> for an error): the return
  value and the buffer up to its terminator, at most \<open>len - 1\<close> bytes.
\<close>

definition tcp_read :: "rtsp_session \<Rightarrow> string option \<Rightarrow> nat \<Rightarrow> int \<times> string" where
  "tcp_read s arrived len =
     (if client_fd s < 0 then (-1, [])
      else case arrived of
             None \<Rightarrow> (-1, [])
           | Some bs \<Rightarrow> let got = take (len - 1) bs in (int (length got), got))"

definition tcp_close_client :: "rtsp_session \<Rightarrow> rtsp_session" where
  "tcp_close_client s = (if client_fd s \<ge> 0 then s\<lparr>client_fd := -1\<rparr> else s)"

section \<open>UDP and KCP\<close>

text \<open>\<^verbatim>\<open>kcp_output\<close> hands each datagram to \<^verbatim>\<open>udp_send\<close>; KCP ignores the result of the send.\<close>

definition kcp_output :: "rtsp_session \<Rightarrow> bytes list \<Rightarrow> rtsp_session" where
  "kcp_output s outs = s\<lparr>udp_sent := udp_sent s @ outs\<rparr>"

definition udp_close :: "rtsp_session \<Rightarrow> rtsp_session" where
  "udp_close s = (if rtp_socket_fd s \<ge> 0 then s\<lparr>rtp_socket_fd := -1\<rparr> else s)"

definition rand_u32 :: "u32 \<Rightarrow> u32 \<Rightarrow> u32" where
  "rand_u32 r1 r2 = push_bit 16 r1 XOR r2"

text \<open>
  The settings each end gives its control block: the output callback, no delay, the two windows
  and the MTU. Every end uses the result of \<^verbatim>\<open>ikcp_create\<close> without a test, so running out of memory
  is a fault.
\<close>

definition kcp_config :: "allocator \<Rightarrow> int \<Rightarrow> IKCPCB option \<Rightarrow> IKCPCB res" where
  "kcp_config al wnd okcp =
     (case okcp of
        None \<Rightarrow> Inl Out_of_bounds
      | Some kcp \<Rightarrow>
          let kcp = ikcp_setoutput kcp True;
              kcp = snd (ikcp_nodelay kcp 1 10 2 0);
              kcp = snd (ikcp_wndsize kcp wnd wnd);
              kcp = snd (ikcp_setmtu al kcp 1450)
          in Inr kcp)"

text \<open>\<^verbatim>\<open>kcp_init\<close>: the conversation number is made from two calls of \<^verbatim>\<open>rand\<close>.\<close>

definition kcp_init :: "allocator \<Rightarrow> nat \<Rightarrow> u32 \<Rightarrow> u32 \<Rightarrow> IKCPCB res" where
  "kcp_init al sizeof_cb r1 r2 = kcp_config al 256 (ikcp_create al sizeof_cb (rand_u32 r1 r2))"

definition send_rtp_over_kcp :: "allocator \<Rightarrow> bytes \<Rightarrow> IKCPCB option \<Rightarrow> IKCPCB option res" where
  "send_rtp_over_kcp al rtp okcp =
     (case okcp of
        None \<Rightarrow> Inr None
      | Some kcp \<Rightarrow>
          if rtp = [] then Inr (Some kcp)
          else rbind (ikcp_send al kcp rtp (int (length rtp))) (\<lambda>(_, kcp). Inr (Some kcp)))"

definition rtsp_session_cleanup :: "rtsp_session \<Rightarrow> rtsp_session" where
  "rtsp_session_cleanup s = (tcp_close_client (udp_close s))\<lparr>sess_state := RTSP_STATE_INIT\<rparr>"

section \<open>What the transports promise\<close>

lemma tcp_write_loop_prefix:
  "tcp_write_loop ws left sent = Some (err, out, ws') \<Longrightarrow>
   \<exists>m. out = sent @ take m left \<and> m \<le> length left"
proof (induction ws left sent rule: tcp_write_loop.induct)
  case (3 w ws b left sent)
  show ?case
  proof (cases w)
    case (Wrote n)
    show ?thesis
    proof (cases "n = 0")
      case False
      with 3 Wrote obtain m where m: "out = (sent @ take n (b # left)) @ take m (drop n (b # left))"
        "m \<le> length (drop n (b # left))" by auto
      have "out = sent @ take (min n (length (b # left)) + m) (b # left)"
        unfolding m(1) by (cases "n \<le> length (b # left)") (simp_all add: take_add)
      moreover have "min n (length (b # left)) + m \<le> length (b # left)" using m(2) by simp
      ultimately show ?thesis by blast
    qed (use 3 Wrote in \<open>auto intro: exI [of _ 0]\<close>)
  qed (use 3 in \<open>auto intro: exI [of _ 0]\<close>)
qed (auto intro: exI [of _ 0])

text \<open>On a blocking socket (no \<^const>\<open>Would_block\<close>, no empty write) success means everything.\<close>

definition blocking :: "wres list \<Rightarrow> bool" where
  "blocking ws \<longleftrightarrow> (\<forall>w \<in> set ws. w \<noteq> Would_block \<and> w \<noteq> Wrote 0)"

lemma tcp_write_loop_all:
  "tcp_write_loop ws left sent = Some (False, out, ws') \<Longrightarrow> blocking ws \<Longrightarrow> out = sent @ left"
  by (induction ws left sent rule: tcp_write_loop.induct)
    (auto simp: blocking_def split: wres.splits if_splits)

fun taken :: "wres list \<Rightarrow> nat" where
  "taken [] = 0"
| "taken (Wrote n # ws) = n + taken ws"
| "taken (w # ws) = taken ws"

lemma tcp_write_loop_returns:
  "length left \<le> taken ws \<Longrightarrow> \<exists>r. tcp_write_loop ws left sent = Some r"
proof (induction ws left sent rule: tcp_write_loop.induct)
  case (3 w ws b left sent)
  then show ?case by (cases w) auto
qed auto


text \<open>A control block set up this way satisfies the invariant of the KCP calls.\<close>

lemma kcp_config_api:
  assumes "allocator_sound al" and "allocator_total al" and "ikcp_create al n cv = Some kcp" and "wnd \<le> 32767"
  shows "\<exists>k. kcp_config al wnd (Some kcp) = Inr k \<and> api_inv k"
proof -
  have 0: "api_inv (ikcp_setoutput kcp True)" using create_api [of al n cv] assms(3) by (simp add: create_ready_def)
  define k1 where "k1 = snd (ikcp_nodelay (ikcp_setoutput kcp True) 1 10 2 0)"
  define k2 where "k2 = snd (ikcp_wndsize k1 wnd wnd)"
  have step: "kcp_step al c k = Inr ((r, [], []), k') \<Longrightarrow> api_inv k \<Longrightarrow> call_ok c k \<Longrightarrow> api_inv k'" for c k r k'
    using kcp_step_safe [OF assms(1,2), of k c] by auto
  have q0: "snd_queue (ikcp_setoutput kcp True) = []" "snd_buf (ikcp_setoutput kcp True) = []"
    using assms(3) by (auto simp: ikcp_create_def ikcp_setoutput_def split: if_splits)
  have 1: "api_inv k1" "snd_queue k1 = []" "snd_buf k1 = []"
  proof -
    show "api_inv k1"
      using step [of "Nodelay 1 10 2 0" _ "fst (ikcp_nodelay (ikcp_setoutput kcp True) 1 10 2 0)" k1] 0
      by (simp add: k1_def case_prod_beta)
    show "snd_queue k1 = []" "snd_buf k1 = []" using q0 by (simp_all add: k1_def ikcp_nodelay_def Let_def)
  qed
  have 2: "api_inv k2" "snd_queue k2 = []" "snd_buf k2 = []"
    using wndsize_api [OF 1(1) assms(4), of wnd] 1(2,3) by (simp_all add: k2_def ikcp_wndsize_def Let_def)
  have "api_inv (snd (ikcp_setmtu al k2 1450))" using 2 by (intro setmtu_api) simp_all
  then show ?thesis by (simp add: kcp_config_def k1_def k2_def Let_def)
qed

end
