(* ===== verification/Rtp.thy ===== *)
theory Rtp
  imports Rtsp_Session
begin

unbundle bit_operations_syntax

text \<open>
  The RTP packetizer of the camera (\<^verbatim>\<open>rtsp.c\<close>) and the splitting of an encoded frame into
  NAL units (\<^verbatim>\<open>rtsp_client.c\<close>). A NAL unit is sent as one packet or as a run of FU-A
  fragments; each packet goes out through the transport the session negotiated, framed
  on the TCP connection or as a KCP message followed by a flush. The locale \<open>packet_sink\<close> is
  what the packetizer needs of a transport.
\<close>

section \<open>Packets\<close>

definition build_rtp_header :: "u16 \<Rightarrow> u32 \<Rightarrow> u32 \<Rightarrow> byte \<Rightarrow> bool \<Rightarrow> bytes" where
  "build_rtp_header sq ts ssrc pt marker =
     [0x80, (pt AND 0x7F) OR (if marker then 0x80 else 0),
      ucast (drop_bit 8 sq), ucast (sq AND 0xFF),
      ucast (drop_bit 24 ts AND 0xFF), ucast (drop_bit 16 ts AND 0xFF),
      ucast (drop_bit 8 ts AND 0xFF), ucast (ts AND 0xFF),
      ucast (drop_bit 24 ssrc AND 0xFF), ucast (drop_bit 16 ssrc AND 0xFF),
      ucast (drop_bit 8 ssrc AND 0xFF), ucast (ssrc AND 0xFF)]"

text \<open>The counter is wider than 16 bits; what leaves \<^verbatim>\<open>next_seq\<close> is its low half-word.\<close>

definition next_seq :: "rtsp_session \<Rightarrow> u16 \<times> rtsp_session" where
  "next_seq s = (ucast (rtp_seq s), s\<lparr>rtp_seq := rtp_seq s + 1\<rparr>)"

text \<open>
  Interleaved framing: a dollar sign, the channel and the length in front of the packet. The
  result \<^const>\<open>None\<close> is a \<^verbatim>\<open>write\<close> that never comes back.
\<close>

definition send_rtp_over_tcp :: "allocator \<Rightarrow> rtsp_session \<Rightarrow> bytes \<Rightarrow> byte \<Rightarrow> (int \<times> rtsp_session) option" where
  "send_rtp_over_tcp al s rtp channel =
     (if client_fd s < 0 then Some (-1, s)
      else let n = of_nat (length rtp) :: 64 word;
               header = [36, channel, ucast (drop_bit 8 n AND 0xFF), ucast (n AND 0xFF)]
      in if \<not> new_block al (4 + length rtp) then Some (-1, s)
         else tcp_write s (header @ rtp))"

text \<open>Handing one packet to the transport; a transport that blocks forever is \<^const>\<open>Diverged\<close>.\<close>

definition put_packet :: "allocator \<Rightarrow> bytes \<Rightarrow> rtsp_session \<Rightarrow> rtsp_session res" where
  "put_packet al packet s =
     (if transType s = ''tcp'' then
        (case send_rtp_over_tcp al s packet (ucast (rtpChannel s)) of
           None \<Rightarrow> Inl Diverged
         | Some (_, s) \<Rightarrow> Inr s)
      else
        rbind (send_rtp_over_kcp al packet (sess_kcp s)) (\<lambda>okcp.
          case okcp of
            None \<Rightarrow> Inl Out_of_bounds
          | Some kcp \<Rightarrow>
              rbind (ikcp_flush kcp) (\<lambda>(kcp, outs).
                Inr (kcp_output (s\<lparr>sess_kcp := Some kcp\<rparr>) outs))))"

abbreviation MTU :: nat where "MTU \<equiv> 1400"
abbreviation RTP_HEADER_SIZE :: nat where "RTP_HEADER_SIZE \<equiv> 12"

text \<open>
  The FU-A loop, on the part of the payload that is still to be sent. The packet is built in
  an array of \<^verbatim>\<open>MTU - 4\<close> bytes; building a longer one is a fault.
\<close>

function fu_loop :: "allocator \<Rightarrow> u32 \<Rightarrow> byte \<Rightarrow> bytes \<Rightarrow> bool \<Rightarrow> rtsp_session \<Rightarrow> rtsp_session res" where
  "fu_loop al ts nal_header pl isStart s =
     (if pl = [] then Inr s
      else
        let len = (if length pl > MTU - 18 then MTU - 18 else length pl);
            isLast = (len \<ge> length pl);
            fu_ind = (nal_header AND 0xE0) OR 28;
            fu_hdr = (if isStart then 0x80 else 0) OR (if isLast then 0x40 else 0)
                     OR (nal_header AND 0x1F);
            (sq, s) = next_seq s;
            packet = build_rtp_header sq ts (rtp_ssrc s) 96 isLast @ [fu_ind, fu_hdr] @ take len pl
        in if length packet > MTU - 4 then Inl Out_of_bounds
           else
             (case put_packet al packet s of
                Inl e \<Rightarrow> Inl e
              | Inr s \<Rightarrow> fu_loop al ts nal_header (drop len pl) False s))"
  by pat_completeness auto
termination
  by (relation "measure (\<lambda>(al, ts, h, pl, b, s). length pl)") auto

declare fu_loop.simps [simp del]

definition rtp_send_h264 :: "allocator \<Rightarrow> rtsp_session \<Rightarrow> u32 \<Rightarrow> bytes \<Rightarrow> rtsp_session res" where
  "rtp_send_h264 al s ts nalu =
     (case nalu of
        [] \<Rightarrow> Inr s
      | nal_header # pl \<Rightarrow>
          if 4 + length nalu + RTP_HEADER_SIZE \<le> MTU then
            let nal_type = nal_header AND 0x1F;
                marker = (\<not> (nal_type = 7 \<or> nal_type = 8 \<or> nal_type = 6));
                (sq, s) = next_seq s;
                packet = build_rtp_header sq ts (rtp_ssrc s) 96 marker @ nalu
            in if length packet > MTU - 4 then Inl Out_of_bounds else put_packet al packet s
          else fu_loop al ts nal_header pl True s)"

section \<open>Splitting a frame into NAL units\<close>

definition is_start_code3 :: "bytes \<Rightarrow> bool" where
  "is_start_code3 p \<longleftrightarrow> take 3 p = [0, 0, 1]"

definition is_start_code4 :: "bytes \<Rightarrow> bool" where
  "is_start_code4 p \<longleftrightarrow> take 4 p = [0, 0, 0, 1]"

text \<open>
  The loop, by the offset \<open>i\<close>; \<open>start\<close> is where the current unit began (\<^const>\<open>None\<close> for -1) and
  \<open>out\<close> the views (offset, length) found so far, at most \<open>max_nalus\<close> of them.
\<close>

function split_loop :: "bytes \<Rightarrow> nat \<Rightarrow> nat \<Rightarrow> nat option \<Rightarrow> (nat \<times> nat) list \<Rightarrow> nat option \<times> (nat \<times> nat) list" where
  "split_loop buf max_nalus i start out =
     (if i + 3 < length buf then
        let sc = (if is_start_code4 (drop i buf) then 4
                  else if is_start_code3 (drop i buf) then 3 else 0)
        in if sc \<noteq> 0 then
             split_loop buf max_nalus (i + sc) (Some (i + sc))
               (case start of
                  Some st \<Rightarrow> if length out < max_nalus then out @ [(st, i - st)] else out
                | None \<Rightarrow> out)
           else split_loop buf max_nalus (i + 1) start out
      else (start, out))"
  by pat_completeness auto
termination
  by (relation "measure (\<lambda>(buf, m, i, start, out). length buf - i)") (auto simp: Let_def)

declare split_loop.simps [simp del]

definition split_annexb_nalus :: "bytes \<Rightarrow> nat \<Rightarrow> (nat \<times> nat) list" where
  "split_annexb_nalus buf max_nalus =
     (case split_loop buf max_nalus 0 None [] of
        (Some start, out) \<Rightarrow>
          if start < length buf \<and> length out < max_nalus then out @ [(start, length buf - start)] else out
      | (None, out) \<Rightarrow> out)"

definition view :: "bytes \<Rightarrow> nat \<times> nat \<Rightarrow> bytes" where
  "view buf v = take (snd v) (drop (fst v) buf)"

text \<open>
  What \<^verbatim>\<open>video_stream_thread\<close> does with one encoded frame: every NAL unit of it is sent, then
  the timestamp advances by one frame of the 90 kHz clock.
\<close>

fun send_nalus :: "allocator \<Rightarrow> u32 \<Rightarrow> bytes list \<Rightarrow> rtsp_session \<Rightarrow> rtsp_session res" where
  "send_nalus al ts [] s = Inr s"
| "send_nalus al ts (nalu # nalus) s =
     (case rtp_send_h264 al s ts nalu of Inl e \<Rightarrow> Inl e | Inr s \<Rightarrow> send_nalus al ts nalus s)"

definition send_frame :: "allocator \<Rightarrow> bytes \<Rightarrow> u32 \<times> rtsp_session \<Rightarrow> (u32 \<times> rtsp_session) res" where
  "send_frame al h264 st =
     (case st of (ts, s) \<Rightarrow>
        rbind (send_nalus al ts (map (view h264) (split_annexb_nalus h264 32)) s)
          (\<lambda>s. Inr (ts + 90000 div 60, s)))"

section \<open>The packets of a NAL unit\<close>

text \<open>
  The reference packetizer: the payloads a NAL unit is cut into, each with its marker bit,
  and the packets with consecutive sequence numbers.
\<close>

function fu_payloads :: "byte \<Rightarrow> bytes \<Rightarrow> bool \<Rightarrow> (bool \<times> bytes) list" where
  "fu_payloads h pl isStart =
     (if pl = [] then []
      else let isLast = (length pl \<le> MTU - 18) in
        (isLast, [(h AND 0xE0) OR 28,
                  (if isStart then 0x80 else 0) OR (if isLast then 0x40 else 0) OR (h AND 0x1F)]
                 @ take (MTU - 18) pl)
        # fu_payloads h (drop (MTU - 18) pl) False)"
  by pat_completeness auto
termination by (relation "measure (\<lambda>(h, pl, b). length pl)") auto

declare fu_payloads.simps [simp del]

definition rtp_payloads :: "bytes \<Rightarrow> (bool \<times> bytes) list" where
  "rtp_payloads nalu =
     (case nalu of
        [] \<Rightarrow> []
      | h # pl \<Rightarrow>
          if length nalu \<le> MTU - 16 then [(h AND 0x1F \<notin> {6, 7, 8}, nalu)]
          else fu_payloads h pl True)"

fun number_packets :: "u16 \<Rightarrow> u32 \<Rightarrow> u32 \<Rightarrow> (bool \<times> bytes) list \<Rightarrow> bytes list" where
  "number_packets sq ts ssrc [] = []"
| "number_packets sq ts ssrc ((marker, p) # ps) =
     (build_rtp_header sq ts ssrc 96 marker @ p) # number_packets (sq + 1) ts ssrc ps"

definition rtp_packets :: "u16 \<Rightarrow> u32 \<Rightarrow> u32 \<Rightarrow> bytes \<Rightarrow> bytes list" where
  "rtp_packets sq ts ssrc nalu = number_packets sq ts ssrc (rtp_payloads nalu)"

fun put_all :: "(bytes \<Rightarrow> 's \<Rightarrow> 's res) \<Rightarrow> bytes list \<Rightarrow> 's \<Rightarrow> 's res" where
  "put_all put [] s = Inr s"
| "put_all put (p # ps) s = (case put p s of Inl e \<Rightarrow> Inl e | Inr s \<Rightarrow> put_all put ps s)"

lemma length_build_rtp_header [simp]: "length (build_rtp_header sq ts ssrc pt m) = 12"
  by (simp add: build_rtp_header_def)

lemma length_number_packets [simp]: "length (number_packets sq ts ssrc ps) = length ps"
  by (induction sq ts ssrc ps rule: number_packets.induct) auto

text \<open>The transports neither read nor change the sequence counter.\<close>

lemma tcp_write_seq:
  "tcp_write (s\<lparr>rtp_seq := x\<rparr>) buf = map_option (\<lambda>(r, s). (r, s\<lparr>rtp_seq := x\<rparr>)) (tcp_write s buf)"
  by (cases "tcp_write_loop (os_writes s) buf []") (auto simp: tcp_write_def)

lemma put_packet_seq:
  "put_packet al p (s\<lparr>rtp_seq := x\<rparr>) = map_sum id (\<lambda>s. s\<lparr>rtp_seq := x\<rparr>) (put_packet al p s)"
proof (cases "transType s = ''tcp''")
  case True
  have "send_rtp_over_tcp al (s\<lparr>rtp_seq := x\<rparr>) p ch =
      map_option (\<lambda>(r, s). (r, s\<lparr>rtp_seq := x\<rparr>)) (send_rtp_over_tcp al s p ch)" for ch
    by (simp add: send_rtp_over_tcp_def tcp_write_seq Let_def)
  with True show ?thesis by (auto simp: put_packet_def split: option.splits)
next
  case False
  show ?thesis
  proof (cases "send_rtp_over_kcp al p (sess_kcp s)")
    case (Inr okcp)
    show ?thesis
    proof (cases okcp)
      case (Some kcp)
      with False Inr show ?thesis
        by (cases "ikcp_flush kcp") (auto simp: put_packet_def kcp_output_def)
    qed (use False Inr in \<open>simp add: put_packet_def\<close>)
  qed (use False in \<open>simp add: put_packet_def\<close>)
qed

lemma put_packet_keeps:
  assumes "put_packet al p s = Inr s'"
  shows "rtp_seq s' = rtp_seq s" and "rtp_ssrc s' = rtp_ssrc s" and "transType s' = transType s"
    and "rtpChannel s' = rtpChannel s"
  using assms
  by (auto simp: put_packet_def send_rtp_over_tcp_def tcp_write_def kcp_output_def fault_simps Let_def
      split: if_splits option.splits)

lemma put_all_seq:
  "put_all (put_packet al) ps (s\<lparr>rtp_seq := x\<rparr>) = map_sum id (\<lambda>s. s\<lparr>rtp_seq := x\<rparr>) (put_all (put_packet al) ps s)"
proof (induction ps arbitrary: s)
  case (Cons p ps)
  show ?case by (cases "put_packet al p s") (simp_all add: put_packet_seq Cons)
qed simp

lemma ucast_Suc: "ucast (w + 1 :: 64 word) = (ucast w + 1 :: u16)"
proof -
  have "uint (w + 1) = (uint w + 1) mod 2 ^ 64" by (simp add: uint_word_ariths)
  then have "uint (ucast (w + 1) :: u16) = (uint w + 1) mod 2 ^ 64 mod 2 ^ 16"
    by (simp add: unsigned_ucast_eq take_bit_eq_mod)
  also have "\<dots> = (uint w + 1) mod 2 ^ 16" by (rule mod_mod_cancel) simp
  also have "\<dots> = uint (ucast w + 1 :: u16)"
    by (simp add: uint_word_ariths unsigned_ucast_eq take_bit_eq_mod mod_simps)
  finally show ?thesis by (rule word_uint_eqI)
qed

lemma fu_loop_step:
  assumes "pl \<noteq> []"
  shows "fu_loop al ts h pl isStart s =
     (case put_packet al (build_rtp_header (ucast (rtp_seq s)) ts (rtp_ssrc s) 96 (length pl \<le> MTU - 18)
          @ snd (hd (fu_payloads h pl isStart))) (s\<lparr>rtp_seq := rtp_seq s + 1\<rparr>) of
        Inl e \<Rightarrow> Inl e | Inr s \<Rightarrow> fu_loop al ts h (drop (MTU - 18) pl) False s)"
proof -
  define len where "len = (if length pl > MTU - 18 then MTU - 18 else length pl)"
  have len: "take len pl = take (MTU - 18) pl" "drop len pl = drop (MTU - 18) pl"
    "len \<ge> length pl \<longleftrightarrow> length pl \<le> MTU - 18" by (simp_all add: len_def)
  show ?thesis
    using assms
    unfolding fu_loop.simps [of al ts h pl isStart s] next_seq_def Let_def prod.case
      len_def [symmetric] len fu_payloads.simps [of h pl isStart]
    by simp
qed

lemma fu_payloads_step:
  "pl \<noteq> [] \<Longrightarrow> fu_payloads h pl isStart =
     (length pl \<le> MTU - 18, snd (hd (fu_payloads h pl isStart))) # fu_payloads h (drop (MTU - 18) pl) False"
  by (simp add: fu_payloads.simps [of h pl isStart] Let_def)

lemma fu_loop_packets:
  "fu_loop al ts h pl isStart s =
     map_sum id (\<lambda>s'. s'\<lparr>rtp_seq := rtp_seq s + of_nat (length (fu_payloads h pl isStart))\<rparr>)
       (put_all (put_packet al) (number_packets (ucast (rtp_seq s)) ts (rtp_ssrc s) (fu_payloads h pl isStart)) s)"
proof (induction "length pl" arbitrary: pl isStart s rule: less_induct)
  case less
  show ?case
  proof (cases "pl = []")
    case True
    show ?thesis unfolding True
      by (simp add: fu_loop.simps [of al ts h "[]"] fu_payloads.simps [of h "[]"])
  next
    case False
    define body where "body = snd (hd (fu_payloads h pl isStart))"
    define rest where "rest = fu_payloads h (drop (MTU - 18) pl) False"
    define packet where
      "packet = build_rtp_header (ucast (rtp_seq s)) ts (rtp_ssrc s) 96 (length pl \<le> MTU - 18) @ body"
    note defs = body_def [symmetric] rest_def [symmetric] packet_def [symmetric]
    note pay = fu_payloads_step [OF False, of h isStart, unfolded defs]
    note step = fu_loop_step [OF False, of al ts h isStart s, unfolded defs]
    have packets: "number_packets (ucast (rtp_seq s)) ts (rtp_ssrc s) (fu_payloads h pl isStart) =
        packet # number_packets (ucast (rtp_seq s) + 1) ts (rtp_ssrc s) rest"
      unfolding pay by (simp add: packet_def)
    have count: "length (fu_payloads h pl isStart) = Suc (length rest)"
      unfolding pay by simp
    show ?thesis
    proof (cases "put_packet al packet s")
      case (Inl e)
      then show ?thesis unfolding step packets count by (simp add: put_packet_seq)
    next
      case (Inr s2)
      have s2: "rtp_ssrc s2 = rtp_ssrc s" using put_packet_keeps [OF Inr] by simp
      have put: "put_packet al packet (s\<lparr>rtp_seq := rtp_seq s + 1\<rparr>) = Inr (s2\<lparr>rtp_seq := rtp_seq s + 1\<rparr>)"
        using Inr by (simp add: put_packet_seq)
      have "length (drop (MTU - 18) pl) < length pl" using False by simp
      note IH = less [OF this, of False "s2\<lparr>rtp_seq := rtp_seq s + 1\<rparr>", unfolded defs]
      show ?thesis unfolding step put packets count sum.case IH
        by (simp add: Inr s2 put_all_seq ucast_Suc ucast_Suc [unfolded add.commute [of _ 1]]
            sum.map_comp o_def id_def ac_simps)
    qed
  qed
qed

lemma rtp_send_h264_packets:
  "rtp_send_h264 al s ts nalu =
     map_sum id (\<lambda>s'. s'\<lparr>rtp_seq := rtp_seq s + of_nat (length (rtp_payloads nalu))\<rparr>)
       (put_all (put_packet al) (rtp_packets (ucast (rtp_seq s)) ts (rtp_ssrc s) nalu) s)"
proof (cases nalu)
  case Nil
  then show ?thesis by (simp add: rtp_send_h264_def rtp_packets_def rtp_payloads_def)
next
  case (Cons h pl)
  show ?thesis
  proof (cases "length nalu \<le> MTU - 16")
    case True
    define packet where
      "packet = build_rtp_header (ucast (rtp_seq s)) ts (rtp_ssrc s) 96 (h AND 0x1F \<notin> {6, 7, 8}) @ nalu"
    have "rtp_send_h264 al s ts nalu = put_packet al packet (s\<lparr>rtp_seq := rtp_seq s + 1\<rparr>)"
      using True Cons by (simp add: rtp_send_h264_def next_seq_def packet_def disj_ac Let_def)
    moreover have "rtp_packets (ucast (rtp_seq s)) ts (rtp_ssrc s) nalu = [packet]"
      "length (rtp_payloads nalu) = 1"
      using True Cons by (simp_all add: rtp_packets_def rtp_payloads_def packet_def)
    ultimately show ?thesis
      by (cases "put_packet al packet s") (simp_all add: put_packet_seq)
  next
    case False
    then have "rtp_payloads nalu = fu_payloads h pl True"
      "rtp_send_h264 al s ts nalu = fu_loop al ts h pl True s"
      using Cons by (simp_all add: rtp_payloads_def rtp_send_h264_def)
    then show ?thesis by (simp add: fu_loop_packets rtp_packets_def)
  qed
qed

section \<open>Transports\<close>

text \<open>
  What the packetizer needs of a transport: in a ready state it takes an acceptable packet
  without a fault and stays ready.
\<close>

locale packet_sink =
  fixes put :: "bytes \<Rightarrow> 's \<Rightarrow> 's res"
    and acceptable :: "bytes \<Rightarrow> bool"
    and ready :: "'s \<Rightarrow> bool"
  assumes put_ok: "ready s \<Longrightarrow> acceptable p \<Longrightarrow> \<exists>s'. put p s = Inr s' \<and> ready s'"
begin

lemma put_all_ok:
  assumes "ready s" and "\<forall>p \<in> set ps. acceptable p"
  shows "\<exists>s'. put_all put ps s = Inr s' \<and> ready s'"
  using assms
proof (induction ps arbitrary: s)
  case (Cons p ps)
  then obtain s1 where 1: "put p s = Inr s1" "ready s1" using put_ok [of s p] by auto
  from Cons.IH [OF 1(2)] Cons.prems(2) 1(1) show ?case by simp
qed simp

end

text \<open>The KCP path: a control block that satisfies its invariant takes every packet.\<close>

definition kcp_ready :: "allocator \<Rightarrow> rtsp_session \<Rightarrow> bool" where
  "kcp_ready al s \<longleftrightarrow> allocator_total al \<and> transType s \<noteq> ''tcp'' \<and>
     (\<exists>kcp. sess_kcp s = Some kcp \<and> api_inv kcp)"

lemma flush_api:
  assumes "api_inv kcp"
  shows "\<exists>kcp' outs. ikcp_flush kcp = Inr (kcp', outs) \<and> api_inv kcp'"
  using flush_safe [of kcp] assms unfolding api_inv_def by auto

interpretation kcp_sink: packet_sink "put_packet al" "\<lambda>p. True" "kcp_ready al" for al
proof
  fix s p
  assume s: "kcp_ready al s"
  then obtain kcp where kcp: "sess_kcp s = Some kcp" "api_inv kcp" by (auto simp: kcp_ready_def)
  obtain k where k: "send_rtp_over_kcp al p (Some kcp) = Inr (Some k)" "api_inv k"
  proof (cases "p = []")
    case True
    then show ?thesis using kcp(2) by (intro that [of kcp]) (simp_all add: send_rtp_over_kcp_def)
  next
    case False
    obtain r k1 where "ikcp_send al kcp p (int (length p)) = Inr (r, k1)" "api_inv k1"
      using send_api [OF kcp(2), of al p] s by (auto simp: kcp_ready_def)
    with False show ?thesis by (intro that [of k1]) (simp_all add: send_rtp_over_kcp_def)
  qed
  obtain k' outs where f: "ikcp_flush k = Inr (k', outs)" "api_inv k'" using flush_api [OF k(2)] by blast
  have "put_packet al p s = Inr (kcp_output (s\<lparr>sess_kcp := Some k'\<rparr>) outs)"
    using s by (simp add: put_packet_def kcp_ready_def kcp(1) k(1) f(1))
  then show "\<exists>s'. put_packet al p s = Inr s' \<and> kcp_ready al s'"
    using s f(2) by (simp add: kcp_ready_def kcp_output_def)
qed

text \<open>
  The TCP path on a blocking socket: a byte stream. \<open>steady n\<close> says that the coming writes
  never fail and that at least \<open>n\<close> of them take bytes, enough for \<open>n\<close> bytes at one byte a call.
\<close>

definition rtp_frame :: "byte \<Rightarrow> bytes \<Rightarrow> bytes" where
  "rtp_frame ch p =
     [36, ch, ucast (drop_bit 8 (of_nat (length p) :: u16)), ucast (of_nat (length p) :: u16)] @ p"

fun progress :: "wres list \<Rightarrow> nat" where
  "progress [] = 0"
| "progress (Wrote n # ws) = Suc (progress ws)"
| "progress (w # ws) = progress ws"

definition steady :: "nat \<Rightarrow> wres list \<Rightarrow> bool" where
  "steady n ws \<longleftrightarrow> blocking ws \<and> Write_error \<notin> set ws \<and> n \<le> progress ws"

lemma tcp_write_loop_steady:
  "steady (length left + n) ws \<Longrightarrow>
   \<exists>ws'. tcp_write_loop ws left sent = Some (False, sent @ left, ws') \<and> steady n ws'"
proof (induction ws left sent rule: tcp_write_loop.induct)
  case (3 w ws b left sent)
  show ?case
  proof (cases w)
    case (Wrote k)
    then have k: "k \<noteq> 0" using 3(3) by (auto simp: steady_def blocking_def)
    have "steady (length (drop k (b # left)) + n) ws"
      using 3(3) k Wrote by (auto simp: steady_def blocking_def)
    with 3(1) [OF Wrote k] show ?thesis using Wrote k by auto
  qed (use 3 in \<open>auto simp: steady_def blocking_def\<close>)
qed (auto simp: steady_def)

lemma low_byte:
  "ucast (drop_bit 8 (of_nat k :: 64 word)) = (ucast (drop_bit 8 (of_nat k :: u16)) :: byte)"
  "ucast (of_nat k :: 64 word) = (ucast (of_nat k :: u16) :: byte)"
  by (rule bit_word_eqI; auto simp: bit_simps)+

definition tcp_ready :: "allocator \<Rightarrow> rtsp_session \<Rightarrow> bool" where
  "tcp_ready al s \<longleftrightarrow> allocator_total al \<and> transType s = ''tcp'' \<and> 0 \<le> client_fd s"

lemma put_packet_tcp:
  assumes "tcp_ready al s" and "steady (length p + 4 + n) (os_writes s)"
  shows "\<exists>s'. put_packet al p s = Inr s' \<and> tcp_ready al s' \<and> steady n (os_writes s') \<and>
    tcp_sent s' = tcp_sent s @ rtp_frame (ucast (rtpChannel s)) p \<and> rtpChannel s' = rtpChannel s"
proof -
  let ?n = "of_nat (length p) :: 64 word" and ?f = "rtp_frame (ucast (rtpChannel s)) p"
  have hdr: "[36, ucast (rtpChannel s), ucast (drop_bit 8 ?n AND 0xFF), ucast (?n AND 0xFF)] @ p = ?f"
    unfolding rtp_frame_def by (simp add: low_byte)
  have len: "length ?f = length p + 4" by (simp add: rtp_frame_def)
  obtain ws where ws: "tcp_write_loop (os_writes s) ?f [] = Some (False, ?f, ws)" "steady n ws"
    using tcp_write_loop_steady [of ?f n "os_writes s" "[]"] assms(2) len by auto
  have "new_block al (4 + length p)" "0 \<le> client_fd s" "transType s = ''tcp''"
    using assms(1) by (simp_all add: tcp_ready_def allocator_total_def)
  then have "put_packet al p s = Inr (s\<lparr>tcp_sent := tcp_sent s @ ?f, os_writes := ws\<rparr>)"
    unfolding put_packet_def send_rtp_over_tcp_def Let_def hdr tcp_write_def ws(1) by simp
  then show ?thesis using assms(1) ws(2) by (simp add: tcp_ready_def)
qed

lemma put_all_tcp:
  assumes "tcp_ready al s" and "steady (length (concat ps) + 4 * length ps + n) (os_writes s)"
  shows "\<exists>s'. put_all (put_packet al) ps s = Inr s' \<and> tcp_ready al s' \<and> steady n (os_writes s') \<and>
    tcp_sent s' = tcp_sent s @ concat (map (rtp_frame (ucast (rtpChannel s))) ps) \<and> rtpChannel s' = rtpChannel s"
  using assms
proof (induction ps arbitrary: s)
  case (Cons p ps)
  have "steady (length p + 4 + (length (concat ps) + 4 * length ps + n)) (os_writes s)"
    using Cons.prems(2) by (simp add: add_ac)
  from put_packet_tcp [OF Cons.prems(1) this] obtain s1 where
    1: "put_packet al p s = Inr s1" "tcp_ready al s1" "steady (length (concat ps) + 4 * length ps + n) (os_writes s1)"
      "tcp_sent s1 = tcp_sent s @ rtp_frame (ucast (rtpChannel s)) p" "rtpChannel s1 = rtpChannel s" by blast
  from Cons.IH [OF 1(2,3)] 1 show ?case by auto
qed simp

section \<open>Shape of the packets\<close>

lemma fu_payloads_Nil [simp]: "fu_payloads h [] b = []"
  by (simp add: fu_payloads.simps)

lemma fu_payloads_bound: "\<forall>(m, p) \<in> set (fu_payloads h pl b). 2 < length p \<and> length p \<le> MTU - 16"
proof (induction h pl b rule: fu_payloads.induct)
  case (1 h pl b)
  show ?case
  proof (cases "pl = []")
    case False
    with 1 [OF False] show ?thesis by (subst fu_payloads.simps) (auto simp: Let_def)
  qed simp
qed

lemma rtp_payloads_bound: "\<forall>(m, p) \<in> set (rtp_payloads nalu). p \<noteq> [] \<and> length p \<le> MTU - 16"
  using fu_payloads_bound [of "hd nalu" "tl nalu" True]
  by (cases nalu) (auto simp: rtp_payloads_def)

lemma set_number_packets:
  "p \<in> set (number_packets sq ts ssrc ps) \<Longrightarrow>
   \<exists>k m q. (m, q) \<in> set ps \<and> p = build_rtp_header k ts ssrc 96 m @ q"
  by (induction sq ts ssrc ps rule: number_packets.induct) auto

lemma nth_number_packets:
  "i < length ps \<Longrightarrow> number_packets sq ts ssrc ps ! i =
     build_rtp_header (sq + of_nat i) ts ssrc 96 (fst (ps ! i)) @ snd (ps ! i)"
proof (induction sq ts ssrc ps arbitrary: i rule: number_packets.induct)
  case (2 sq ts ssrc m p ps)
  then show ?case by (cases i) (auto simp: add_ac)
qed simp

lemma rtp_packets_bound:
  "p \<in> set (rtp_packets sq ts ssrc nalu) \<Longrightarrow> 12 < length p \<and> length p \<le> MTU - 4"
  unfolding rtp_packets_def
  using set_number_packets [of p sq ts ssrc "rtp_payloads nalu"] rtp_payloads_bound [of nalu] by fastforce

lemma fu_payloads_concat: "concat (map (drop 2 \<circ> snd) (fu_payloads h pl b)) = pl"
proof (induction h pl b rule: fu_payloads.induct)
  case (1 h pl b)
  show ?case
  proof (cases "pl = []")
    case False
    with 1 [OF False] show ?thesis by (subst fu_payloads.simps) (simp add: Let_def o_def)
  qed simp
qed

lemma fu_payloads_count: "length (fu_payloads h pl b) = (length pl + 1381) div 1382"
proof (induction h pl b rule: fu_payloads.induct)
  case (1 h pl b)
  show ?case
  proof (cases "pl = []")
    case False
    with 1 [OF False] show ?thesis 
      by (subst fu_payloads.simps) (auto simp: Let_def div_if [of "length pl + 1381"])
  qed simp
qed

section \<open>Splitting undoes joining\<close>

text \<open>
  An Annex B stream: NAL units, each behind a start code of three or four bytes. A \<open>clean\<close>
  unit is one the H.264 syntax allows: it is not empty, its last byte is not zero, and no
  start code occurs inside.
\<close>

definition start_code :: "bool \<Rightarrow> bytes" where
  "start_code long = (if long then [0, 0, 0, 1] else [0, 0, 1])"

definition annexb :: "(bool \<times> bytes) list \<Rightarrow> bytes" where
  "annexb us = concat (map (\<lambda>(long, n). start_code long @ n) us)"

definition clean :: "bytes \<Rightarrow> bool" where
  "clean n \<longleftrightarrow> n \<noteq> [] \<and> last n \<noteq> 0 \<and> \<not> sublist [0, 0, 1] n"

definition no_code :: "bytes \<Rightarrow> bool" where
  "no_code p \<longleftrightarrow> \<not> is_start_code3 p \<and> \<not> is_start_code4 p"

lemma sublist_prefix_drop: "drop k n = p @ q \<Longrightarrow> sublist p n"
  by (metis append_take_drop_id sublist_appendI)

lemma clean_no_code:
  assumes "clean n" and "k < length n"
  shows "no_code (drop k (n @ rest))"
proof -
  define r where "r = drop k n"
  have r: "r \<noteq> []" "last r \<noteq> 0" "drop k (n @ rest) = r @ rest"
    using assms by (simp_all add: r_def clean_def)
  have "\<not> sublist [0, 0, 1] r"
    using assms(1) sublist_order.order_trans [of "[0, 0, 1]" r n] sublist_drop [of k n]
    by (auto simp: clean_def r_def)
  then have no: "r \<noteq> [0, 0, 1] @ q" "r \<noteq> [0, 0, 0, 1] @ q" for q
    using sublist_prefix_drop [of 0 r "[0, 0, 1]" q] sublist_prefix_drop [of 1 r "[0, 0, 1]" q] by auto
  consider a where "r = [a]" | a b where "r = [a, b]" | a b c where "r = [a, b, c]"
    | a b c d q where "r = a # b # c # d # q"
    using r(1) by (metis neq_Nil_conv)
  then show ?thesis
    unfolding r(3) no_code_def is_start_code3_def is_start_code4_def
    by cases (use r(2) no in auto)
qed

lemma split_loop_scan:
  assumes "\<forall>k. i \<le> k \<and> k < j \<longrightarrow> no_code (drop k buf)" and "i \<le> j" and "j \<le> length buf"
  shows "split_loop buf m i st out = split_loop buf m j st out"
  using assms
proof (induction "j - i" arbitrary: i)
  case (Suc d)
  then have i: "i < j" "no_code (drop i buf)" by auto
  show ?case
  proof (cases "i + 3 < length buf")
    case True
    then have "split_loop buf m i st out = split_loop buf m (i + 1) st out"
      using i(2) by (subst split_loop.simps) (simp add: no_code_def)
    also have "\<dots> = split_loop buf m j st out"
      using Suc.prems Suc.hyps(2) by (intro Suc.hyps(1)) auto
    finally show ?thesis .
  next
    case False
    then have "split_loop buf m i st out = (st, out)" by (subst split_loop.simps) simp
    moreover have "split_loop buf m j st out = (st, out)"
      using False i(1) by (subst split_loop.simps) simp
    ultimately show ?thesis by simp
  qed
qed simp

definition close_unit :: "nat \<Rightarrow> nat \<Rightarrow> nat option \<Rightarrow> (nat \<times> nat) list \<Rightarrow> (nat \<times> nat) list" where
  "close_unit m i start out =
     (case start of
        Some st \<Rightarrow> if length out < m then out @ [(st, i - st)] else out
      | None \<Rightarrow> out)"

lemma split_loop_code:
  assumes "buf = pre @ start_code long @ rest" and "rest \<noteq> []"
  shows "split_loop buf m (length pre) start out =
    (let j = length pre + length (start_code long)
     in split_loop buf m j (Some j) (close_unit m (length pre) start out))"
proof -
  have "length pre + 3 < length buf" using assms by (cases rest) (auto simp: start_code_def)
  then show ?thesis
    using assms
    by (subst split_loop.simps)
      (simp add: close_unit_def start_code_def is_start_code3_def is_start_code4_def Let_def eval_nat_numeral)
qed

lemma view_unit: "view (pre @ n @ rest) (length pre, length n) = n"
  by (simp add: view_def)

lemma split_loop_units:
  assumes "\<forall>(long, n) \<in> set us. clean n" and "length out \<le> m"
    and "\<forall>s. start = Some s \<longrightarrow> s < length pre"
    and "buf = pre @ annexb us"
  shows "\<exists>start' out'. split_loop buf m (length pre) start out = (start', out') \<and>
    (\<forall>s. start' = Some s \<longrightarrow> s < length buf) \<and>
    map (view buf) (close_unit m (length buf) start' out') =
      take m (map (view buf) (close_unit m (length pre) start out) @ map snd us)"
  using assms
proof (induction us arbitrary: pre start out)
  case Nil
  have "length (close_unit m (length buf) start out) \<le> m"
    using Nil by (auto simp: close_unit_def split: option.splits)
  moreover have "split_loop buf m (length pre) start out = (start, out)"
    using Nil by (subst split_loop.simps) (simp add: annexb_def)
  ultimately show ?case using Nil by (auto simp: annexb_def)
next
  case (Cons u us)
  obtain long n where u: "u = (long, n)" by (cases u)
  have n: "clean n" "n \<noteq> []" using Cons.prems(1) u by (auto simp: clean_def)
  define c where "c = pre @ start_code long"
  define out1 where "out1 = close_unit m (length pre) start out"
  have buf: "buf = pre @ start_code long @ n @ annexb us" "buf = c @ n @ annexb us"
    "buf = (c @ n) @ annexb us"
    using Cons.prems(4) u by (simp_all add: annexb_def c_def)
  have len1: "length out1 \<le> m"
    using Cons.prems(2) by (auto simp: out1_def close_unit_def split: option.splits)
  have "split_loop buf m (length pre) start out = split_loop buf m (length c) (Some (length c)) out1"
    using split_loop_code [OF buf(1), of m start out] n(2)
    by (simp add: c_def out1_def Let_def)
  also have "\<dots> = split_loop buf m (length (c @ n)) (Some (length c)) out1"
  proof (rule split_loop_scan)
    show "\<forall>k. length c \<le> k \<and> k < length (c @ n) \<longrightarrow> no_code (drop k buf)"
    proof (intro allI impI)
      fix k assume k: "length c \<le> k \<and> k < length (c @ n)"
      then have "drop k buf = drop (k - length c) (n @ annexb us)" using buf(2) by simp
      then show "no_code (drop k buf)" using clean_no_code [OF n(1), of "k - length c" "annexb us"] k by auto
    qed
  qed (use buf(2) in simp_all)
  finally have scan: "split_loop buf m (length pre) start out =
      split_loop buf m (length (c @ n)) (Some (length c)) out1" .
  have "\<exists>start' out'. split_loop buf m (length (c @ n)) (Some (length c)) out1 = (start', out') \<and>
      (\<forall>s. start' = Some s \<longrightarrow> s < length buf) \<and>
      map (view buf) (close_unit m (length buf) start' out') =
        take m (map (view buf) (close_unit m (length (c @ n)) (Some (length c)) out1) @ map snd us)"
    using Cons.prems(1) len1 n(2) buf(3) by (intro Cons.IH) auto
  moreover have "take m (map (view buf) (close_unit m (length (c @ n)) (Some (length c)) out1) @ map snd us) =
      take m (map (view buf) out1 @ map snd (u # us))"
    using len1 buf(2) by (auto simp: close_unit_def u view_unit take_Cons')
  ultimately show ?case unfolding scan out1_def by simp
qed

lemma split_annexb_close:
  assumes "split_loop buf m 0 None [] = (start, out)" and "\<forall>s. start = Some s \<longrightarrow> s < length buf"
  shows "split_annexb_nalus buf m = close_unit m (length buf) start out"
  using assms by (auto simp: split_annexb_nalus_def close_unit_def split: option.splits)

lemma split_annexb_units:
  assumes "\<forall>(long, n) \<in> set us. clean n"
  shows "map (view (annexb us)) (split_annexb_nalus (annexb us) m) = take m (map snd us)"
proof -
  obtain start out where r: "split_loop (annexb us) m 0 None [] = (start, out)"
    "\<forall>s. start = Some s \<longrightarrow> s < length (annexb us)"
    "map (view (annexb us)) (close_unit m (length (annexb us)) start out) =
      take m (map (view (annexb us)) (close_unit m 0 None []) @ map snd us)"
    using split_loop_units [OF assms, of "[]" m None "[]" "annexb us"] by auto
  then show ?thesis using split_annexb_close [OF r(1,2)] by (simp add: close_unit_def)
qed

lemma split_loop_views:
  assumes "\<forall>(o', l) \<in> set out. o' + l \<le> i" and "\<forall>s. start = Some s \<longrightarrow> s \<le> i" and "length out \<le> m"
    and "i \<le> length buf" and "split_loop buf m i start out = (start', out')"
  shows "(\<forall>(o', l) \<in> set out'. o' + l \<le> length buf) \<and> length out' \<le> m"
  using assms
proof (induction buf m i start out rule: split_loop.induct)
  case (1 buf m i start out)
  show ?case
  proof (cases "i + 3 < length buf")
    case False
    then have "out' = out" using "1.prems"(5) by (subst (asm) split_loop.simps) simp
    then show ?thesis using "1.prems" by fastforce
  next
    case True
    define sc where "sc = (if is_start_code4 (drop i buf) then 4 else if is_start_code3 (drop i buf) then 3 else 0 :: nat)"
    show ?thesis
    proof (cases "sc = 0")
      case s: True
      have "split_loop buf m (i + 1) start out = (start', out')"
        using "1.prems"(5) True s by (subst (asm) split_loop.simps) (simp add: sc_def)
      from "1.IH"(2) [OF True sc_def _ _ _ _ _ this] s "1.prems" True show ?thesis by fastforce
    next
      case s: False
      have "split_loop buf m (i + sc) (Some (i + sc)) (close_unit m i start out) = (start', out')"
        using "1.prems"(5) True s unfolding close_unit_def sc_def
        by (subst (asm) split_loop.simps) (simp add: Let_def)
      moreover have "i + sc \<le> length buf" using True by (auto simp: sc_def)
      moreover have "\<forall>(o', l) \<in> set (close_unit m i start out). o' + l \<le> i + sc"
        using "1.prems"(1,2) by (cases start) (auto simp: close_unit_def)
      moreover have "length (close_unit m i start out) \<le> m"
        using "1.prems"(3) by (cases start) (auto simp: close_unit_def)
      ultimately show ?thesis
        using "1.IH"(1) [OF True sc_def] s by (simp add: close_unit_def)
    qed
  qed
qed

lemma split_annexb_inside:
  "(o', l) \<in> set (split_annexb_nalus buf m) \<Longrightarrow> o' + l \<le> length buf"
  "length (split_annexb_nalus buf m) \<le> m"
proof -
  obtain start out where r: "split_loop buf m 0 None [] = (start, out)" by fastforce
  note v = split_loop_views [OF _ _ _ _ r]
  then show "(o', l) \<in> set (split_annexb_nalus buf m) \<Longrightarrow> o' + l \<le> length buf"
    using r by (auto simp: split_annexb_nalus_def split: option.splits if_splits)
  show "length (split_annexb_nalus buf m) \<le> m"
    using v r by (auto simp: split_annexb_nalus_def split: option.splits if_splits)
qed

section \<open>A whole frame\<close>

definition frame_payloads :: "bytes list \<Rightarrow> (bool \<times> bytes) list" where
  "frame_payloads nalus = concat (map rtp_payloads nalus)"

lemma frame_payloads_simps [simp]:
  "frame_payloads [] = []"
  "frame_payloads (n # ns) = rtp_payloads n @ frame_payloads ns"
  by (simp_all add: frame_payloads_def)

lemma number_packets_append:
  "number_packets sq ts ssrc (ps @ qs) =
     number_packets sq ts ssrc ps @ number_packets (sq + of_nat (length ps)) ts ssrc qs"
  by (induction sq ts ssrc ps rule: number_packets.induct) (auto simp: add_ac)

lemma put_all_append:
  "put_all put (ps @ qs) s = (case put_all put ps s of Inl e \<Rightarrow> Inl e | Inr s \<Rightarrow> put_all put qs s)"
  by (induction ps arbitrary: s) (auto split: sum.splits)

lemma put_all_keeps:
  "put_all (put_packet al) ps s = Inr s' \<Longrightarrow> rtp_seq s' = rtp_seq s \<and> rtp_ssrc s' = rtp_ssrc s"
proof (induction ps arbitrary: s)
  case (Cons p ps)
  then obtain s1 where 1: "put_packet al p s = Inr s1" "put_all (put_packet al) ps s1 = Inr s'"
    by (auto split: sum.splits)
  from Cons.IH [OF 1(2)] put_packet_keeps [OF 1(1)] show ?case by simp
qed simp

lemma ucast_add_of_nat: "ucast (w + of_nat k :: 64 word) = (ucast w + of_nat k :: u16)"
proof (induction k)
  case (Suc k)
  have "ucast (w + of_nat (Suc k)) = (ucast ((w + of_nat k) + 1) :: u16)" by (simp add: ac_simps)
  also have "\<dots> = ucast w + of_nat k + 1" unfolding ucast_Suc Suc ..
  finally show ?case by (simp add: ac_simps)
qed simp

lemma send_nalus_packets:
  "send_nalus al ts nalus s =
     map_sum id (\<lambda>s'. s'\<lparr>rtp_seq := rtp_seq s + of_nat (length (frame_payloads nalus))\<rparr>)
       (put_all (put_packet al)
         (number_packets (ucast (rtp_seq s)) ts (rtp_ssrc s) (frame_payloads nalus)) s)"
proof (induction nalus arbitrary: s)
  case (Cons n nalus)
  let ?ps = "rtp_packets (ucast (rtp_seq s)) ts (rtp_ssrc s) n"
  show ?case
  proof (cases "put_all (put_packet al) ?ps s")
    case (Inl e)
    then show ?thesis
      by (simp add: rtp_send_h264_packets number_packets_append put_all_append rtp_packets_def)
  next
    case (Inr s1)
    let ?w = "rtp_seq s + of_nat (length (rtp_payloads n))"
    have k: "rtp_ssrc s1 = rtp_ssrc s" using put_all_keeps [OF Inr] by simp
    have "rtp_send_h264 al s ts n = Inr (s1\<lparr>rtp_seq := ?w\<rparr>)"
      by (simp add: rtp_send_h264_packets Inr)
    then have "send_nalus al ts (n # nalus) s = send_nalus al ts nalus (s1\<lparr>rtp_seq := ?w\<rparr>)" by simp
    also have "\<dots> = map_sum id (\<lambda>s'. s'\<lparr>rtp_seq := ?w + of_nat (length (frame_payloads nalus))\<rparr>)
        (put_all (put_packet al)
          (number_packets (ucast ?w) ts (rtp_ssrc s) (frame_payloads nalus)) s1)"
      unfolding Cons.IH put_all_seq using k by (simp add: sum.map_comp o_def id_def)
    finally show ?thesis
      using Inr
      by (simp add: number_packets_append put_all_append rtp_packets_def ucast_add_of_nat add.assoc id_def)
  qed
qed (simp)

lemma frame_payloads_bound: "(m, p) \<in> set (frame_payloads ns) \<Longrightarrow> p \<noteq> [] \<and> length p \<le> MTU - 16"
  using rtp_payloads_bound by (fastforce simp: frame_payloads_def)

end
