(* ===== verification/Text.thy ===== *)
theory Text
  imports Prelude "HOL-Library.Char_ord" "HOL-Library.List_Lexorder"
begin

text \<open>
  The string operations the programs use: searching (\<^verbatim>\<open>std::string::find\<close>, \<^verbatim>\<open>rfind\<close>, \<^verbatim>\<open>strstr\<close>),
  \<^verbatim>\<open>substr\<close> with its exception, trimming, case folding, \<^verbatim>\<open>atoi\<close>, \<^verbatim>\<open>std::stoul\<close>, \<^verbatim>\<open>std::getline\<close>, the
  extraction operator, decimal output, and \<^verbatim>\<open>std::map\<close> as a list of pairs in key order. They
  are the C and C++ libraries' as far as the sources use them; strings hold single bytes.
\<close>

section \<open>Searching\<close>

function find_from :: "'a list \<Rightarrow> 'a list \<Rightarrow> nat \<Rightarrow> nat option" where
  "find_from s pat p =
     (if p + length pat > length s then None
      else if take (length pat) (drop p s) = pat then Some p
      else find_from s pat (p + 1))"
  by pat_completeness auto
termination by (relation "measure (\<lambda>(s, pat, p). Suc (length s) - p)") auto

declare find_from.simps [simp del]

abbreviation find :: "'a list \<Rightarrow> 'a list \<Rightarrow> nat option" where
  "find s pat \<equiv> find_from s pat 0"

definition occurs :: "'a list \<Rightarrow> 'a list \<Rightarrow> bool" where
  "occurs s pat \<longleftrightarrow> find s pat \<noteq> None"

fun rfind_from :: "'a list \<Rightarrow> 'a list \<Rightarrow> nat \<Rightarrow> nat option" where
  "rfind_from s pat 0 = (if take (length pat) s = pat then Some 0 else None)"
| "rfind_from s pat (Suc p) =
     (if take (length pat) (drop (Suc p) s) = pat then Some (Suc p) else rfind_from s pat p)"

definition rfind :: "'a list \<Rightarrow> 'a list \<Rightarrow> nat option" where
  "rfind s pat = (if length pat > length s then None else rfind_from s pat (length s - length pat))"

text \<open>\<^verbatim>\<open>substr(pos, n)\<close> throws when the position is beyond the end.\<close>

definition substr :: "'a list \<Rightarrow> nat \<Rightarrow> nat \<Rightarrow> 'a list res" where
  "substr s pos n = (if pos > length s then Inl Exception else Inr (take n (drop pos s)))"

section \<open>Characters and trimming\<close>

definition isspace :: "char \<Rightarrow> bool" where
  "isspace c \<longleftrightarrow> c \<in> {CHR '' '', CHR 0x09, CHR 0x0A, CHR 0x0B, CHR 0x0C, CHR 0x0D}"

definition isdigit :: "char \<Rightarrow> bool" where
  "isdigit c \<longleftrightarrow> CHR ''0'' \<le> c \<and> c \<le> CHR ''9''"

definition tolower :: "char \<Rightarrow> char" where
  "tolower c = (if CHR ''A'' \<le> c \<and> c \<le> CHR ''Z'' then char_of (of_char c + 32 :: nat) else c)"

definition trim_set :: "char list \<Rightarrow> string \<Rightarrow> string" where
  "trim_set ws s = rev (dropWhile (\<lambda>c. c \<in> set ws) (rev (dropWhile (\<lambda>c. c \<in> set ws) s)))"

abbreviation blanks :: string where "blanks \<equiv> [CHR '' '', CHR 0x09, CHR 0x0D, CHR 0x0A]"

abbreviation crlf :: string where "crlf \<equiv> [CHR 0x0D, CHR 0x0A]"

section \<open>Numbers\<close>

definition digit_val :: "char \<Rightarrow> nat" where
  "digit_val c = of_char c - 48"

definition digits_val :: "string \<Rightarrow> nat" where
  "digits_val ds = foldl (\<lambda>n c. 10 * n + digit_val c) 0 ds"

text \<open>An optional sign and the digits after the leading white space.\<close>

definition scan_int :: "string \<Rightarrow> bool \<times> string" where
  "scan_int s =
     (case dropWhile isspace s of
        [] \<Rightarrow> (False, [])
      | c # cs \<Rightarrow>
          if c = CHR ''-'' then (True, takeWhile isdigit cs)
          else if c = CHR ''+'' then (False, takeWhile isdigit cs)
          else (False, takeWhile isdigit (c # cs)))"

text \<open>\<^verbatim>\<open>strtol\<close> saturates at the ends of a 64-bit \<^verbatim>\<open>long\<close>; \<^verbatim>\<open>atoi\<close> converts its result to \<^verbatim>\<open>int\<close>.\<close>

definition strtol :: "string \<Rightarrow> int" where
  "strtol s =
     (case scan_int s of (neg, ds) \<Rightarrow>
        max (- (2 ^ 63)) (min (2 ^ 63 - 1) ((if neg then -1 else 1) * int (digits_val ds))))"

definition atoi :: "string \<Rightarrow> int" where
  "atoi s = s32 (strtol s)"

text \<open>\<^verbatim>\<open>std::stoul\<close>: no digits or a value beyond 64 bits throws; a minus sign negates modulo \<open>2 ^ 64\<close>.\<close>

definition stoul :: "string \<Rightarrow> nat res" where
  "stoul s =
     (case scan_int s of (neg, ds) \<Rightarrow>
        if ds = [] \<or> digits_val ds \<ge> 2 ^ 64 then Inl Exception
        else Inr (if neg then (2 ^ 64 - digits_val ds) mod 2 ^ 64 else digits_val ds))"

fun show_nat :: "nat \<Rightarrow> string" where
  "show_nat n = (if n < 10 then [char_of (48 + n)] else show_nat (n div 10) @ [char_of (48 + n mod 10)])"

declare show_nat.simps [simp del]

definition show_int :: "int \<Rightarrow> string" where
  "show_int k = (if k < 0 then CHR ''-'' # show_nat (nat (- k)) else show_nat (nat k))"

section \<open>Lines and words\<close>

text \<open>The pieces \<^verbatim>\<open>std::getline\<close> reads one after the other; a delimiter at the end starts no piece.\<close>

function getparts :: "char \<Rightarrow> string \<Rightarrow> string list" where
  "getparts d s =
     (if s = [] then []
      else takeWhile (\<lambda>c. c \<noteq> d) s # getparts d (drop 1 (dropWhile (\<lambda>c. c \<noteq> d) s)))"
  by pat_completeness auto
termination
proof (relation "measure (\<lambda>(d, s). length s)")
  fix d :: char and s :: string assume "s \<noteq> []"
  have "length (drop 1 (dropWhile (\<lambda>c. c \<noteq> d) s)) \<le> length s - 1"
    using length_dropWhile_le [of "\<lambda>c. c \<noteq> d" s] by (simp add: diff_le_mono)
  also have "\<dots> < length s" using \<open>s \<noteq> []\<close> by simp
  finally show "((d, drop 1 (dropWhile (\<lambda>c. c \<noteq> d) s)), d, s) \<in> measure (\<lambda>(d, s). length s)" by simp
qed simp

declare getparts.simps [simp del]

abbreviation getlines :: "string \<Rightarrow> string list" where
  "getlines \<equiv> getparts (CHR 0x0A)"

lemma getparts_Nil [simp]: "getparts d [] = []"
  by (simp add: getparts.simps)

lemma getparts_append: "d \<notin> set s \<Longrightarrow> getparts d (s @ d # t) = s # getparts d t"
proof -
  assume "d \<notin> set s"
  then have "takeWhile (\<lambda>c. c \<noteq> d) (s @ d # t) = s" "dropWhile (\<lambda>c. c \<noteq> d) (s @ d # t) = d # t"
    by (auto intro!: takeWhile_tail dropWhile_append3 simp: takeWhile_append dropWhile_append)
  then show ?thesis by (subst getparts.simps) simp
qed

lemma getparts_last: "d \<notin> set s \<Longrightarrow> s \<noteq> [] \<Longrightarrow> getparts d s = [s]"
proof -
  assume s: "d \<notin> set s" "s \<noteq> []"
  then have *: "takeWhile (\<lambda>c. c \<noteq> d) s = s" "dropWhile (\<lambda>c. c \<noteq> d) s = []"
    by (auto simp: takeWhile_eq_all_conv)
  show ?thesis unfolding getparts.simps [of d s] * using s(2) by simp
qed

text \<open>Extraction of one word with \<^verbatim>\<open>operator>>\<close>: the word and what follows it.\<close>

definition next_word :: "string \<Rightarrow> string \<times> string" where
  "next_word s =
     (let t = dropWhile isspace s
      in (takeWhile (\<lambda>c. \<not> isspace c) t, dropWhile (\<lambda>c. \<not> isspace c) t))"

section \<open>Ordered maps\<close>

fun omap_insert :: "'k :: linorder \<Rightarrow> 'v \<Rightarrow> ('k \<times> 'v) list \<Rightarrow> ('k \<times> 'v) list" where
  "omap_insert k v [] = [(k, v)]"
| "omap_insert k v ((k', v') # m) =
     (if k < k' then (k, v) # (k', v') # m
      else if k = k' then (k, v) # m
      else (k', v') # omap_insert k v m)"

definition omap_erase :: "'k \<Rightarrow> ('k \<times> 'v) list \<Rightarrow> ('k \<times> 'v) list" where
  "omap_erase k m = filter (\<lambda>(k', _). k' \<noteq> k) m"

abbreviation omap_ok :: "('k :: linorder \<times> 'v) list \<Rightarrow> bool" where
  "omap_ok m \<equiv> sorted_wrt (<) (map fst m)"

lemma keys_omap_insert [simp]: "fst ` set (omap_insert k v m) = insert k (fst ` set m)"
  by (induction k v m rule: omap_insert.induct) auto

lemma omap_ok_insert: "omap_ok m \<Longrightarrow> omap_ok (omap_insert k v m)"
proof (induction k v m rule: omap_insert.induct)
  case (2 k v k' v' m)
  have "fst ` set (omap_insert k v m) = insert k (fst ` set m)" by (rule keys_omap_insert)
  with 2 show ?case by auto
qed simp

lemma omap_ok_filter: "omap_ok m \<Longrightarrow> omap_ok (filter P m)"
  by (induction m) auto

lemma map_of_filter_key:
  "distinct (map fst m) \<Longrightarrow> map_of (filter P m) k =
     (case map_of m k of None \<Rightarrow> None | Some v \<Rightarrow> if P (k, v) then Some v else None)"
proof (induction m)
  case (Cons x m)
  have "map_of m (fst x) = None" using Cons.prems by (simp add: map_of_eq_None_iff)
  with Cons show ?case by (cases x) (auto split: option.splits)
qed simp

lemma omap_ok_erase: "omap_ok m \<Longrightarrow> omap_ok (omap_erase k m)"
  by (simp add: omap_erase_def omap_ok_filter)

lemma lookup_omap_insert: "omap_ok m \<Longrightarrow> map_of (omap_insert k v m) = (map_of m)(k \<mapsto> v)"
  by (induction k v m rule: omap_insert.induct) (auto simp: fun_eq_iff dest: order_less_imp_le)

lemma lookup_omap_erase: "map_of (omap_erase k m) = (map_of m)(k := None)"
  by (induction m) (auto simp: omap_erase_def fun_eq_iff)

text \<open>
  What the components that keep their state in a map rely on: a lookup after an insertion or a
  removal, and that both keep the map well formed.
\<close>

locale dictionary =
  fixes ins :: "'k \<Rightarrow> 'v \<Rightarrow> 'm \<Rightarrow> 'm"
    and del :: "'k \<Rightarrow> 'm \<Rightarrow> 'm"
    and get :: "'m \<Rightarrow> 'k \<Rightarrow> 'v option"
    and ok :: "'m \<Rightarrow> bool"
  assumes ok_ins: "ok m \<Longrightarrow> ok (ins k v m)"
    and ok_del: "ok m \<Longrightarrow> ok (del k m)"
    and get_ins: "ok m \<Longrightarrow> get (ins k v m) k' = (if k' = k then Some v else get m k')"
    and get_del: "ok m \<Longrightarrow> get (del k m) k' = (if k' = k then None else get m k')"
begin

lemma get_del_ins: "ok m \<Longrightarrow> get m k = None \<Longrightarrow> get (del k (ins k v m)) k' = get m k'"
  by (simp add: get_del get_ins ok_ins)

lemma ok_fold_ins: "ok m \<Longrightarrow> ok (foldr (\<lambda>(k, v). ins k v) kvs m)"
  by (induction kvs) (auto intro: ok_ins)

end

interpretation omap: dictionary "omap_insert :: 'k :: linorder \<Rightarrow> 'v \<Rightarrow> _" omap_erase map_of omap_ok
proof
  fix m :: "('k \<times> 'v) list" and k k' v
  assume ok: "omap_ok m"
  show "omap_ok (omap_insert k v m)" using ok by (rule omap_ok_insert)
  show "omap_ok (omap_erase k m)" using ok by (rule omap_ok_erase)
  show "map_of (omap_insert k v m) k' = (if k' = k then Some v else map_of m k')"
    by (simp add: lookup_omap_insert [OF ok])
  show "map_of (omap_erase k m) k' = (if k' = k then None else map_of m k')"
    by (simp add: lookup_omap_erase)
qed

section \<open>Facts on searching\<close>

lemma find_from_SomeD:
  "find_from s pat p = Some i \<Longrightarrow> p \<le> i \<and> i + length pat \<le> length s \<and> take (length pat) (drop i s) = pat"
proof (induction s pat p rule: find_from.induct)
  case (1 s pat p)
  then show ?case
    by (subst (asm) (2) find_from.simps) (auto split: if_splits)
qed

lemma find_from_first:
  assumes "p \<le> i" and "i + length pat \<le> length s" and "take (length pat) (drop i s) = pat"
    and "\<And>j. p \<le> j \<Longrightarrow> j < i \<Longrightarrow> take (length pat) (drop j s) \<noteq> pat"
  shows "find_from s pat p = Some i"
  using assms
proof (induction "i - p" arbitrary: p)
  case 0
  then show ?case by (subst find_from.simps) simp
next
  case (Suc d)
  then have "find_from s pat (p + 1) = Some i" by (intro Suc.hyps(1)) auto
  moreover have "take (length pat) (drop p s) \<noteq> pat" "\<not> p + length pat > length s"
    using Suc.prems Suc.hyps(2) by auto
  ultimately show ?case by (subst find_from.simps) simp
qed

lemma find_from_None:
  "find_from s pat p = None \<Longrightarrow> p \<le> i \<Longrightarrow> i + length pat \<le> length s \<Longrightarrow> take (length pat) (drop i s) \<noteq> pat"
proof (induction s pat p rule: find_from.induct)
  case (1 s pat p)
  then show ?case
    by (subst (asm) (2) find_from.simps) (cases "p = i"; auto split: if_splits)
qed

lemma rfind_from_Some: "rfind_from s pat p = Some i \<Longrightarrow> i \<le> p \<and> take (length pat) (drop i s) = pat"
  by (induction s pat p rule: rfind_from.induct) (auto split: if_splits)

lemma rfind_from_None: "rfind_from s pat p = None \<Longrightarrow> i \<le> p \<Longrightarrow> take (length pat) (drop i s) \<noteq> pat"
  by (induction s pat p rule: rfind_from.induct) (auto split: if_splits simp: le_Suc_eq)

lemma rfind_SomeD: "rfind s pat = Some i \<Longrightarrow> i + length pat \<le> length s \<and> take (length pat) (drop i s) = pat"
  by (auto simp: rfind_def dest: rfind_from_Some split: if_splits)

lemma rfind_None_iff: "rfind s pat = None \<longleftrightarrow> find s pat = None"
proof
  assume r: "rfind s pat = None"
  show "find s pat = None"
  proof (rule ccontr)
    assume "find s pat \<noteq> None"
    then obtain i where i: "find s pat = Some i" by blast
    with find_from_SomeD [OF i] r show False
      by (auto simp: rfind_def dest: rfind_from_None [where i = i] split: if_splits)
  qed
next
  assume f: "find s pat = None"
  show "rfind s pat = None"
  proof (rule ccontr)
    assume "rfind s pat \<noteq> None"
    then obtain i where i: "rfind s pat = Some i" by blast
    with rfind_SomeD [OF i] find_from_None [OF f, of i] show False by simp
  qed
qed

section \<open>Decimal numbers round trip\<close>

lemma digit_char: "n < 10 \<Longrightarrow> isdigit (char_of (48 + n)) \<and> digit_val (char_of (48 + n)) = n"
  by (simp add: isdigit_def digit_val_def less_eq_char_def)

lemma show_nat_digits: "list_all isdigit (show_nat n) \<and> show_nat n \<noteq> [] \<and> digits_val (show_nat n) = n"
proof (induction n rule: show_nat.induct)
  case (1 n)
  show ?case
  proof (cases "n < 10")
    case True
    then show ?thesis using digit_char [OF True]
      by (subst show_nat.simps, subst (2) show_nat.simps, subst (3) show_nat.simps) (simp add: digits_val_def)
  next
    case False
    have e: "show_nat n = show_nat (n div 10) @ [char_of (48 + n mod 10)]"
      using False by (subst show_nat.simps) simp
    have d: "isdigit (char_of (48 + n mod 10)) \<and> digit_val (char_of (48 + n mod 10)) = n mod 10"
      by (rule digit_char) simp
    show ?thesis using 1 [OF False] d unfolding e by (simp add: digits_val_def)
  qed
qed

end
