(* ===== verification/Reassembler.thy ===== *)
theory Reassembler
  imports Rtp Text
begin

unbundle bit_operations_syntax

text \<open>
  The player's side of RTP (\<^verbatim>\<open>h264rtpreassembler.h\<close> and \<^verbatim>\<open>.cpp\<close> of the Qt program): parsing a
  packet, dropping duplicates, resetting on large gaps, collecting FU-A fragments in a map
  ordered by sequence number, and putting frames out. The record has the members of the class;
  \<open>emitted\<close> holds the frames given to the signal \<^verbatim>\<open>onFrameReady\<close>. A \<^verbatim>\<open>QMap\<close> is a list of
  pairs in the order of its keys.
\<close>

section \<open>Parsing\<close>

record RtpPacket =
  vpxcc :: byte
  mpt :: byte
  marker :: bool
  pkt_seq :: u16
  timestamp :: u32
  ssrc :: u32
  pkt_payload :: "bytes option"
  payloadLen :: int

text \<open>
  Reading a byte of a \<^verbatim>\<open>QByteArray\<close> through its data pointer: a terminating zero follows the
  last byte, and nothing after it may be read.
\<close>

definition qbyte :: "bytes \<Rightarrow> nat \<Rightarrow> byte res" where
  "qbyte ba i = (if i < length ba then Inr (ba ! i) else if i = length ba then Inr 0 else Inl Out_of_bounds)"

definition parseRtp :: "bytes \<Rightarrow> RtpPacket res" where
  "parseRtp ba =
     rbind (qbyte ba 0) (\<lambda>p0. rbind (qbyte ba 1) (\<lambda>p1. rbind (qbyte ba 2) (\<lambda>p2.
     rbind (qbyte ba 3) (\<lambda>p3. rbind (qbyte ba 4) (\<lambda>p4. rbind (qbyte ba 5) (\<lambda>p5.
     rbind (qbyte ba 6) (\<lambda>p6. rbind (qbyte ba 7) (\<lambda>p7. rbind (qbyte ba 8) (\<lambda>p8.
     rbind (qbyte ba 9) (\<lambda>p9. rbind (qbyte ba 10) (\<lambda>p10. rbind (qbyte ba 11) (\<lambda>p11.
       let len = int (length ba) - 12
       in Inr \<lparr> vpxcc = p0, mpt = p1, marker = (p1 AND 0x80 \<noteq> 0), pkt_seq = be16 p2 p3,
                timestamp = be32 p4 p5 p6 p7, ssrc = be32 p8 p9 p10 p11,
                pkt_payload = (if len < 0 then None else Some (drop 12 ba)),
                payloadLen = (if len < 0 then 0 else len) \<rparr>))))))))))))"

section \<open>The reassembler\<close>

record reassembler =
  frame :: bytes
  fuBuffer :: "(u16 \<times> bytes) list"
  fuStarted :: bool
  lastSeq :: u16
  spsNalu :: bytes
  ppsNalu :: bytes
  fuStartSeq :: u16
  fuExpectedSeq :: u16
  emitted :: "(string \<times> bytes) list"

abbreviation maxSeqGap :: int where "maxSeqGap \<equiv> 3"
abbreviation maxFuBufferSize :: nat where "maxFuBufferSize \<equiv> 1024"

definition new_reassembler :: reassembler where
  "new_reassembler =
     \<lparr> frame = [], fuBuffer = [], fuStarted = False, lastSeq = 0, spsNalu = [], ppsNalu = [],
       fuStartSeq = 0, fuExpectedSeq = 0, emitted = [] \<rparr>"

definition appendStartCode4 :: "bytes \<Rightarrow> bytes" where
  "appendStartCode4 ba = ba @ [0, 0, 0, 1]"

definition checkAndSaveSpsPps :: "byte \<Rightarrow> bytes \<Rightarrow> reassembler \<Rightarrow> reassembler" where
  "checkAndSaveSpsPps nalType naluData r =
     (if nalType = 7 then r\<lparr>spsNalu := naluData\<rparr>
      else if nalType = 8 then r\<lparr>ppsNalu := naluData\<rparr>
      else r)"

definition reset_fu :: "reassembler \<Rightarrow> reassembler" where
  "reset_fu r = r\<lparr>fuBuffer := [], fuStarted := False, fuExpectedSeq := 0, fuStartSeq := 0\<rparr>"

definition output_frame :: "string \<Rightarrow> RtpPacket \<Rightarrow> reassembler \<Rightarrow> reassembler" where
  "output_frame name pkt r =
     (if marker pkt \<and> frame r \<noteq> [] then r\<lparr>emitted := emitted r @ [(name, frame r)], frame := []\<rparr> else r)"

text \<open>The walk over the map at the end fragment: whether every key was the expected one, and the next.\<close>

fun fu_check :: "u16 \<Rightarrow> (u16 \<times> bytes) list \<Rightarrow> bool \<times> u16" where
  "fu_check expected [] = (True, expected)"
| "fu_check expected ((k, u) # m) = (if k \<noteq> expected then (False, expected) else fu_check (expected + 1) m)"

definition finish_fu :: "u16 \<Rightarrow> byte \<Rightarrow> reassembler \<Rightarrow> reassembler" where
  "finish_fu sq realNalType r =
     (let (isComplete, expectedSeq) = fu_check (fuStartSeq r) (fuBuffer r);
          r = (if isComplete \<and> uint sq = uint expectedSeq - 1 then
                 let naluData = appendStartCode4 [] @ concat (map snd (fuBuffer r));
                     r = checkAndSaveSpsPps realNalType naluData r
                 in r\<lparr>frame := frame r @ naluData\<rparr>
               else r)
      in reset_fu r)"

text \<open>The part for FU-A packets; \<^const>\<open>True\<close> beside the new state when it returned early.\<close>

definition process_fu :: "u16 \<Rightarrow> bytes \<Rightarrow> reassembler \<Rightarrow> bool \<times> reassembler" where
  "process_fu sq pl r =
     (if length pl < 2 then (True, reset_fu r)
      else
        let fuIndicator = pl ! 0;
            fuHeader = pl ! 1;
            isFuStart = (fuHeader AND 0x80 \<noteq> 0);
            isFuEnd = (fuHeader AND 0x40 \<noteq> 0);
            realNalType = fuHeader AND 0x1F
        in if realNalType = 0 \<or> realNalType \<ge> 24 then (True, reset_fu r)
           else if isFuStart then
             let r = r\<lparr>fuStarted := True, fuStartSeq := sq, fuExpectedSeq := sq + 1, fuBuffer := []\<rparr>
             in if length pl > 2 then
                  let unitData = [(fuIndicator AND 0xE0) OR realNalType] @ drop 2 pl;
                      r = r\<lparr>fuBuffer := omap_insert sq unitData (fuBuffer r)\<rparr>
                  in (False, if length (fuBuffer r) > maxFuBufferSize then reset_fu r else r)
                else (True, r\<lparr>fuStarted := False, fuExpectedSeq := 0, fuStartSeq := 0\<rparr>)
           else if fuStarted r then
             let seqGap = uint sq - uint (fuExpectedSeq r)
             in if seqGap < 0 then (True, r)
                else if seqGap > maxSeqGap then (True, reset_fu r)
                else
                  let r = r\<lparr>fuBuffer := omap_insert sq (drop 2 pl) (fuBuffer r)\<rparr>;
                      r = (if sq \<ge> fuExpectedSeq r then r\<lparr>fuExpectedSeq := sq + 1\<rparr> else r)
                  in if length (fuBuffer r) > maxFuBufferSize then (True, reset_fu r)
                     else (False, if isFuEnd then finish_fu sq realNalType r else r)
           else (False, r))"

definition processRtpNalu :: "string \<Rightarrow> RtpPacket \<Rightarrow> reassembler \<Rightarrow> reassembler" where
  "processRtpNalu name pkt r =
     (case pkt_payload pkt of
        None \<Rightarrow> r
      | Some pl \<Rightarrow>
          if payloadLen pkt < 1 then r
          else
            let nalType = pl ! 0 AND 0x1F
            in if nalType > 0 \<and> nalType < 24 then
                 let r = (if fuStarted r then reset_fu r else r);
                     naluData = appendStartCode4 [] @ pl;
                     r = checkAndSaveSpsPps nalType naluData r;
                     r = r\<lparr>frame := frame r @ naluData\<rparr>;
                     r = output_frame name pkt r
                 in output_frame name pkt r
               else if nalType = 28 then
                 (case process_fu (pkt_seq pkt) pl r of
                    (True, r) \<Rightarrow> r
                  | (False, r) \<Rightarrow> output_frame name pkt r)
               else output_frame name pkt r)"

definition handleRtp :: "string \<Rightarrow> bytes \<Rightarrow> reassembler \<Rightarrow> reassembler res" where
  "handleRtp name packet r =
     (if packet = [] then Inr r
      else
        rbind (parseRtp packet) (\<lambda>pkt.
          if pkt_payload pkt = None \<or> payloadLen pkt \<le> 0 then Inr r
          else
            let sq = pkt_seq pkt;
                isDuplicate = (lastSeq r \<noteq> 0 \<and> sq \<le> lastSeq r \<and>
                  \<not> (uint (lastSeq r) > 65535 - maxSeqGap \<and> uint sq < maxSeqGap))
            in if isDuplicate then Inr r
               else
                 let seqGap = (if lastSeq r > sq then (65535 - uint (lastSeq r)) + uint sq + 1
                               else uint sq - uint (lastSeq r));
                     r = (if lastSeq r \<noteq> 0 \<and> seqGap > maxSeqGap then reset_fu (r\<lparr>frame := []\<rparr>) else r);
                     r = processRtpNalu name pkt r
                 in Inr (r\<lparr>lastSeq := sq\<rparr>)))"

fun handle_all :: "string \<Rightarrow> bytes list \<Rightarrow> reassembler \<Rightarrow> reassembler res" where
  "handle_all name [] r = Inr r"
| "handle_all name (p # ps) r = (case handleRtp name p r of Inl e \<Rightarrow> Inl e | Inr r \<Rightarrow> handle_all name ps r)"

section \<open>Parsing what the camera builds\<close>

lemma marker_bit: "(((pt AND 0x7F) OR (if m then 0x80 else 0)) AND 0x80 \<noteq> (0 :: byte)) = m"
proof -
  have "((pt AND 0x7F) OR x) AND 0x80 = x AND (0x80 :: byte)" for x
    by (simp add: bit.conj_disj_distrib2 and.assoc)
  then show ?thesis by simp
qed

lemma parseRtp_build:
  "parseRtp (build_rtp_header sq ts ss pt m @ pl) =
     Inr \<lparr> vpxcc = 0x80, mpt = (pt AND 0x7F) OR (if m then 0x80 else 0), marker = m, pkt_seq = sq,
           timestamp = ts, ssrc = ss, pkt_payload = Some pl, payloadLen = int (length pl) \<rparr>"
  by (simp add: parseRtp_def build_rtp_header_def qbyte_def be16_split be32_split marker_bit nth_Cons')

lemma parseRtp_ok_iff: "(\<exists>pkt. parseRtp ba = Inr pkt) \<longleftrightarrow> 11 \<le> length ba"
  by (auto simp: parseRtp_def qbyte_def fault_simps Let_def)

lemma parseRtp_short: "\<not> 11 \<le> length ba \<Longrightarrow> parseRtp ba = Inl Out_of_bounds"
  by (simp add: parseRtp_def qbyte_def rbind_def)

section \<open>One packet\<close>

definition rtp_pkt :: "u16 \<Rightarrow> u32 \<Rightarrow> u32 \<Rightarrow> bool \<Rightarrow> bytes \<Rightarrow> RtpPacket" where
  "rtp_pkt sq ts ss m pl =
     \<lparr> vpxcc = 0x80, mpt = 96 OR (if m then 0x80 else 0), marker = m, pkt_seq = sq,
       timestamp = ts, ssrc = ss, pkt_payload = Some pl, payloadLen = int (length pl) \<rparr>"

lemma rtp_pkt_simps [simp]:
  "marker (rtp_pkt sq ts ss m pl) = m" "pkt_seq (rtp_pkt sq ts ss m pl) = sq"
  "pkt_payload (rtp_pkt sq ts ss m pl) = Some pl" "payloadLen (rtp_pkt sq ts ss m pl) = int (length pl)"
  by (simp_all add: rtp_pkt_def)

text \<open>The packet is the next one, or no more than two are missing before it.\<close>

definition follows :: "reassembler \<Rightarrow> u16 \<Rightarrow> bool" where
  "follows r sq \<longleftrightarrow> lastSeq r = 0 \<or> lastSeq r < sq \<and> uint sq - uint (lastSeq r) \<le> maxSeqGap"

lemma handleRtp_follows:
  assumes "follows r sq" and "pl \<noteq> []"
  shows "handleRtp name (build_rtp_header sq ts ss 96 m @ pl) r =
    Inr ((processRtpNalu name (rtp_pkt sq ts ss m pl) r)\<lparr>lastSeq := sq\<rparr>)"
proof -
  have p: "parseRtp (build_rtp_header sq ts ss 96 m @ pl) = Inr (rtp_pkt sq ts ss m pl)"
    by (simp add: parseRtp_build rtp_pkt_def)
  have ne: "build_rtp_header sq ts ss 96 m @ pl \<noteq> []" by (simp add: build_rtp_header_def)
  have dup: "\<not> (lastSeq r \<noteq> 0 \<and> sq \<le> lastSeq r \<and> X)" for X using assms(1) by (auto simp: follows_def)
  have gap: "\<not> (lastSeq r \<noteq> 0 \<and>
      (if lastSeq r > sq then (65535 - uint (lastSeq r)) + uint sq + 1 else uint sq - uint (lastSeq r)) > maxSeqGap)"
    using assms(1) by (auto simp: follows_def)
  have len: "\<not> (Some pl = None \<or> int (length pl) \<le> 0)"
    using assms(2) by simp
  show ?thesis
    unfolding handleRtp_def Let_def p rbind_simps if_not_P [OF ne] rtp_pkt_simps if_not_P [OF len]
      if_not_P [OF dup] if_not_P [OF gap] by (rule refl)
qed

section \<open>Unit types and the FU-A bytes\<close>

definition plain_type :: "byte \<Rightarrow> bool" where
  "plain_type h \<longleftrightarrow> 0 < h AND 0x1F \<and> h AND 0x1F < 24"

lemma fu_bytes:
  "((h AND 0xE0) OR 28) AND 0x1F = (28 :: byte)"
  "((h AND 0xE0) OR 28) AND 0xE0 = h AND 0xE0"
  "((if s then 0x80 else 0) OR (if e then 0x40 else 0) OR (h AND 0x1F)) AND 0x80 \<noteq> (0 :: byte) \<longleftrightarrow> s"
  "((if s then 0x80 else 0) OR (if e then 0x40 else 0) OR (h AND 0x1F)) AND 0x40 \<noteq> (0 :: byte) \<longleftrightarrow> e"
  "((if s then 0x80 else 0) OR (if e then 0x40 else 0) OR (h AND 0x1F)) AND 0x1F = h AND (0x1F :: byte)"
  "(h AND 0xE0) OR (h AND 0x1F) = (h :: byte)"
proof -
  have "(h AND 0xE0) OR (h AND 0x1F) = h AND (0xE0 OR 0x1F)"
    by (simp only: bit.conj_disj_distrib)
  also have "(0xE0 OR 0x1F :: byte) = - 1" by simp
  finally show "(h AND 0xE0) OR (h AND 0x1F) = h" by simp
qed (cases s; cases e; simp add: bit.conj_disj_distrib2 and.assoc)+

section \<open>Single units\<close>

abbreviation coded :: "bytes \<Rightarrow> bytes" where "coded n \<equiv> [0, 0, 0, 1] @ n"

text \<open>
  \<open>takes name m n r r'\<close>: the unit \<open>n\<close> was added to the frame and the frame was put out when \<open>m\<close>
  holds; no fragment is pending.
\<close>

definition takes :: "string \<Rightarrow> bool \<Rightarrow> bytes \<Rightarrow> reassembler \<Rightarrow> reassembler \<Rightarrow> bool" where
  "takes name m n r r' \<longleftrightarrow>
     \<not> fuStarted r' \<and>
     (if m then frame r' = [] \<and> emitted r' = emitted r @ [(name, frame r @ coded n)]
      else frame r' = frame r @ coded n \<and> emitted r' = emitted r)"

lemma frame_save [simp]:
  "frame (checkAndSaveSpsPps t d r) = frame r" "emitted (checkAndSaveSpsPps t d r) = emitted r"
  "fuStarted (checkAndSaveSpsPps t d r) = fuStarted r"
  by (simp_all add: checkAndSaveSpsPps_def)

lemma reset_fu_simps [simp]:
  "frame (reset_fu r) = frame r" "emitted (reset_fu r) = emitted r" "fuStarted (reset_fu r) = False"
  "fuBuffer (reset_fu r) = []" "lastSeq (reset_fu r) = lastSeq r"
  by (simp_all add: reset_fu_def)

lemma process_single:
  assumes "plain_type h"
  shows "takes name m (h # d) r (processRtpNalu name (rtp_pkt sq ts ss m (h # d)) r)"
  using assms
  by (simp add: processRtpNalu_def plain_type_def takes_def output_frame_def appendStartCode4_def Let_def)

section \<open>Fragments\<close>

fun seq_zip :: "nat \<Rightarrow> 'a list \<Rightarrow> (u16 \<times> 'a) list" where
  "seq_zip a [] = []"
| "seq_zip a (d # ds) = (of_nat a, d) # seq_zip (Suc a) ds"

lemma seq_zip_snoc: "seq_zip a (ds @ [d]) = seq_zip a ds @ [(of_nat (a + length ds), d)]"
  by (induction ds arbitrary: a) auto

lemma length_seq_zip [simp]: "length (seq_zip a ds) = length ds"
  by (induction ds arbitrary: a) auto

lemma map_snd_seq_zip [simp]: "map snd (seq_zip a ds) = ds"
  by (induction ds arbitrary: a) auto

lemma fu_check_seq_zip: "fu_check (of_nat a) (seq_zip a ds) = (True, of_nat (a + length ds))"
proof (induction ds arbitrary: a)
  case (Cons d ds)
  show ?case using Cons [of "Suc a"] by (simp add: add.commute)
qed simp

lemma u16_nat: "n < 65536 \<Longrightarrow> unat (of_nat n :: u16) = n" "n < 65536 \<Longrightarrow> uint (of_nat n :: u16) = int n"
  by (simp_all add: unat_of_nat unsigned_of_nat take_bit_nat_eq_self take_bit_int_eq_self)

lemma u16_less: "m < 65536 \<Longrightarrow> n < 65536 \<Longrightarrow> (of_nat m :: u16) < of_nat n \<longleftrightarrow> m < n"
  by (simp add: word_less_nat_alt u16_nat)

lemma keys_seq_zip: "(k, d) \<in> set (seq_zip a ds) \<Longrightarrow> \<exists>i. k = of_nat i \<and> a \<le> i \<and> i < a + length ds"
  by (induction ds arbitrary: a) fastforce+

lemma omap_insert_last: "\<forall>(k', d') \<in> set m. k' < k \<Longrightarrow> omap_insert k d m = m @ [(k, d)]"
  by (induction m) auto

lemma omap_insert_seq_zip:
  assumes "a + length ds < 65536"
  shows "omap_insert (of_nat (a + length ds)) d (seq_zip a ds) = seq_zip a (ds @ [d])"
  unfolding seq_zip_snoc
proof (rule omap_insert_last, rule ballI)
  fix x assume "x \<in> set (seq_zip a ds)"
  moreover obtain k d' where x: "x = (k, d')" by (cases x)
  ultimately obtain i where i: "k = of_nat i" "i < a + length ds"
    using keys_seq_zip [of k d' a ds] by metis
  have "i < 65536" using assms i(2) by linarith
  then have "k < of_nat (a + length ds)"
    unfolding i(1) using u16_less [of i "a + length ds"] assms i(2) by metis
  then show "case x of (k', d') \<Rightarrow> k' < of_nat (a + length ds)" by (simp only: x prod.case)
qed

text \<open>The fragments \<open>ds\<close> with the numbers from \<open>a\<close> on have been stored.\<close>

definition collecting :: "nat \<Rightarrow> bytes list \<Rightarrow> reassembler \<Rightarrow> bool" where
  "collecting a ds r \<longleftrightarrow> fuStarted r \<and> ds \<noteq> [] \<and> fuStartSeq r = of_nat a \<and> fuBuffer r = seq_zip a ds \<and>
     fuExpectedSeq r = of_nat (a + length ds) \<and> lastSeq r = of_nat (a + length ds - 1)"

lemma collecting_follows:
  assumes "collecting a ds r" and "a + length ds \<le> 65535"
  shows "follows r (of_nat (a + length ds))"
proof -
  obtain c where c: "a + length ds = Suc c" using assms(1) by (cases ds) (auto simp: collecting_def)
  then have "lastSeq r = of_nat c" using assms(1) by (simp add: collecting_def del: of_nat_add)
  moreover have "c < 65536" "Suc c < 65536" using assms(2) c by simp_all
  ultimately show ?thesis
    unfolding c follows_def by (simp add: u16_nat u16_less del: of_nat_Suc)
qed

definition fu_body :: "byte \<Rightarrow> bool \<Rightarrow> bool \<Rightarrow> bytes \<Rightarrow> bytes" where
  "fu_body h s e d =
     [(h AND 0xE0) OR 28, (if s then 0x80 else 0) OR (if e then 0x40 else 0) OR (h AND 0x1F)] @ d"

lemma process_fu_start:
  assumes "plain_type h" and "d \<noteq> []"
  shows "process_fu sq (fu_body h True False d) r =
    (False, r\<lparr>fuStarted := True, fuStartSeq := sq, fuExpectedSeq := sq + 1, fuBuffer := [(sq, h # d)]\<rparr>)"
proof -
  have "\<not> h AND 0x1F \<ge> 24" "h AND 0x1F \<noteq> 0" using assms(1) by (auto simp: plain_type_def)
  moreover have "2 < length (fu_body h True False d)" using assms(2) by (cases d) (auto simp: fu_body_def)
  ultimately show ?thesis
    using fu_bytes(5) [of True False h] fu_bytes(3) [of True False h]
    by (simp add: process_fu_def fu_body_def Let_def fu_bytes(2,6))
qed

lemma process_fu_next:
  assumes "plain_type h" and "collecting a ds r" and "a + length ds < 65536" and "length ds < 1024"
  shows "process_fu (of_nat (a + length ds)) (fu_body h False e d) r =
    (let r1 = r\<lparr>fuBuffer := seq_zip a (ds @ [d]), fuExpectedSeq := of_nat (a + length (ds @ [d]))\<rparr>
     in (False, if e then finish_fu (of_nat (a + length ds)) (h AND 0x1F) r1 else r1))"
proof -
  have "\<not> h AND 0x1F \<ge> 24" "h AND 0x1F \<noteq> 0" using assms(1) by (auto simp: plain_type_def)
  moreover have "omap_insert (of_nat (a + length ds)) d (fuBuffer r) = seq_zip a (ds @ [d])"
    "fuStarted r" "fuExpectedSeq r = of_nat (a + length ds)"
    using assms(2,3) omap_insert_seq_zip [of a ds d] by (auto simp: collecting_def)
  ultimately show ?thesis
    using assms(4) fu_bytes(5) [of False e h] fu_bytes(3,4) [of False e h]
    by (cases e) (simp_all add: process_fu_def fu_body_def Let_def add_ac)
qed

lemma finish_fu_collected:
  assumes "fuStartSeq r = of_nat a" and "fuBuffer r = seq_zip a ds" and "ds \<noteq> []" and "a + length ds \<le> 65535"
  shows "finish_fu (of_nat (a + length ds - 1)) t r =
    reset_fu ((checkAndSaveSpsPps t (coded (concat ds)) r)\<lparr>frame := frame r @ coded (concat ds)\<rparr>)"
proof -
  have "uint (of_nat (a + length ds - 1) :: u16) = uint (of_nat (a + length ds) :: u16) - 1"
    using assms(3,4) by (cases ds) (simp_all add: u16_nat del: of_nat_add of_nat_Suc)
  then show ?thesis
    by (simp add: finish_fu_def assms(1,2) fu_check_seq_zip appendStartCode4_def Let_def del: of_nat_add)
qed

lemma fu_payloads_bodies:
  "pl \<noteq> [] \<Longrightarrow> fu_payloads h pl s =
     (length pl \<le> MTU - 18, fu_body h s (length pl \<le> MTU - 18) (take (MTU - 18) pl))
     # fu_payloads h (drop (MTU - 18) pl) False"
  by (subst fu_payloads.simps) (simp add: Let_def fu_body_def)

lemma takes_lastSeq: "takes name m n r (r'\<lparr>lastSeq := x\<rparr>) \<longleftrightarrow> takes name m n r r'"
  by (simp add: takes_def)

lemma fu_payloads_last: "pl \<noteq> [] \<Longrightarrow> fst (last (fu_payloads h pl s))"
proof (induction "length pl" arbitrary: pl s rule: less_induct)
  case less
  show ?case
  proof (cases "length pl \<le> MTU - 18")
    case True
    then show ?thesis by (simp add: fu_payloads_bodies [OF less.prems])
  next
    case False
    then have d: "drop (MTU - 18) pl \<noteq> []" by simp
    have "length (drop (MTU - 18) pl) < length pl" using less.prems by simp
    from less.hyps [OF this d, of False] show ?thesis
      unfolding fu_payloads_bodies [OF less.prems, of h s] using fu_payloads_bodies [OF d, of h False]
      by (metis last_ConsR list.distinct(1))
  qed
qed

lemma process_is_fu:
  "processRtpNalu name (rtp_pkt sq ts ss m (fu_body h s e d)) r =
     (case process_fu sq (fu_body h s e d) r of
        (True, r) \<Rightarrow> r
      | (False, r) \<Rightarrow> output_frame name (rtp_pkt sq ts ss m (fu_body h s e d)) r)"
proof -
  have "fu_body h s e d ! 0 AND 0x1F = 28" using fu_bytes(1) [of h] by (simp add: fu_body_def)
  moreover have "\<not> int (length (fu_body h s e d)) < 1" by (simp add: fu_body_def)
  ultimately show ?thesis by (simp add: processRtpNalu_def Let_def)
qed

lemma fu_body_not_Nil [simp]: "fu_body h s e d \<noteq> []"
  by (simp add: fu_body_def)

lemma handle_fu_next:
  assumes "plain_type h" and "collecting a ds r" and "a + length ds < 65536" and "length ds < 1024"
  shows "handleRtp name (build_rtp_header (of_nat (a + length ds)) ts ss 96 False @ fu_body h False False d) r =
    Inr (r\<lparr>fuBuffer := seq_zip a (ds @ [d]), fuExpectedSeq := of_nat (a + length (ds @ [d])),
           lastSeq := of_nat (a + length ds)\<rparr>)"
proof -
  have "a + length ds \<le> 65535" using assms(3) by simp
  note f = handleRtp_follows [OF collecting_follows [OF assms(2) this] fu_body_not_Nil]
  show ?thesis
    unfolding f process_is_fu process_fu_next [OF assms] Let_def
    by (simp add: output_frame_def)
qed

lemma handle_fu_last:
  assumes "plain_type h" and "collecting a ds r" and "a + length ds < 65535" and "length ds < 1024"
  shows "\<exists>r'. handleRtp name (build_rtp_header (of_nat (a + length ds)) ts ss 96 True @ fu_body h False True d) r = Inr r' \<and>
    takes name True (concat ds @ d) r r' \<and> lastSeq r' = of_nat (a + length ds)"
proof -
  have b: "a + length ds < 65536" "a + length ds \<le> 65535" using assms(3) by simp_all
  note f = handleRtp_follows [OF collecting_follows [OF assms(2) b(2)] fu_body_not_Nil]
  let ?r1 = "r\<lparr>fuBuffer := seq_zip a (ds @ [d]), fuExpectedSeq := of_nat (a + length (ds @ [d]))\<rparr>"
  have "finish_fu (of_nat (a + length (ds @ [d]) - 1)) (h AND 0x1F) ?r1 =
      reset_fu ((checkAndSaveSpsPps (h AND 0x1F) (coded (concat (ds @ [d]))) ?r1)\<lparr>frame := frame ?r1 @ coded (concat (ds @ [d]))\<rparr>)"
    using assms(2,3) by (intro finish_fu_collected) (simp_all add: collecting_def)
  then have "finish_fu (of_nat (a + length ds)) (h AND 0x1F) ?r1 =
      reset_fu ((checkAndSaveSpsPps (h AND 0x1F) (coded (concat ds @ d)) ?r1)\<lparr>frame := frame r @ coded (concat ds @ d)\<rparr>)"
    by (simp del: of_nat_add)
  then show ?thesis
    unfolding f process_is_fu process_fu_next [OF assms(1,2) b(1) assms(4)] Let_def
    by (simp add: output_frame_def takes_def del: of_nat_add)
qed

lemma handle_fu_wrapped:
  assumes "plain_type h" and "collecting a ds r" and "a + length ds = 65535" and "length ds < 1024"
  shows "\<exists>r'. handleRtp name (build_rtp_header (of_nat (a + length ds)) ts ss 96 True @ fu_body h False True d) r = Inr r' \<and>
    frame r' = [] \<and> emitted r' = emitted r @ (if frame r = [] then [] else [(name, frame r)])"
proof -
  have b: "a + length ds < 65536" "a + length ds \<le> 65535" using assms(3) by simp_all
  note f = handleRtp_follows [OF collecting_follows [OF assms(2) b(2)] fu_body_not_Nil]
  let ?r1 = "r\<lparr>fuBuffer := seq_zip a (ds @ [d]), fuExpectedSeq := of_nat (a + length (ds @ [d]))\<rparr>"
  have s: "fuStartSeq ?r1 = of_nat a" using assms(2) by (simp add: collecting_def)
  have "a + length (ds @ [d]) = 65536" using assms(3) by simp
  then have "fu_check (of_nat a) (seq_zip a (ds @ [d])) = (True, of_nat 65536)"
    using fu_check_seq_zip [of a "ds @ [d]"] by (simp only:)
  moreover have "(of_nat 65536 :: u16) = 0" by simp
  ultimately have "fu_check (fuStartSeq ?r1) (fuBuffer ?r1) = (True, 0)" using s by simp
  moreover have "uint (of_nat (a + length ds) :: u16) \<noteq> uint (0 :: u16) - 1"
    using uint_ge_0 [of "of_nat (a + length ds) :: u16"] by (simp only: unsigned_0)
  ultimately have "finish_fu (of_nat (a + length ds)) (h AND 0x1F) ?r1 = reset_fu ?r1"
    by (simp add: finish_fu_def)
  then show ?thesis
    unfolding f process_is_fu process_fu_next [OF assms(1,2) b(1) assms(4)] Let_def
    by (simp add: output_frame_def)
qed

text \<open>All fragments but the last are stored, whatever becomes of the unit.\<close>

lemma fu_collected:
  assumes "plain_type h" and "collecting a ds r" and "pl \<noteq> []"
    and "a + length ds + length (fu_payloads h pl False) \<le> 65536"
    and "length ds + length (fu_payloads h pl False) \<le> 1024"
  shows "\<exists>r' ds' d. collecting a (ds @ ds') r' \<and> frame r' = frame r \<and> emitted r' = emitted r \<and>
    concat ds' @ d = pl \<and> length (fu_payloads h pl False) = length ds' + 1 \<and>
    handle_all name (number_packets (of_nat (a + length ds)) ts ss (fu_payloads h pl False)) r =
      handle_all name [build_rtp_header (of_nat (a + length (ds @ ds'))) ts ss 96 True @ fu_body h False True d] r'"
  using assms
proof (induction "length pl" arbitrary: pl ds r rule: less_induct)
  case less
  define d where "d = take (MTU - 18) pl"
  define rest where "rest = fu_payloads h (drop (MTU - 18) pl) False"
  have pay: "fu_payloads h pl False = (length pl \<le> MTU - 18, fu_body h False (length pl \<le> MTU - 18) d) # rest"
    unfolding fu_payloads_bodies [OF less.prems(3), of h False] d_def rest_def ..
  have b: "a + length ds < 65536" "length ds < 1024" using less.prems(4,5) by (simp_all add: pay)
  show ?case
  proof (cases "length pl \<le> MTU - 18")
    case True
    then have "rest = []" "d = pl" by (simp_all add: rest_def d_def)
    then show ?thesis
      using less.prems(2) True by (intro exI [of _ r] exI [of _ "[]"] exI [of _ pl]) (simp add: pay)
  next
    case False
    let ?r1 = "r\<lparr>fuBuffer := seq_zip a (ds @ [d]), fuExpectedSeq := of_nat (a + length (ds @ [d])),
           lastSeq := of_nat (a + length ds)\<rparr>"
    have col: "collecting a (ds @ [d]) ?r1" using less.prems(2) by (simp add: collecting_def)
    have pl: "drop (MTU - 18) pl \<noteq> []" "length (drop (MTU - 18) pl) < length pl"
      "d @ drop (MTU - 18) pl = pl" using False by (auto simp: d_def)
    have sum: "a + length (ds @ [d]) + length rest \<le> 65536" "length (ds @ [d]) + length rest \<le> 1024"
      using less.prems(4,5) by (simp_all add: pay)
    obtain r' ds' d' where r': "collecting a ((ds @ [d]) @ ds') r'" "frame r' = frame ?r1" "emitted r' = emitted ?r1"
      "concat ds' @ d' = drop (MTU - 18) pl" "length rest = length ds' + 1"
      "handle_all name (number_packets (of_nat (a + length (ds @ [d]))) ts ss rest) ?r1 =
        handle_all name [build_rtp_header (of_nat (a + length ((ds @ [d]) @ ds'))) ts ss 96 True @ fu_body h False True d'] r'"
      using less.hyps [OF pl(2) less.prems(1) col pl(1)] sum unfolding rest_def by blast
    have head: "number_packets (of_nat (a + length ds)) ts ss (fu_payloads h pl False) =
        (build_rtp_header (of_nat (a + length ds)) ts ss 96 False @ fu_body h False False d) #
        number_packets (of_nat (a + length (ds @ [d]))) ts ss rest"
      using False by (simp add: pay add_ac)
    have "handle_all name (number_packets (of_nat (a + length ds)) ts ss (fu_payloads h pl False)) r =
        handle_all name [build_rtp_header (of_nat (a + length (ds @ d # ds'))) ts ss 96 True @ fu_body h False True d'] r'"
      unfolding head using handle_fu_next [OF less.prems(1,2) b, of name ts ss d] r'(6)
      by (simp del: of_nat_add)
    then show ?thesis
      using r' pl(3) by (intro exI [of _ r'] exI [of _ "d # ds'"] exI [of _ d']) (simp add: pay del: of_nat_add)
  qed
qed

lemma fu_rest_reassembled:
  assumes "plain_type h" and "collecting a ds r" and "pl \<noteq> []"
    and "a + length ds + length (fu_payloads h pl False) \<le> 65535"
    and "length ds + length (fu_payloads h pl False) \<le> 1024"
  shows "\<exists>r'. handle_all name (number_packets (of_nat (a + length ds)) ts ss (fu_payloads h pl False)) r = Inr r' \<and>
    takes name True (concat ds @ pl) r r' \<and>
    lastSeq r' = of_nat (a + length ds + length (fu_payloads h pl False) - 1)"
proof -
  have "a + length ds + length (fu_payloads h pl False) \<le> 65536" using assms(4) by simp
  from fu_collected [OF assms(1-3) this assms(5), of name ts ss] obtain r1 ds' d where
    r1: "collecting a (ds @ ds') r1" "frame r1 = frame r" "emitted r1 = emitted r" "concat ds' @ d = pl"
      "length (fu_payloads h pl False) = length ds' + 1"
      "handle_all name (number_packets (of_nat (a + length ds)) ts ss (fu_payloads h pl False)) r =
        handle_all name [build_rtp_header (of_nat (a + length (ds @ ds'))) ts ss 96 True @ fu_body h False True d] r1"
    by blast
  have b: "a + length (ds @ ds') < 65535" "length (ds @ ds') < 1024" using assms(4,5) r1(5) by simp_all
  have "takes name True n r1 r' \<longleftrightarrow> takes name True n r r'" for n r'
    by (simp add: takes_def r1(2,3))
  moreover have "concat (ds @ ds') @ d = concat ds @ pl" using r1(4) by simp
  ultimately show ?thesis
    unfolding r1(6) using handle_fu_last [OF assms(1) r1(1) b, of name ts ss d]
    by (auto simp: r1(5) add.assoc simp del: of_nat_add)
qed

lemma handle_fu_start:
  assumes "plain_type h" and "d \<noteq> []" and "follows r (of_nat a)"
  obtains r' where "handleRtp name (build_rtp_header (of_nat a) ts ss 96 False @ fu_body h True False d) r = Inr r'"
    "collecting a [h # d] r'" "frame r' = frame r" "emitted r' = emitted r"
proof
  let ?r1 = "r\<lparr>fuStarted := True, fuStartSeq := of_nat a, fuExpectedSeq := of_nat a + 1,
      fuBuffer := [(of_nat a, h # d)], lastSeq := of_nat a\<rparr>"
  show "handleRtp name (build_rtp_header (of_nat a) ts ss 96 False @ fu_body h True False d) r = Inr ?r1"
    unfolding handleRtp_follows [OF assms(3) fu_body_not_Nil] process_is_fu process_fu_start [OF assms(1,2)]
    by (simp add: output_frame_def)
qed (simp_all add: collecting_def)

lemma long_nalu_payloads:
  assumes "nalu = h # pl" and "\<not> length nalu \<le> MTU - 16"
  obtains d rest where "rtp_payloads nalu = (False, fu_body h True False d) # fu_payloads h rest False"
    "d \<noteq> []" "rest \<noteq> []" "d @ rest = pl" "fst (last (rtp_payloads nalu))"
proof
  have pl: "pl \<noteq> []" "\<not> length pl \<le> MTU - 18" using assms by auto
  have p: "rtp_payloads nalu = fu_payloads h pl True" using assms by (simp add: rtp_payloads_def)
  show "rtp_payloads nalu = (False, fu_body h True False (take (MTU - 18) pl)) # fu_payloads h (drop (MTU - 18) pl) False"
    unfolding p using fu_payloads_bodies [OF pl(1), of h True] pl(2) by simp
  show "fst (last (rtp_payloads nalu))" unfolding p by (rule fu_payloads_last [OF pl(1)])
  show "take (MTU - 18) pl \<noteq> []" "drop (MTU - 18) pl \<noteq> []" "take (MTU - 18) pl @ drop (MTU - 18) pl = pl"
    using pl by auto
qed

text \<open>Every unit the camera sends is put together again.\<close>

lemma nalu_reassembled:
  assumes "plain_type (hd nalu)" and "nalu \<noteq> []" and "follows r (of_nat a)"
    and "a + length (rtp_payloads nalu) \<le> 65535" and "length (rtp_payloads nalu) \<le> 1024"
  shows "\<exists>r'. handle_all name (rtp_packets (of_nat a) ts ss nalu) r = Inr r' \<and>
    takes name (fst (last (rtp_payloads nalu))) nalu r r' \<and>
    lastSeq r' = of_nat (a + length (rtp_payloads nalu) - 1)"
proof -
  obtain h pl where n: "nalu = h # pl" using assms(2) by (cases nalu) auto
  have h: "plain_type h" using assms(1) n by simp
  show ?thesis
  proof (cases "length nalu \<le> MTU - 16")
    case True
    define m where "m = (h AND 0x1F \<notin> {6, 7, 8})"
    have pay: "rtp_payloads nalu = [(m, nalu)]" using True n by (simp add: rtp_payloads_def m_def)
    let ?r1 = "processRtpNalu name (rtp_pkt (of_nat a) ts ss m nalu) r"
    have "takes name m nalu r (?r1\<lparr>lastSeq := of_nat a\<rparr>)"
      using process_single [OF h, of name m pl r "of_nat a" ts ss] by (simp only: n takes_lastSeq)
    then show ?thesis
      unfolding rtp_packets_def pay
      using handleRtp_follows [OF assms(3,2), of name ts ss m] by simp
  next
    case False
    from long_nalu_payloads [OF n this] obtain d rest where
      pay: "rtp_payloads nalu = (False, fu_body h True False d) # fu_payloads h rest False" "d \<noteq> []" "rest \<noteq> []"
        "d @ rest = pl" "fst (last (rtp_payloads nalu))" .
    obtain r1 where r1: "handleRtp name (build_rtp_header (of_nat a) ts ss 96 False @ fu_body h True False d) r = Inr r1"
      "collecting a [h # d] r1" "frame r1 = frame r" "emitted r1 = emitted r"
      using handle_fu_start [OF h pay(2) assms(3)] .
    from fu_rest_reassembled [OF h r1(2) pay(3), of name ts ss] assms(4,5)
    obtain r' where r': "handle_all name (number_packets (of_nat (a + 1)) ts ss (fu_payloads h rest False)) r1 = Inr r'"
      "takes name True (concat [h # d] @ rest) r1 r'"
      "lastSeq r' = of_nat (a + 1 + length (fu_payloads h rest False) - 1)"
      by (auto simp: pay(1) simp del: of_nat_add of_nat_Suc)
    have "takes name (fst (last (rtp_payloads nalu))) nalu r r'"
      using r'(2) pay(4,5) n r1(3,4) by (simp add: takes_def)
    then show ?thesis
      using r1(1) r'(1,3) by (simp add: rtp_packets_def pay(1) add_ac)
  qed
qed

text \<open>A unit whose last fragment has the number 65535 is lost.\<close>

lemma nalu_lost_at_wrap:
  assumes "plain_type (hd nalu)" and "length nalu > MTU - 16" and "follows r (of_nat a)"
    and "a + length (rtp_payloads nalu) = 65536" and "length (rtp_payloads nalu) \<le> 1024"
  shows "\<exists>r'. handle_all name (rtp_packets (of_nat a) ts ss nalu) r = Inr r' \<and>
    frame r' = [] \<and> emitted r' = emitted r @ (if frame r = [] then [] else [(name, frame r)])"
proof -
  obtain h pl where n: "nalu = h # pl" using assms(2) by (cases nalu) auto
  have h: "plain_type h" using assms(1) n by simp
  have "\<not> length nalu \<le> MTU - 16" using assms(2) by simp
  from long_nalu_payloads [OF n this] obtain d rest where
    pay: "rtp_payloads nalu = (False, fu_body h True False d) # fu_payloads h rest False" "d \<noteq> []" "rest \<noteq> []"
      "d @ rest = pl" .
  obtain r1 where r1: "handleRtp name (build_rtp_header (of_nat a) ts ss 96 False @ fu_body h True False d) r = Inr r1"
    "collecting a [h # d] r1" "frame r1 = frame r" "emitted r1 = emitted r"
    using handle_fu_start [OF h pay(2) assms(3)] .
  have cnt: "a + length [h # d] + length (fu_payloads h rest False) \<le> 65536"
    "length [h # d] + length (fu_payloads h rest False) \<le> 1024" using assms(4,5) by (simp_all add: pay(1))
  from fu_collected [OF h r1(2) pay(3) cnt, of name ts ss] obtain r2 ds' d' where
    r2: "collecting a ([h # d] @ ds') r2" "frame r2 = frame r1" "emitted r2 = emitted r1"
      "length (fu_payloads h rest False) = length ds' + 1"
      "handle_all name (number_packets (of_nat (a + length [h # d])) ts ss (fu_payloads h rest False)) r1 =
        handle_all name [build_rtp_header (of_nat (a + length ([h # d] @ ds'))) ts ss 96 True @ fu_body h False True d'] r2"
    by blast
  have b: "a + length ([h # d] @ ds') = 65535" "length ([h # d] @ ds') < 1024"
    using assms(4,5) r2(4) by (simp_all add: pay(1))
  have "handle_all name (rtp_packets (of_nat a) ts ss nalu) r =
      handle_all name [build_rtp_header (of_nat (a + length ([h # d] @ ds'))) ts ss 96 True @ fu_body h False True d'] r2"
    using r1(1) r2(5) by (simp add: rtp_packets_def pay(1) add_ac)
  then show ?thesis
    using handle_fu_wrapped [OF h r2(1) b, of name ts ss d'] r2(2,3) r1(3,4) by auto
qed

section \<open>A stream of units\<close>

lemma handle_all_append:
  "handle_all name (ps @ qs) r = (case handle_all name ps r of Inl e \<Rightarrow> Inl e | Inr r \<Rightarrow> handle_all name qs r)"
  by (induction ps arbitrary: r) (auto split: sum.splits)

definition sendable_nalu :: "bytes \<Rightarrow> bool" where
  "sendable_nalu n \<longleftrightarrow> n \<noteq> [] \<and> plain_type (hd n) \<and> length n \<le> 1024 * 1382"

lemma rtp_payloads_count: "sendable_nalu n \<Longrightarrow> 0 < length (rtp_payloads n) \<and> length (rtp_payloads n) \<le> 1024"
  by (cases n) (auto simp: rtp_payloads_def sendable_nalu_def fu_payloads_count simp del: length_greater_0_conv)

definition frames_of :: "string \<Rightarrow> reassembler \<Rightarrow> bytes" where
  "frames_of name r = concat (map snd (filter (\<lambda>(s, _). s = name) (emitted r))) @ frame r"

lemma takes_frames_of: "takes name m n r r' \<Longrightarrow> frames_of name r' = frames_of name r @ coded n"
  by (cases m) (auto simp: takes_def frames_of_def)

lemma last_follows:
  assumes "lastSeq r = of_nat (b - 1)" and "b < 65536"
  shows "follows r (of_nat b)"
proof (cases b)
  case 0
  then show ?thesis using assms by (simp add: follows_def)
next
  case (Suc c)
  then have "c < 65536" "Suc c < 65536" "lastSeq r = of_nat c" using assms by simp_all
  then show ?thesis unfolding Suc follows_def by (simp add: u16_nat u16_less del: of_nat_Suc)
qed

lemma stream_reassembled:
  assumes "\<forall>n \<in> set nalus. sendable_nalu n" and "follows r (of_nat a)"
    and "a + length (frame_payloads nalus) \<le> 65535"
  shows "\<exists>r'. handle_all name (number_packets (of_nat a) ts ss (frame_payloads nalus)) r = Inr r' \<and>
    frames_of name r' = frames_of name r @ concat (map coded nalus) \<and>
    follows r' (of_nat (a + length (frame_payloads nalus)))"
  using assms
proof (induction nalus arbitrary: a r)
  case (Cons n nalus)
  let ?b = "a + length (rtp_payloads n)"
  have n: "n \<noteq> []" "plain_type (hd n)" using Cons.prems(1) by (simp_all add: sendable_nalu_def)
  have cnt: "0 < length (rtp_payloads n)" "length (rtp_payloads n) \<le> 1024"
    using Cons.prems(1) rtp_payloads_count by simp_all
  have b: "?b \<le> 65535" using Cons.prems(3) by simp
  from nalu_reassembled [OF n(2,1) Cons.prems(2) b cnt(2), of name ts ss]
  obtain r1 where r1: "handle_all name (rtp_packets (of_nat a) ts ss n) r = Inr r1"
    "takes name (fst (last (rtp_payloads n))) n r r1" "lastSeq r1 = of_nat (?b - 1)" by blast
  have "follows r1 (of_nat ?b)" using r1(3) b by (intro last_follows) simp_all
  moreover have "?b + length (frame_payloads nalus) \<le> 65535" "\<forall>n \<in> set nalus. sendable_nalu n"
    using Cons.prems(1,3) by simp_all
  ultimately obtain r' where r': "handle_all name (number_packets (of_nat ?b) ts ss (frame_payloads nalus)) r1 = Inr r'"
    "frames_of name r' = frames_of name r1 @ concat (map coded nalus)"
    "follows r' (of_nat (?b + length (frame_payloads nalus)))"
    using Cons.IH [of r1 ?b] by blast
  have "number_packets (of_nat a) ts ss (frame_payloads (n # nalus)) =
      rtp_packets (of_nat a) ts ss n @ number_packets (of_nat ?b) ts ss (frame_payloads nalus)"
    by (simp add: number_packets_append rtp_packets_def)
  then have "handle_all name (number_packets (of_nat a) ts ss (frame_payloads (n # nalus))) r = Inr r'"
    using r1(1) r'(1) by (simp add: handle_all_append)
  moreover have "frames_of name r' = frames_of name r @ concat (map coded (n # nalus))"
    using r'(2) takes_frames_of [OF r1(2)] by simp
  ultimately show ?case using r'(3) by (auto simp: add.assoc)
qed simp

section \<open>The invariant of the reassembler\<close>

definition reas_inv :: "reassembler \<Rightarrow> bool" where
  "reas_inv r \<longleftrightarrow> sorted_wrt (<) (map fst (fuBuffer r)) \<and> length (fuBuffer r) \<le> maxFuBufferSize \<and>
     (fuStarted r \<longrightarrow> fuStartSeq r \<in> fst ` set (fuBuffer r)) \<and>
     (\<not> fuStarted r \<longrightarrow> fuBuffer r = [] \<and> fuExpectedSeq r = 0 \<and> fuStartSeq r = 0)"

lemma reas_inv_reset [simp]: "reas_inv (reset_fu r)"
  by (simp add: reas_inv_def reset_fu_def)

lemma reas_inv_frame:
  "reas_inv (r\<lparr>frame := f\<rparr>) = reas_inv r" "reas_inv (r\<lparr>lastSeq := l\<rparr>) = reas_inv r"
  "reas_inv (checkAndSaveSpsPps t d r) = reas_inv r" "reas_inv (output_frame name pkt r) = reas_inv r"
  by (simp_all add: reas_inv_def checkAndSaveSpsPps_def output_frame_def)

lemma finish_fu_inv: "reas_inv (finish_fu sq t r)"
  by (simp add: finish_fu_def Let_def split: prod.splits)

lemma process_fu_inv:
  assumes "reas_inv r"
  shows "reas_inv (snd (process_fu sq pl r))"
proof -
  let ?r1 = "r\<lparr>fuStarted := True, fuStartSeq := sq, fuExpectedSeq := sq + 1, fuBuffer := []\<rparr>"
  have start: "reas_inv (?r1\<lparr>fuBuffer := omap_insert sq u []\<rparr>)" for u by (simp add: reas_inv_def)
  have empty: "reas_inv (?r1\<lparr>fuStarted := False, fuExpectedSeq := 0, fuStartSeq := 0\<rparr>)"
    by (simp add: reas_inv_def)
  have next': "reas_inv (r\<lparr>fuBuffer := omap_insert sq u (fuBuffer r), fuExpectedSeq := e\<rparr>)"
    if "fuStarted r" "length (omap_insert sq u (fuBuffer r)) \<le> maxFuBufferSize" for u e
    using assms that omap_ok_insert [of "fuBuffer r" sq u] by (simp add: reas_inv_def keys_omap_insert)
  have upd: "r\<lparr>fuBuffer := b\<rparr> = r\<lparr>fuBuffer := b, fuExpectedSeq := fuExpectedSeq r\<rparr>" for b by simp
  show ?thesis
    using assms start empty next' unfolding process_fu_def Let_def
    by (auto simp: finish_fu_inv word_le_def)
qed

lemma processRtpNalu_inv: "reas_inv r \<Longrightarrow> reas_inv (processRtpNalu name pkt r)"
proof -
  assume r: "reas_inv r"
  have "reas_inv r'" if "process_fu sq pl r = (b, r')" for sq pl b r'
    using process_fu_inv [OF r, of sq pl] that by simp
  with r show ?thesis
    by (auto simp: processRtpNalu_def reas_inv_frame Let_def split: option.splits prod.splits bool.splits)
qed

lemma handleRtp_safe:
  assumes "reas_inv r" and "packet = [] \<or> 11 \<le> length packet"
  shows "\<exists>r'. handleRtp name packet r = Inr r' \<and> reas_inv r'"
proof (cases "packet = []")
  case True
  then show ?thesis using assms(1) by (simp add: handleRtp_def)
next
  case False
  then obtain pkt where "parseRtp packet = Inr pkt" using assms(2) parseRtp_ok_iff by blast
  then show ?thesis
    using assms(1) False
    by (simp add: handleRtp_def Let_def reas_inv_frame processRtpNalu_inv)
qed

text \<open>The reassembler as a machine of calls: any sequence of packets of eleven bytes or more.\<close>

definition reas_step :: "string \<times> bytes \<Rightarrow> reassembler \<Rightarrow> (unit \<times> reassembler) res" where
  "reas_step c r = rbind (handleRtp (fst c) (snd c) r) (\<lambda>r. Inr ((), r))"

definition reas_ok :: "string \<times> bytes \<Rightarrow> reassembler \<Rightarrow> bool" where
  "reas_ok c r \<longleftrightarrow> snd c = [] \<or> 11 \<le> length (snd c)"

interpretation player: safe_machine reas_step reas_ok reas_inv
proof
  fix r c
  assume "reas_inv r" "reas_ok c r"
  then show "\<exists>x r'. reas_step c r = Inr (x, r') \<and> reas_inv r'"
    using handleRtp_safe [of r "snd c" "fst c"] by (auto simp: reas_step_def reas_ok_def)
qed

lemma guarded_reas: "\<forall>c \<in> set cs. snd c = [] \<or> 11 \<le> length (snd c) \<Longrightarrow> guarded reas_step reas_ok cs r"
  by (induction cs arbitrary: r) (auto simp: reas_ok_def split: sum.splits)

end
