(* ===== verification/Cam_Samples.thy ===== *)
theory Cam_Samples
  imports Reassembler Kcp_Samples
begin

text \<open>
  Concrete sessions, units and packets for the witnesses: a session with a KCP control block,
  one on a TCP connection whose writes take what they are given, a short unit and a long one.
\<close>

definition sample_kcp_session :: rtsp_session where
  "sample_kcp_session = (rtsp_session_init [])\<lparr>sess_kcp := Some sample_kcp, transType := ''udp''\<rparr>"

lemma sample_kcp_session_ready: "kcp_ready sample_alloc sample_kcp_session"
  using sample_kcp_inv by (simp add: sample_kcp_session_def kcp_ready_def)

definition sample_tcp_session :: rtsp_session where
  "sample_tcp_session = (rtsp_session_init (replicate 100 (Wrote 50)))\<lparr>client_fd := 5, transType := ''tcp''\<rparr>"

lemma progress_replicate: "progress (replicate n (Wrote k)) = n"
  by (induction n) simp_all

lemma sample_tcp_session_ready:
  "tcp_ready sample_alloc sample_tcp_session" "n \<le> 100 \<Longrightarrow> steady n (os_writes sample_tcp_session)"
  by (auto simp: sample_tcp_session_def tcp_ready_def steady_def blocking_def rtsp_session_init_def progress_replicate)

definition short_nalu :: bytes where
  "short_nalu = [0x65, 1, 2, 3]"

definition long_nalu :: bytes where
  "long_nalu = 0x65 # replicate 1400 7"

lemma long_nalu_payloads_count: "length (rtp_payloads long_nalu) = 2"
  by (simp add: long_nalu_def rtp_payloads_def fu_payloads_count)

lemma short_nalu_ok: "clean short_nalu" "sendable_nalu short_nalu" "length (rtp_payloads short_nalu) = 1"
  by (code_simp, simp add: sendable_nalu_def short_nalu_def plain_type_def, code_simp)

end
