(* ===== verification/Request.thy ===== *)
theory Request
  imports Text
begin

text \<open>
  RTSP-style text requests as both servers parse them (\<^verbatim>\<open>RtspConnect::parseRequest\<close>,
  \<^verbatim>\<open>MonitorServer::parseRequest\<close>): a request line, then header lines up to an empty line. The two
  parsers differ in how many characters they skip at the colon.
\<close>

type_synonym headers = "(string \<times> string) list"

abbreviation cr :: string where "cr \<equiv> [CHR 0x0D]"

text \<open>One header line; \<open>skip\<close> is how far behind the colon the value starts.\<close>

definition parse_header :: "nat \<Rightarrow> string \<Rightarrow> headers \<Rightarrow> headers res" where
  "parse_header skip line headers =
     (case find line '':'' of
        None \<Rightarrow> Inr headers
      | Some colonPos \<Rightarrow>
          rbind (substr line (colonPos + skip) (length line)) (\<lambda>rest.
            let key = trim_set blanks (take colonPos line);
                val = trim_set blanks rest
            in Inr (omap_insert (map tolower key) val headers)))"

fun parse_headers :: "nat \<Rightarrow> string list \<Rightarrow> headers \<Rightarrow> headers res" where
  "parse_headers skip [] headers = Inr headers"
| "parse_headers skip (line # ls) headers =
     (if line = [] \<or> line = cr then Inr headers
      else
        (case parse_header skip line headers of
           Inl e \<Rightarrow> Inl e
         | Inr headers \<Rightarrow> parse_headers skip ls headers))"

definition parse_request :: "nat \<Rightarrow> string \<Rightarrow> (string \<times> string \<times> headers) res" where
  "parse_request skip request =
     (case getlines request of
        [] \<Rightarrow> Inr ([], [], [])
      | line # ls \<Rightarrow>
          let (meth, rest) = next_word line;
              (url, _) = next_word rest
          in rbind (parse_headers skip ls []) (\<lambda>headers. Inr (meth, url, headers)))"

definition parseRequest_rtsp :: "string \<Rightarrow> (string \<times> string \<times> headers) res" where
  "parseRequest_rtsp request = parse_request 1 request"

definition parseRequest_monitor :: "string \<Rightarrow> (string \<times> string \<times> headers) res" where
  "parseRequest_monitor request = parse_request 2 request"

section \<open>Parsing ends\<close>

lemma parse_header_ok:
  assumes "omap_ok headers"
  shows "\<exists>h. parse_header 1 line headers = Inr h \<and> omap_ok h"
proof (cases "find line '':''")
  case (Some c)
  from find_from_SomeD [OF Some] have "c + 1 \<le> length line" by simp
  then show ?thesis using Some assms by (simp add: parse_header_def substr_def Let_def omap_ok_insert)
qed (use assms in \<open>simp add: parse_header_def\<close>)

lemma parse_headers_ok:
  "omap_ok headers \<Longrightarrow> \<exists>h. parse_headers 1 ls headers = Inr h \<and> omap_ok h"
proof (induction ls arbitrary: headers)
  case (Cons line ls)
  obtain h where "parse_header 1 line headers = Inr h" "omap_ok h" using parse_header_ok [OF Cons.prems] by blast
  then show ?case using Cons.IH [of h] Cons.prems by auto
qed simp

lemma parseRequest_rtsp_ok: "\<exists>meth url h. parseRequest_rtsp request = Inr (meth, url, h) \<and> omap_ok h"
proof (cases "getlines request")
  case (Cons line ls)
  obtain h where "parse_headers 1 ls [] = Inr h" "omap_ok h" using parse_headers_ok [of "[]" ls] by auto
  then show ?thesis using Cons by (simp add: parseRequest_rtsp_def parse_request_def Let_def split: prod.splits)
qed (simp add: parseRequest_rtsp_def parse_request_def)

text \<open>The monitor's parser skips two characters and throws when the colon ends the line.\<close>

lemma parse_header_monitor:
  "parse_header 2 line headers = Inl Exception \<longleftrightarrow> (\<exists>c. find line '':'' = Some c \<and> length line = c + 1)"
proof (cases "find line '':''")
  case (Some c)
  from find_from_SomeD [OF Some] have "c + 1 \<le> length line" by simp
  then show ?thesis using Some by (auto simp: parse_header_def substr_def Let_def)
qed (simp add: parse_header_def)

section \<open>Reading back printed requests\<close>

text \<open>A line \<open>key: value\<close> with no colon in the key and no white space around either.\<close>

definition plain_key :: "string \<Rightarrow> bool" where
  "plain_key k \<longleftrightarrow> k \<noteq> [] \<and> CHR '':'' \<notin> set k \<and> CHR 0x0A \<notin> set k \<and> hd k \<notin> set blanks \<and> last k \<notin> set blanks"

definition plain_value :: "string \<Rightarrow> bool" where
  "plain_value v \<longleftrightarrow> CHR 0x0A \<notin> set v \<and> (v \<noteq> [] \<longrightarrow> hd v \<notin> set blanks \<and> last v \<notin> set blanks)"

definition header_line :: "string \<Rightarrow> string \<Rightarrow> string" where
  "header_line k v = k @ '': '' @ v @ cr"

definition print_request :: "string \<Rightarrow> string \<Rightarrow> (string \<times> string) list \<Rightarrow> string" where
  "print_request meth url hs =
     meth @ '' '' @ url @ '' RTSP/1.0'' @ crlf @ concat (map (\<lambda>(k, v). k @ '': '' @ v @ crlf) hs) @ crlf"

lemma dropWhile_hd: "s \<noteq> [] \<Longrightarrow> \<not> P (hd s) \<Longrightarrow> dropWhile P (s @ t) = s @ t"
  by (cases s) simp_all

lemma trim_set_strip:
  assumes "set a \<subseteq> set ws" and "set b \<subseteq> set ws" and "s \<noteq> [] \<longrightarrow> hd s \<notin> set ws \<and> last s \<notin> set ws"
  shows "trim_set ws (a @ s @ b) = s"
proof -
  let ?P = "\<lambda>c. c \<in> set ws"
  have a: "dropWhile ?P (a @ s @ b) = dropWhile ?P (s @ b)" using assms(1) by (intro dropWhile_append2) auto
  show ?thesis
  proof (cases "s = []")
    case True
    have d: "dropWhile ?P b = []" using assms(2) by auto
    have e: "dropWhile ?P (a @ s @ b) = []" using a d True by (simp only: append_Nil)
    show ?thesis unfolding trim_set_def e using True by simp
  next
    case False
    have s: "dropWhile ?P (s @ b) = s @ b" using assms(3) False by (intro dropWhile_hd) simp_all
    have "dropWhile ?P (rev b @ rev s) = dropWhile ?P (rev s)" using assms(2) by (intro dropWhile_append2) auto
    also have "\<dots> = rev s" using assms(3) False dropWhile_hd [of "rev s" ?P "[]"] by (simp add: hd_rev)
    finally show ?thesis unfolding trim_set_def a s by simp
  qed
qed

lemma find_colon: "CHR '':'' \<notin> set k \<Longrightarrow> find (k @ CHR '':'' # rest) '':'' = Some (length k)"
proof (rule find_from_first)
  assume k: "CHR '':'' \<notin> set k"
  fix j assume j: "j < length k"
  then have "drop j (k @ CHR '':'' # rest) = k ! j # drop (Suc j) k @ CHR '':'' # rest"
    by (simp add: Cons_nth_drop_Suc)
  moreover have "k ! j \<noteq> CHR '':''" using k j nth_mem by metis
  ultimately show "take (length '':'') (drop j (k @ CHR '':'' # rest)) \<noteq> '':''"
    by (simp only: list.size One_nat_def [symmetric] add_0 take_Suc_Cons) simp
qed simp_all

lemma parse_header_line:
  assumes "plain_key k" and "plain_value v"
  shows "parse_header 1 (header_line k v) h = Inr (omap_insert (map tolower k) v h)"
proof -
  have line: "header_line k v = k @ CHR '':'' # '' '' @ v @ cr" by (simp add: header_line_def)
  have c: "find (header_line k v) '':'' = Some (length k)"
    unfolding line using assms(1) by (intro find_colon) (simp add: plain_key_def)
  have key: "trim_set blanks (take (length k) (header_line k v)) = k"
    using trim_set_strip [of "[]" blanks "[]" k] assms(1) by (simp add: line plain_key_def)
  have rest: "substr (header_line k v) (length k + 1) (length (header_line k v)) = Inr ('' '' @ v @ cr)"
    by (simp add: line substr_def)
  have val: "trim_set blanks ('' '' @ v @ cr) = v"
    using assms(2) by (intro trim_set_strip) (auto simp: plain_value_def)
  show ?thesis unfolding parse_header_def c option.case rest rbind_simps Let_def key val ..
qed

definition headers_of :: "(string \<times> string) list \<Rightarrow> headers" where
  "headers_of hs = fold (\<lambda>(k, v). omap_insert (map tolower k) v) hs []"

definition printable :: "(string \<times> string) list \<Rightarrow> bool" where
  "printable hs \<longleftrightarrow> (\<forall>(k, v) \<in> set hs. plain_key k \<and> plain_value v)"

lemma parse_headers_lines:
  "printable hs \<Longrightarrow> parse_headers 1 (map (\<lambda>(k, v). header_line k v) hs @ cr # ls) h =
     Inr (fold (\<lambda>(k, v). omap_insert (map tolower k) v) hs h)"
proof (induction hs arbitrary: h)
  case (Cons x hs)
  obtain k v where x: "x = (k, v)" by (cases x)
  have kv: "plain_key k" "plain_value v" "printable hs" using Cons.prems x by (auto simp: printable_def)
  have "header_line k v \<noteq> []" "header_line k v \<noteq> cr"
    using kv(1) by (cases k; auto simp: header_line_def plain_key_def)+
  then show ?case using Cons.IH [OF kv(3)] parse_header_line [OF kv(1,2)] by (simp add: x)
qed simp

lemma getlines_header_block:
  "printable hs \<Longrightarrow> getlines (concat (map (\<lambda>(k, v). k @ '': '' @ v @ crlf) hs) @ crlf) =
     map (\<lambda>(k, v). header_line k v) hs @ [cr]"
proof (induction hs)
  case Nil
  show ?case using getparts_append [of "CHR 0x0A" cr "[]"] by simp
next
  case (Cons x hs)
  obtain k v where x: "x = (k, v)" by (cases x)
  have kv: "plain_key k" "plain_value v" "printable hs" using Cons.prems x by (auto simp: printable_def)
  have "CHR 0x0A \<notin> set (header_line k v)" using kv(1,2) by (auto simp: header_line_def plain_key_def plain_value_def)
  from getparts_append [OF this, of "concat (map (\<lambda>(k, v). k @ '': '' @ v @ crlf) hs) @ crlf"]
  show ?case using Cons.IH [OF kv(3)] by (simp add: x header_line_def)
qed

definition word :: "string \<Rightarrow> bool" where
  "word w \<longleftrightarrow> w \<noteq> [] \<and> list_all (\<lambda>c. \<not> isspace c) w"

lemma next_word_word: "word w \<Longrightarrow> isspace c \<Longrightarrow> next_word (w @ c # rest) = (w, c # rest)"
proof -
  assume w: "word w" "isspace c"
  then obtain x xs where x: "w = x # xs" "\<not> isspace x" by (cases w) (auto simp: word_def)
  have all: "\<forall>y \<in> set w. \<not> isspace y" using w(1) by (simp add: word_def list_all_iff)
  have d: "dropWhile isspace (w @ c # rest) = w @ c # rest" by (simp add: x)
  have "takeWhile (\<lambda>c. \<not> isspace c) (w @ c # rest) = w" "dropWhile (\<lambda>c. \<not> isspace c) (w @ c # rest) = c # rest"
    using all w(2) by (simp_all add: takeWhile_append2 dropWhile_append2)
  then show ?thesis by (simp only: next_word_def d Let_def)
qed

lemma next_word_skip: "isspace c \<Longrightarrow> next_word (c # s) = next_word s"
  by (simp add: next_word_def)

lemma space_chars [simp]: "isspace (CHR '' '')" "isspace (CHR 0x0D)" by (simp_all add: isspace_def)

lemma parse_printed_request:
  assumes "word meth" and "word url" and "printable hs"
  shows "parseRequest_rtsp (print_request meth url hs) = Inr (meth, url, headers_of hs)"
proof -
  let ?line = "meth @ '' '' @ url @ '' RTSP/1.0'' @ cr"
  let ?block = "concat (map (\<lambda>(k, v). k @ '': '' @ v @ crlf) hs) @ crlf"
  have nl: "CHR 0x0A \<notin> set ?line"
    using assms(1,2) by (auto simp: word_def list_all_iff isspace_def)
  have p: "print_request meth url hs = ?line @ CHR 0x0A # ?block" by (simp add: print_request_def)
  have lines: "getlines (print_request meth url hs) = ?line # map (\<lambda>(k, v). header_line k v) hs @ [cr]"
    unfolding p getparts_append [OF nl] getlines_header_block [OF assms(3)] ..
  have w1: "next_word ?line = (meth, '' '' @ url @ '' RTSP/1.0'' @ cr)"
    using next_word_word [OF assms(1), of "CHR '' ''" "url @ '' RTSP/1.0'' @ cr"] by simp
  have w2: "next_word ('' '' @ url @ '' RTSP/1.0'' @ cr) = (url, '' RTSP/1.0'' @ cr)"
    using next_word_word [OF assms(2), of "CHR '' ''" "''RTSP/1.0'' @ cr"] by (simp add: next_word_skip)
  have h: "parse_headers 1 (map (\<lambda>(k, v). header_line k v) hs @ [cr]) [] = Inr (headers_of hs)"
    using parse_headers_lines [OF assms(3), of "[]" "[]"] by (simp add: headers_of_def)
  show ?thesis
    unfolding parseRequest_rtsp_def parse_request_def lines list.case w1 Let_def prod.case w2 h by simp
qed

lemma lookup_fold_insert:
  assumes "omap_ok h"
  shows "omap_ok (fold (\<lambda>(k, v). omap_insert (f k) v) hs h) \<and>
    map_of (fold (\<lambda>(k, v). omap_insert (f k) v) hs h) = map_of h ++ map_of (rev (map (\<lambda>(k, v). (f k, v)) hs))"
  using assms
proof (induction hs arbitrary: h)
  case (Cons x hs)
  obtain k v where x: "x = (k, v)" by (cases x)
  have "omap_ok (omap_insert (f k) v h)" using Cons.prems by (rule omap_ok_insert)
  from Cons.IH [OF this] show ?case
    using lookup_omap_insert [OF Cons.prems, of "f k" v] by (simp add: x map_add_def fun_eq_iff split: option.splits)
qed simp

lemma lookup_headers_of:
  assumes "distinct (map (map tolower \<circ> fst) hs)" and "(k, v) \<in> set hs"
  shows "map_of (headers_of hs) (map tolower k) = Some v"
proof -
  let ?m = "map (\<lambda>(k, v). (map tolower k, v)) hs"
  have d: "distinct (map fst (rev ?m))" using assms(1) by (simp add: rev_map [symmetric] comp_def case_prod_beta)
  have "(map tolower k, v) \<in> set (rev ?m)" using assms(2) by force
  with d have "map_of (rev ?m) (map tolower k) = Some v" by simp
  then show ?thesis using lookup_fold_insert [of "[]" "map tolower" hs] by (simp add: headers_of_def)
qed

lemma headers_of_ok: "omap_ok (headers_of hs)"
  using lookup_fold_insert [of "[]" "map tolower" hs] by (simp add: headers_of_def)

lemma lookup_headers_of_None:
  assumes "\<forall>(k', v) \<in> set hs. map tolower k' \<noteq> k"
  shows "map_of (headers_of hs) k = None"
proof -
  have "map_of (rev (map (\<lambda>(k, v). (map tolower k, v)) hs)) k = None"
    using assms by (auto simp: map_of_eq_None_iff)
  then show ?thesis using lookup_fold_insert [of "[]" "map tolower" hs] by (simp add: headers_of_def)
qed

end
