(* ===== verification/Tcp_Connection.thy ===== *)
theory Tcp_Connection
  imports Reassembler
begin

unbundle bit_operations_syntax

text \<open>
  The server's TCP connections (\<^verbatim>\<open>TcpConnection.cc\<close>, \<^verbatim>\<open>SocketIO.cc\<close>): the buffered sending side and the
  receiving side that cuts the byte stream into RTSP requests and interleaved frames. The record
  has the two buffers and the write flag of the class, whether the loop watches the descriptor for
  writability, the results of the coming \<^verbatim>\<open>write\<close> calls and the bytes the kernel took. Sizes are
  below \<open>2 ^ 31\<close>, so that the conversions between \<^verbatim>\<open>int\<close> and \<^verbatim>\<open>size_t\<close> matter only for -1.
\<close>

record TcpConnection =
  recvBuffer :: string
  sendBuffer :: string
  isWriting :: bool
  epollWrite :: bool
  sock_writes :: "wres list"
  sock_sent :: string

section \<open>Sending\<close>

text \<open>\<^verbatim>\<open>SocketIO::writen\<close> has the loop of the camera's \<^verbatim>\<open>tcp_write\<close>.\<close>

definition writen :: "TcpConnection \<Rightarrow> string \<Rightarrow> (int \<times> TcpConnection) option" where
  "writen c buf =
     map_option
       (\<lambda>(err, sent, ws).
          (if err then -1 else int (length sent),
           c\<lparr>sock_sent := sock_sent c @ sent, sock_writes := ws\<rparr>))
       (tcp_write_loop (sock_writes c) buf [])"

definition conn_send :: "string \<Rightarrow> TcpConnection \<Rightarrow> TcpConnection res" where
  "conn_send msg c =
     (if sendBuffer c = [] \<and> \<not> isWriting c then
        (case writen c msg of
           None \<Rightarrow> Inl Diverged
         | Some (written, c) \<Rightarrow>
             if written < int (length msg) then
               rbind (substr msg (nat (written mod 2 ^ 64)) (length msg)) (\<lambda>rest.
                 Inr (c\<lparr>sendBuffer := rest, isWriting := True, epollWrite := True\<rparr>))
             else Inr c)
      else
        let c = c\<lparr>sendBuffer := sendBuffer c @ msg\<rparr>
        in Inr (if \<not> isWriting c then c\<lparr>isWriting := True, epollWrite := True\<rparr> else c))"

text \<open>The write event; \<^const>\<open>True\<close> beside the connection when the close callback was run.\<close>

definition handleWriteCallback :: "TcpConnection \<Rightarrow> (bool \<times> TcpConnection) res" where
  "handleWriteCallback c =
     (if sendBuffer c = [] then Inr (False, c\<lparr>isWriting := False, epollWrite := False\<rparr>)
      else
        (case writen c (sendBuffer c) of
           None \<Rightarrow> Inl Diverged
         | Some (written, c) \<Rightarrow>
             if written < 0 then Inr (True, c)
             else
               let c = c\<lparr>sendBuffer := drop (nat written) (sendBuffer c)\<rparr>
               in Inr (False, if sendBuffer c = [] then c\<lparr>isWriting := False, epollWrite := False\<rparr> else c)))"

section \<open>Receiving\<close>

definition byte_of :: "char \<Rightarrow> byte" where
  "byte_of c = of_nat (of_char c)"

definition char_of_byte :: "byte \<Rightarrow> char" where
  "char_of_byte b = char_of (unat b)"

definition tryExtractInterleaved :: "string \<Rightarrow> (byte \<times> string) option \<times> string" where
  "tryExtractInterleaved buf =
     (if buf = [] \<or> buf ! 0 \<noteq> CHR ''$'' then (None, buf)
      else if length buf < 4 then (None, buf)
      else
        let channel = byte_of (buf ! 1);
            len = unat (be16 (byte_of (buf ! 2)) (byte_of (buf ! 3)))
        in if len > 15000 then (None, drop 1 buf)
           else if length buf < 4 + len then (None, buf)
           else (Some (channel, take (len + 4) buf), drop (4 + len) buf))"

definition iequals_prefix :: "string \<Rightarrow> string \<Rightarrow> bool" where
  "iequals_prefix s key \<longleftrightarrow>
     length key \<le> length s \<and> map tolower (take (length key) s) = map tolower key"

text \<open>The search for the body length in the lines of the header, by the position \<open>pos\<close>.\<close>

function content_length_loop :: "string \<Rightarrow> nat \<Rightarrow> nat" where
  "content_length_loop header pos =
     (if pos < length header then
        let eol = find_from header crlf pos;
            line = take ((case eol of None \<Rightarrow> length header | Some e \<Rightarrow> e) - pos) (drop pos header);
            ltrim = dropWhile isspace line
        in if iequals_prefix ltrim ''content-length:'' then
             let ds = takeWhile isdigit (dropWhile isspace (drop (length ''content-length:'') ltrim))
             in if ds \<noteq> [] then (case stoul ds of Inl _ \<Rightarrow> 0 | Inr n \<Rightarrow> n) else 0
           else (case eol of None \<Rightarrow> 0 | Some e \<Rightarrow> content_length_loop header (e + 2))
      else 0)"
  by pat_completeness auto
termination
  by (relation "measure (\<lambda>(header, pos). length header - pos)")
    (auto dest!: find_from_SomeD sym [of _ "find_from _ _ _"])

declare content_length_loop.simps [simp del]

abbreviation head_end :: string where "head_end \<equiv> [CHR 0x0D, CHR 0x0A, CHR 0x0D, CHR 0x0A]"

text \<open>
  The request at the front of the buffer. When \<^verbatim>\<open>TEARDOWN\<close> occurs anywhere, its last occurrence up to
  the first end of a header is taken and the buffer is emptied; the length is computed in \<^verbatim>\<open>size_t\<close>,
  and an occurrence beyond that end makes it wrap around and \<^verbatim>\<open>assign\<close> throw.
\<close>

definition tryExtractRtsp :: "string \<Rightarrow> (string option \<times> string) res" where
  "tryExtractRtsp buf =
     (case find buf head_end of
        None \<Rightarrow> Inr (None, buf)
      | Some headerEnd \<Rightarrow>
          let header = take (headerEnd + 4) buf;
              contentLength = content_length_loop header 0
          in (case rfind buf ''TEARDOWN'' of
                Some tpos \<Rightarrow>
                  if tpos \<le> headerEnd + 4
                  then Inr (Some (take (headerEnd + 4 - tpos) (drop tpos buf)), [])
                  else Inl Exception
              | None \<Rightarrow>
                  let total = (headerEnd + 4 + contentLength) mod 2 ^ 64
                  in if length buf < total then Inr (None, buf)
                     else Inr (Some (take total buf), drop total buf)))"

datatype RecvItem = RecvNone | RtspRequest string | InterleavedFrame byte string

text \<open>What one \<^verbatim>\<open>recv\<close> brings; at most 8192 bytes.\<close>

datatype arrival = Data string | Peer_closed | Recv_failed

definition recvOneItem :: "arrival \<Rightarrow> TcpConnection \<Rightarrow> (RecvItem \<times> TcpConnection) res" where
  "recvOneItem a c =
     (case a of
        Recv_failed \<Rightarrow> Inr (RecvNone, c)
      | Peer_closed \<Rightarrow> Inr (RecvNone, c)
      | Data d \<Rightarrow>
          let buf = recvBuffer c @ take 8192 d
          in rbind (tryExtractRtsp buf) (\<lambda>(req, buf).
               case req of
                 Some r \<Rightarrow> Inr (RtspRequest r, c\<lparr>recvBuffer := buf\<rparr>)
               | None \<Rightarrow>
                   (case tryExtractInterleaved buf of
                      (Some (ch, p), buf) \<Rightarrow> Inr (InterleavedFrame ch p, c\<lparr>recvBuffer := buf\<rparr>)
                    | (None, buf) \<Rightarrow> Inr (RecvNone, c\<lparr>recvBuffer := buf\<rparr>))))"

section \<open>The sent stream\<close>

definition conn_inv :: "TcpConnection \<Rightarrow> bool" where
  "conn_inv c \<longleftrightarrow> (sendBuffer c \<noteq> [] \<longrightarrow> isWriting c) \<and> isWriting c = epollWrite c"

definition conn_stream :: "TcpConnection \<Rightarrow> string" where
  "conn_stream c = sock_sent c @ sendBuffer c"

lemma tcp_write_loop_stops: "Would_block \<in> set ws \<Longrightarrow> \<exists>r. tcp_write_loop ws left sent = Some r"
proof (induction ws left sent rule: tcp_write_loop.induct)
  case (3 w ws b left sent)
  then show ?case by (cases w) auto
qed auto

lemma tcp_write_loop_no_error:
  "tcp_write_loop ws left sent = Some (err, out, ws') \<Longrightarrow> Write_error \<notin> set ws \<Longrightarrow> \<not> err"
  by (induction ws left sent rule: tcp_write_loop.induct) (auto split: wres.splits if_splits)

lemma writen_prefix:
  assumes "writen c buf = Some (n, c')"
  shows "(n = -1 \<or> (\<exists>m. n = int m \<and> m \<le> length buf \<and> sock_sent c' = sock_sent c @ take m buf)) \<and>
    (\<exists>s ws. c' = c\<lparr>sock_sent := s, sock_writes := ws\<rparr>)"
proof -
  obtain err out ws where r: "tcp_write_loop (sock_writes c) buf [] = Some (err, out, ws)"
    "n = (if err then -1 else int (length out))" "c' = c\<lparr>sock_sent := sock_sent c @ out, sock_writes := ws\<rparr>"
    using assms by (auto simp: writen_def)
  from tcp_write_loop_prefix [OF r(1)] obtain m where "out = take m buf" "m \<le> length buf" by auto
  then show ?thesis using r(2,3) by (cases err) (auto intro!: exI [of _ m] simp: min_def)
qed

lemma conn_send_stream:
  assumes "conn_inv c" and "conn_send msg c = Inr c'" and "length msg < 2 ^ 31"
  shows "conn_stream c' = conn_stream c @ msg \<and> conn_inv c'"
proof (cases "sendBuffer c = [] \<and> \<not> isWriting c")
  case False
  then show ?thesis using assms by (auto simp: conn_send_def Let_def conn_stream_def conn_inv_def split: if_splits)
next
  case True
  then obtain n c1 where w: "writen c msg = Some (n, c1)"
    using assms(2) by (auto simp: conn_send_def split: option.splits)
  from writen_prefix [OF w] obtain s ws where c1: "c1 = c\<lparr>sock_sent := s, sock_writes := ws\<rparr>" by blast
  consider "n = -1" | m where "n = int m" "m \<le> length msg" "sock_sent c1 = sock_sent c @ take m msg"
    using writen_prefix [OF w] by blast
  then show ?thesis
  proof cases
    case 1
    have "substr msg (nat (- 1 mod 2 ^ 64)) (length msg) = Inl Exception"
      using assms(3) by (simp add: substr_def)
    then show ?thesis using assms(2) True w 1 by (simp add: conn_send_def)
  next
    case 2
    show ?thesis
    proof (cases "m < length msg")
      case True2: True
      have "m < 2 ^ 64" using True2 assms(3) by simp
      then have "nat (int m mod 2 ^ 64) = m" by (simp add: nat_mod_distrib)
      then have "c' = c1\<lparr>sendBuffer := drop m msg, isWriting := True, epollWrite := True\<rparr>"
        using assms(2) True True2 w 2 by (simp add: conn_send_def substr_def)
      then show ?thesis using True assms(1) 2(3) c1 by (simp add: conn_stream_def conn_inv_def)
    next
      case False
      then have "c' = c1" using assms(2) True w 2(1) by (simp add: conn_send_def)
      then show ?thesis using True assms(1) 2(2,3) False c1 by (simp add: conn_stream_def conn_inv_def)
    qed
  qed
qed


text \<open>A send comes to an end on a socket that says when it is not ready and does not fail.\<close>

lemma conn_send_returns:
  assumes "Would_block \<in> set (sock_writes c)" and "Write_error \<notin> set (sock_writes c)" and "length msg < 2 ^ 31"
  shows "\<exists>c'. conn_send msg c = Inr c'"
proof (cases "sendBuffer c = [] \<and> \<not> isWriting c")
  case False
  then show ?thesis by (auto simp: conn_send_def Let_def)
next
  case True
  obtain err out ws where r: "tcp_write_loop (sock_writes c) msg [] = Some (err, out, ws)"
    using tcp_write_loop_stops [OF assms(1), of msg "[]"] by auto
  have "\<not> err" using tcp_write_loop_no_error [OF r assms(2)] .
  moreover have "length out \<le> length msg" using tcp_write_loop_prefix [OF r] by auto
  moreover have "nat (int (length out) mod 2 ^ 64) = length out"
    using assms(3) calculation(2) by (simp add: nat_mod_distrib)
  ultimately show ?thesis using True r by (auto simp: conn_send_def writen_def substr_def)
qed

lemma conn_send_error:
  assumes "sendBuffer c = []" and "\<not> isWriting c" and "sock_writes c = Write_error # ws" and "msg \<noteq> []"
    and "length msg < 2 ^ 31"
  shows "conn_send msg c = Inl Exception"
  using assms by (cases msg) (auto simp: conn_send_def writen_def substr_def)

lemma handleWriteCallback_stream:
  assumes "conn_inv c" and "handleWriteCallback c = Inr (False, c')"
  shows "conn_stream c' = conn_stream c \<and> conn_inv c'"
proof (cases "sendBuffer c = []")
  case True
  then show ?thesis using assms by (auto simp: handleWriteCallback_def conn_stream_def conn_inv_def)
next
  case False
  then obtain n c1 where w: "writen c (sendBuffer c) = Some (n, c1)" "\<not> n < 0"
    using assms(2) by (auto simp: handleWriteCallback_def split: option.splits if_splits)
  from writen_prefix [OF w(1)] obtain s ws where c1: "c1 = c\<lparr>sock_sent := s, sock_writes := ws\<rparr>" by blast
  obtain m where m: "n = int m" "m \<le> length (sendBuffer c)" "sock_sent c1 = sock_sent c @ take m (sendBuffer c)"
    using writen_prefix [OF w(1)] w(2) by auto
  show ?thesis
    using assms False w m c1
    by (auto simp: handleWriteCallback_def Let_def conn_stream_def conn_inv_def split: if_splits)
qed

text \<open>When the kernel takes everything, the write event empties the buffer and stops watching.\<close>

lemma handleWriteCallback_drains:
  assumes "steady (length (sendBuffer c)) (sock_writes c)"
  shows "\<exists>c'. handleWriteCallback c = Inr (False, c') \<and> sendBuffer c' = [] \<and> \<not> isWriting c' \<and>
    \<not> epollWrite c' \<and> sock_sent c' = conn_stream c"
proof (cases "sendBuffer c = []")
  case True
  then show ?thesis by (simp add: handleWriteCallback_def conn_stream_def)
next
  case False
  have "steady (length (sendBuffer c) + 0) (sock_writes c)" using assms by simp
  from tcp_write_loop_steady [OF this, of "[]"] obtain ws where
    "tcp_write_loop (sock_writes c) (sendBuffer c) [] = Some (False, sendBuffer c, ws)" by auto
  then show ?thesis using False by (simp add: handleWriteCallback_def writen_def conn_stream_def)
qed

section \<open>Cutting the received stream\<close>

lemma byte_char [simp]: "byte_of (char_of_byte b) = b"
proof -
  have "unat b < 256" using unsigned_less [of b, where ?'a = nat] by simp
  then show ?thesis by (simp add: byte_of_def char_of_byte_def)
qed

lemma dollar: "char_of_byte 36 = CHR ''$''"
  by code_simp

lemma interleaved_round_trip:
  assumes "length p \<le> 15000"
  shows "tryExtractInterleaved (map char_of_byte (rtp_frame ch p) @ rest) =
    (Some (ch, map char_of_byte (rtp_frame ch p)), rest)"
proof -
  let ?n = "of_nat (length p) :: u16" and ?f = "map char_of_byte (rtp_frame ch p)"
  have len: "unat (be16 (ucast (drop_bit 8 ?n)) (ucast ?n)) = length p"
    unfolding be16_split using assms by (simp add: u16_nat)
  have f: "?f = [CHR ''$'', char_of_byte ch, char_of_byte (ucast (drop_bit 8 ?n)), char_of_byte (ucast ?n)] @ map char_of_byte p"
    using dollar by (simp add: rtp_frame_def)
  define buf where "buf = ?f @ rest"
  have nth: "buf ! 0 = CHR ''$''" "byte_of (buf ! 1) = ch" "byte_of (buf ! 2) = ucast (drop_bit 8 ?n)"
    "byte_of (buf ! 3) = ucast ?n" by (simp_all add: buf_def f)
  have "length ?f = 4 + length p" by (simp add: rtp_frame_def)
  then have b: "take (length p + 4) buf = ?f" "drop (4 + length p) buf = rest" "4 + length p \<le> length buf"
    by (simp_all add: buf_def)
  then have "buf \<noteq> []" "\<not> length buf < 4" by auto
  then show ?thesis
    unfolding buf_def [symmetric] tryExtractInterleaved_def Let_def nth len using assms b by simp
qed

lemma tryExtractRtsp_splits:
  assumes "tryExtractRtsp buf = Inr (Some req, rest)" and "find buf ''TEARDOWN'' = None"
  shows "req @ rest = buf"
  using assms rfind_None_iff [of buf "''TEARDOWN''"]
  by (auto simp: tryExtractRtsp_def Let_def split: option.splits if_splits)

lemma tryExtractRtsp_complete:
  assumes "find buf head_end = Some h" and "find buf ''TEARDOWN'' = None"
    and "content_length_loop (take (h + 4) buf) 0 = n" and "h + 4 + n \<le> length buf" and "length buf < 2 ^ 64"
  shows "tryExtractRtsp buf = Inr (Some (take (h + 4 + n) buf), drop (h + 4 + n) buf)"
proof -
  have "(h + 4 + n) mod 2 ^ 64 = h + 4 + n" using assms(4,5) by simp
  then show ?thesis
    using assms rfind_None_iff [of buf "''TEARDOWN''"] by (simp add: tryExtractRtsp_def Let_def)
qed

lemma tryExtractRtsp_waits:
  assumes "find buf head_end = Some h" and "find buf ''TEARDOWN'' = None"
    and "content_length_loop (take (h + 4) buf) 0 = n" and "length buf < h + 4 + n" and "h + 4 + n < 2 ^ 64"
  shows "tryExtractRtsp buf = Inr (None, buf)"
  using assms rfind_None_iff [of buf "''TEARDOWN''"] by (simp add: tryExtractRtsp_def Let_def)

lemma teardown_after_request:
  assumes "find buf head_end = Some h" and "rfind buf ''TEARDOWN'' = Some (h + 4)"
  shows "tryExtractRtsp buf = Inr (Some [], [])"
  using assms by (simp add: tryExtractRtsp_def Let_def)

lemma teardown_far_after_request:
  assumes "find buf head_end = Some h" and "rfind buf ''TEARDOWN'' = Some t" and "h + 4 < t"
  shows "tryExtractRtsp buf = Inl Exception"
  using assms by (simp add: tryExtractRtsp_def Let_def)

end
