(* ===== verification/Monitor.thy ===== *)
theory Monitor
  imports Request Tcp_Connection
begin

unbundle bit_operations_syntax

text \<open>
  The monitor server (\<^verbatim>\<open>MonitorServer.cc\<close>): the players connected over TCP, the cameras they may
  watch, and one KCP control block for each camera a player subscribed to. The record has the
  maps of the class in key order, and the text and the datagrams it sent. The descriptors and
  mutexes are left out; the handlers below run under the server's mutex, and the part of the
  locking that matters is in the theory on threads. A thread object is its joinable flag.
\<close>

record InetAddress =
  addr_ip :: string
  addr_port :: u16

record udpSession =
  videoUdpRtp :: InetAddress
  videoUdpRtcp :: InetAddress
  udp_ikcp :: "IKCPCB option"
  udp_conv :: u32
  kcp_runing :: bool
  kcpThread :: bool

record QtClient =
  clientIp :: string
  sessionMap :: "(string \<times> udpSession) list"
  qt_buffer :: string
  Cseq :: int

record MonitorServer =
  qtClients :: "(int \<times> QtClient) list"
  cams :: "(string \<times> string) list"
  server_addr :: string
  mon_sent :: "(int \<times> string) list"
  mon_udp :: "(InetAddress \<times> bytes) list"

definition kcp_getu32 :: "bytes \<Rightarrow> u32" where
  "kcp_getu32 p =
     ucast (p ! 0) OR push_bit 8 (ucast (p ! 1)) OR push_bit 16 (ucast (p ! 2)) OR push_bit 24 (ucast (p ! 3))"

definition mon_kcp_init :: "allocator \<Rightarrow> nat \<Rightarrow> u32 \<Rightarrow> IKCPCB res" where
  "mon_kcp_init al sizeof_cb cv = kcp_config al 256 (ikcp_create al sizeof_cb cv)"

section \<open>Players coming and going\<close>

definition accept_client :: "int \<Rightarrow> string \<Rightarrow> MonitorServer \<Rightarrow> MonitorServer" where
  "accept_client connfd cip m =
     m\<lparr>qtClients := omap_insert connfd
         \<lparr>clientIp = cip, sessionMap = [], qt_buffer = [], Cseq = 0\<rparr> (qtClients m)\<rparr>"

text \<open>A player that closed: its threads are stopped, its control blocks released, its entry erased.\<close>

definition close_client :: "int \<Rightarrow> MonitorServer \<Rightarrow> MonitorServer" where
  "close_client fd m = m\<lparr>qtClients := omap_erase fd (qtClients m)\<rparr>"

definition sendRespond :: "headers \<Rightarrow> int \<Rightarrow> QtClient \<Rightarrow> MonitorServer \<Rightarrow> MonitorServer" where
  "sendRespond extraHeaders fd client m =
     m\<lparr>mon_sent := mon_sent m @
         [(fd, ''200 OK'' @ crlf @ ''CSeq: '' @ show_int (Cseq client) @ crlf
               @ concat (map (\<lambda>(k, v). k @ '': '' @ v @ crlf) extraHeaders) @ crlf)]\<rparr>"

section \<open>Requests of a player\<close>

definition handle_setup :: "int \<Rightarrow> QtClient \<Rightarrow> MonitorServer \<Rightarrow> MonitorServer" where
  "handle_setup fd client m =
     (let extra = omap_insert ''CamNum'' (show_nat (length (cams m))) [];
          extra = fold (\<lambda>(i, e). omap_insert (show_nat i) (fst e)) (enumerate 0 (cams m)) extra
      in sendRespond extra fd client m)"

text \<open>
  One header of a \<^verbatim>\<open>MESSAGE\<close> or \<^verbatim>\<open>ADDCAM\<close> request: the camera's name with two ports and a
  conversation number. Missing numbers are read past the end of the vector, bad ones throw, and
  replacing a session whose thread runs ends the program.
\<close>

definition add_session :: "allocator \<Rightarrow> nat \<Rightarrow> string \<times> string \<Rightarrow> QtClient \<Rightarrow> QtClient res" where
  "add_session al sizeof_cb e client =
     (let ports = getparts (CHR '' '') (snd e)
      in case ports of
           [] \<Rightarrow> Inl Out_of_bounds
         | p0 # ps \<Rightarrow>
             rbind (stoul p0) (\<lambda>n0.
               case ps of
                 [] \<Rightarrow> Inl Out_of_bounds
               | p1 # qs \<Rightarrow>
                   rbind (stoul p1) (\<lambda>n1.
                     if (case map_of (sessionMap client) (fst e) of None \<Rightarrow> False | Some s \<Rightarrow> kcpThread s)
                     then Inl Exception
                     else
                       case qs of
                         [] \<Rightarrow> Inl Out_of_bounds
                       | p2 # _ \<Rightarrow>
                           rbind (stoul p2) (\<lambda>n2.
                             rbind (mon_kcp_init al sizeof_cb (of_nat n2)) (\<lambda>kcp.
                               Inr (client\<lparr>sessionMap := omap_insert (fst e)
                                      \<lparr> videoUdpRtp = \<lparr>addr_ip = clientIp client, addr_port = of_nat n0\<rparr>,
                                        videoUdpRtcp = \<lparr>addr_ip = clientIp client, addr_port = of_nat n1\<rparr>,
                                        udp_ikcp = Some kcp, udp_conv = of_nat n2,
                                        kcp_runing = True, kcpThread = True \<rparr>
                                      (sessionMap client)\<rparr>))))))"

fun add_sessions :: "allocator \<Rightarrow> nat \<Rightarrow> headers \<Rightarrow> QtClient \<Rightarrow> QtClient res" where
  "add_sessions al sizeof_cb [] client = Inr client"
| "add_sessions al sizeof_cb (e # es) client =
     (if fst e = ''cseq'' then add_sessions al sizeof_cb es client
      else case add_session al sizeof_cb e client of
             Inl f \<Rightarrow> Inl f
           | Inr client \<Rightarrow> add_sessions al sizeof_cb es client)"

text \<open>
  Data from a player. When no end of a request is in the buffer the position is \<^verbatim>\<open>npos\<close>: the whole
  buffer is taken as the request, and \<^verbatim>\<open>npos + 4\<close> wraps around, so that three characters are erased.
  A failed \<^verbatim>\<open>recv\<close> is appended as a string of length -1, which throws.
\<close>

definition client_data :: "allocator \<Rightarrow> nat \<Rightarrow> int \<Rightarrow> arrival \<Rightarrow> MonitorServer \<Rightarrow> MonitorServer res" where
  "client_data al sizeof_cb fd a m =
     (case map_of (qtClients m) fd of
        None \<Rightarrow> Inr m
      | Some client \<Rightarrow>
        (case a of
           Peer_closed \<Rightarrow> Inr (close_client fd m)
         | Recv_failed \<Rightarrow> Inl Exception
         | Data got \<Rightarrow>
            let buf = qt_buffer client @ take 256 got;
                (request, rest) =
                  (case find buf [CHR 0x0D, CHR 0x0A, CHR 0x0D, CHR 0x0A] of
                     Some e \<Rightarrow> (take e buf, drop (e + 4) buf)
                   | None \<Rightarrow> (buf, drop 3 buf))
            in rbind (parseRequest_monitor request) (\<lambda>(meth, url, headers).
                 let client = client\<lparr>qt_buffer := rest, Cseq := Cseq client + 1\<rparr>;
                     m = m\<lparr>qtClients := omap_insert fd client (qtClients m)\<rparr>
                 in if meth = ''SETUP'' then Inr (handle_setup fd client m)
                    else if meth = ''MESSAGE'' \<or> meth = ''ADDCAM'' then
                      rbind (add_sessions al sizeof_cb headers client) (\<lambda>client.
                        Inr (m\<lparr>qtClients := omap_insert fd client (qtClients m)\<rparr>))
                    else Inr m)))"

section \<open>Media\<close>

text \<open>A camera's packet goes to the control block of every player that watches the camera.\<close>

fun nalu_clients :: "allocator \<Rightarrow> string \<Rightarrow> bytes \<Rightarrow> (int \<times> QtClient) list \<Rightarrow> (int \<times> QtClient) list res" where
  "nalu_clients al sid packet [] = Inr []"
| "nalu_clients al sid packet ((fd, c) # cs) =
     rbind (case map_of (sessionMap c) sid of
              None \<Rightarrow> Inr c
            | Some s \<Rightarrow>
                (case udp_ikcp s of
                   None \<Rightarrow> Inl Out_of_bounds
                 | Some kcp \<Rightarrow>
                     rbind (ikcp_send al kcp packet (int (length packet))) (\<lambda>(_, kcp).
                       Inr (c\<lparr>sessionMap := omap_insert sid (s\<lparr>udp_ikcp := Some kcp\<rparr>) (sessionMap c)\<rparr>))))
       (\<lambda>c. rbind (nalu_clients al sid packet cs) (\<lambda>cs. Inr ((fd, c) # cs)))"

definition onNaluUdp :: "allocator \<Rightarrow> string \<Rightarrow> bytes \<Rightarrow> MonitorServer \<Rightarrow> MonitorServer res" where
  "onNaluUdp al sid packet m =
     rbind (nalu_clients al sid packet (qtClients m)) (\<lambda>cs. Inr (m\<lparr>qtClients := cs\<rparr>))"

text \<open>
  A datagram from a player: the first session with its conversation number, in the order of the
  maps. The number is read from the buffer, whose rest is what it held before (\<open>stale\<close>); a number
  nobody has is a null pointer.
\<close>

fun find_session :: "u32 \<Rightarrow> (string \<times> udpSession) list \<Rightarrow> (string \<times> udpSession) option" where
  "find_session cv [] = None"
| "find_session cv ((sid, s) # ss) = (if udp_conv s = cv then Some (sid, s) else find_session cv ss)"

fun find_target :: "u32 \<Rightarrow> (int \<times> QtClient) list \<Rightarrow> (int \<times> QtClient \<times> string \<times> udpSession) option" where
  "find_target cv [] = None"
| "find_target cv ((fd, c) # cs) =
     (case find_session cv (sessionMap c) of
        Some (sid, s) \<Rightarrow> Some (fd, c, sid, s)
      | None \<Rightarrow> find_target cv cs)"

definition udp_data :: "allocator \<Rightarrow> bytes \<Rightarrow> bytes \<Rightarrow> MonitorServer \<Rightarrow> MonitorServer res" where
  "udp_data al stale got m =
     (let cv = kcp_getu32 (take 4 (got @ drop (length got) stale))
      in case find_target cv (qtClients m) of
           None \<Rightarrow> Inl Out_of_bounds
         | Some (fd, c, sid, s) \<Rightarrow>
             (case udp_ikcp s of
                None \<Rightarrow> Inl Out_of_bounds
              | Some kcp \<Rightarrow>
                  rbind (ikcp_input al kcp (Some got) (int (length got))) (\<lambda>(_, kcp).
                    let c = c\<lparr>sessionMap := omap_insert sid (s\<lparr>udp_ikcp := Some kcp\<rparr>) (sessionMap c)\<rparr>
                    in Inr (m\<lparr>qtClients := omap_insert fd c (qtClients m)\<rparr>))))"

text \<open>One round of the update thread of a session.\<close>

definition kcp_update_round :: "u32 \<Rightarrow> udpSession \<Rightarrow> (udpSession \<times> (InetAddress \<times> bytes) list) res" where
  "kcp_update_round now s =
     (case udp_ikcp s of
        None \<Rightarrow> Inr (s, [])
      | Some kcp \<Rightarrow>
          rbind (ikcp_update kcp now) (\<lambda>(kcp, outs).
            Inr (s\<lparr>udp_ikcp := Some kcp\<rparr>, map (\<lambda>d. (videoUdpRtp s, d)) outs)))"

section \<open>Cameras coming and going\<close>

definition addCam :: "string \<Rightarrow> string \<Rightarrow> MonitorServer \<Rightarrow> MonitorServer" where
  "addCam sid stringName m =
     (let m = m\<lparr>cams := omap_insert sid stringName (cams m)\<rparr>;
          new = (\<lambda>c. map_of (sessionMap c) sid = None);
          text = (\<lambda>c. ''ADDCAM '' @ server_addr m @ crlf @ ''Cseq: '' @ show_int (Cseq c + 1) @ crlf
                        @ ''SessionId: '' @ sid @ crlf @ crlf)
      in m\<lparr>qtClients := map (\<lambda>(fd, c). (fd, if new c then c\<lparr>Cseq := Cseq c + 1\<rparr> else c)) (qtClients m),
           mon_sent := mon_sent m @ [(fd, text c). (fd, c) \<leftarrow> qtClients m, new c]\<rparr>)"

definition removeCam :: "string \<Rightarrow> MonitorServer \<Rightarrow> MonitorServer" where
  "removeCam sid m =
     (let m = m\<lparr>cams := omap_erase sid (cams m)\<rparr>;
          has = (\<lambda>c. map_of (sessionMap c) sid \<noteq> None);
          text = (\<lambda>c. ''DELCAM '' @ server_addr m @ crlf @ ''Cseq: '' @ show_int (Cseq c) @ crlf
                        @ ''SessionId: '' @ sid @ crlf @ crlf)
      in m\<lparr>qtClients := map (\<lambda>(fd, c). (fd, if has c then c\<lparr>sessionMap := omap_erase sid (sessionMap c)\<rparr> else c)) (qtClients m),
           mon_sent := mon_sent m @ [(fd, text c). (fd, c) \<leftarrow> qtClients m, has c]\<rparr>)"

section \<open>The invariant\<close>

definition session_ok :: "udpSession \<Rightarrow> bool" where
  "session_ok s \<longleftrightarrow> (\<exists>kcp. udp_ikcp s = Some kcp \<and> api_inv kcp)"

definition client_ok :: "QtClient \<Rightarrow> bool" where
  "client_ok c \<longleftrightarrow> omap_ok (sessionMap c) \<and> (\<forall>s \<in> snd ` set (sessionMap c). session_ok s)"

definition mon_inv :: "MonitorServer \<Rightarrow> bool" where
  "mon_inv m \<longleftrightarrow> omap_ok (qtClients m) \<and> omap_ok (cams m) \<and> (\<forall>c \<in> snd ` set (qtClients m). client_ok c)"

lemma set_omap_insert: "(x, y) \<in> set (omap_insert k v m) \<Longrightarrow> (x, y) = (k, v) \<or> (x, y) \<in> set m"
  by (induction k v m rule: omap_insert.induct) (auto split: if_splits)

lemma set_omap_erase: "(x, y) \<in> set (omap_erase k m) \<Longrightarrow> (x, y) \<in> set m"
  by (simp add: omap_erase_def)

lemma client_ok_insert:
  assumes "client_ok c" and "session_ok s"
  shows "client_ok (c\<lparr>sessionMap := omap_insert sid s (sessionMap c)\<rparr>)"
  using assms by (auto simp: client_ok_def omap_ok_insert dest!: set_omap_insert)

lemma client_ok_erase:
  assumes "client_ok c"
  shows "client_ok (c\<lparr>sessionMap := omap_erase sid (sessionMap c)\<rparr>)"
  using assms by (auto simp: client_ok_def omap_ok_erase dest!: set_omap_erase)

lemma client_ok_frame: "client_ok (c\<lparr>qt_buffer := b\<rparr>) = client_ok c" "client_ok (c\<lparr>Cseq := n\<rparr>) = client_ok c"
  by (simp_all add: client_ok_def)

lemma mon_inv_insert:
  assumes "mon_inv m" and "client_ok c"
  shows "mon_inv (m\<lparr>qtClients := omap_insert fd c (qtClients m)\<rparr>)"
  using assms by (auto simp: mon_inv_def omap_ok_insert dest!: set_omap_insert)

lemma mon_inv_lookup: "mon_inv m \<Longrightarrow> map_of (qtClients m) fd = Some c \<Longrightarrow> client_ok c"
  by (auto simp: mon_inv_def dest!: map_of_SomeD)

lemma client_ok_lookup: "client_ok c \<Longrightarrow> map_of (sessionMap c) sid = Some s \<Longrightarrow> session_ok s"
  by (auto simp: client_ok_def dest!: map_of_SomeD)

lemma accept_client_inv: "mon_inv m \<Longrightarrow> mon_inv (accept_client fd ip m)"
  unfolding accept_client_def by (rule mon_inv_insert) (simp_all add: client_ok_def)

lemma close_client_inv: "mon_inv m \<Longrightarrow> mon_inv (close_client fd m)"
  by (auto simp: close_client_def mon_inv_def omap_ok_erase dest!: set_omap_erase)

lemma mon_inv_sent: "mon_inv (m\<lparr>mon_sent := x\<rparr>) = mon_inv m" "mon_inv (m\<lparr>mon_udp := y\<rparr>) = mon_inv m"
  by (simp_all add: mon_inv_def)

lemma handle_setup_inv: "mon_inv m \<Longrightarrow> mon_inv (handle_setup fd c m)"
  by (simp add: handle_setup_def sendRespond_def mon_inv_sent Let_def)

lemma mon_kcp_init_api:
  assumes "allocator_sound al" and "allocator_total al" and "mon_kcp_init al n cv = Inr kcp"
  shows "api_inv kcp"
proof -
  obtain k where k: "ikcp_create al n cv = Some k"
    using assms(3) by (cases "ikcp_create al n cv") (auto simp: mon_kcp_init_def kcp_config_def)
  then show ?thesis using kcp_config_api [OF assms(1,2) k, of 256] assms(3) by (simp add: mon_kcp_init_def)
qed

lemma add_session_ok:
  assumes "allocator_sound al" and "allocator_total al" and "client_ok c" and "add_session al n e c = Inr c'"
  shows "client_ok c'"
proof -
  let ?k = "getparts (CHR '' '') (snd e)"
  obtain p0 p1 p2 ps n0 n1 n2 kcp where p: "?k = p0 # p1 # p2 # ps" "stoul p0 = Inr n0" "stoul p1 = Inr n1" "stoul p2 = Inr n2"
    "mon_kcp_init al n (of_nat n2) = Inr kcp"
    using assms(4) unfolding add_session_def Let_def
    by (cases ?k; cases "tl ?k"; cases "tl (tl ?k)") (auto simp: rbind_Inr_iff split: if_splits)
  then have "\<exists>s. c' = c\<lparr>sessionMap := omap_insert (fst e) s (sessionMap c)\<rparr> \<and> udp_ikcp s = Some kcp"
    using assms(4) by (auto simp: add_session_def split: if_splits)
  then show ?thesis
    using client_ok_insert [OF assms(3)] mon_kcp_init_api [OF assms(1,2) p(5)] by (auto simp: session_ok_def)
qed

lemma add_sessions_ok:
  assumes "allocator_sound al" and "allocator_total al"
  shows "client_ok c \<Longrightarrow> add_sessions al n es c = Inr c' \<Longrightarrow> client_ok c'"
proof (induction es arbitrary: c)
  case (Cons e es)
  then show ?case using add_session_ok [OF assms Cons.prems(1), of n e] by (auto split: if_splits sum.splits)
qed simp

lemma client_data_inv:
  assumes "allocator_sound al" and "allocator_total al" and "mon_inv m" and "client_data al n fd a m = Inr m'"
  shows "mon_inv m'"
proof (cases "map_of (qtClients m) fd")
  case None
  then show ?thesis using assms(3,4) by (simp add: client_data_def)
next
  case (Some c)
  have c: "client_ok c" using mon_inv_lookup [OF assms(3) Some] .
  show ?thesis
  proof (cases a)
    case Peer_closed
    then have "m' = close_client fd m" using assms(4) Some by (simp add: client_data_def)
    then show ?thesis using close_client_inv [OF assms(3)] by simp
  next
    case Recv_failed
    then show ?thesis using assms(4) Some by (simp add: client_data_def)
  next
    case (Data got)
    define buf where "buf = qt_buffer c @ take 256 got"
    define rr where "rr = (case find buf [CHR 0x0D, CHR 0x0A, CHR 0x0D, CHR 0x0A] of
        Some e \<Rightarrow> (take e buf, drop (e + 4) buf) | None \<Rightarrow> (buf, drop 3 buf))"
    obtain request rest where rr: "rr = (request, rest)" by (cases rr)
    define c1 where "c1 = c\<lparr>qt_buffer := rest, Cseq := Cseq c + 1\<rparr>"
    define m1 where "m1 = m\<lparr>qtClients := omap_insert fd c1 (qtClients m)\<rparr>"
    have c1: "client_ok c1" using c by (simp add: c1_def client_ok_frame)
    then have m1: "mon_inv m1" unfolding m1_def by (rule mon_inv_insert [OF assms(3)])
    obtain meth url hs where p: "parseRequest_monitor request = Inr (meth, url, hs)"
      using assms(4) Some Data by (auto simp: client_data_def fault_simps rr buf_def [symmetric] rr_def [symmetric])
    have "client_data al n fd a m =
        (if meth = ''SETUP'' then Inr (handle_setup fd c1 m1)
         else if meth = ''MESSAGE'' \<or> meth = ''ADDCAM'' then
           rbind (add_sessions al n hs c1) (\<lambda>client. Inr (m1\<lparr>qtClients := omap_insert fd client (qtClients m1)\<rparr>))
         else Inr m1)"
      using Some Data p
      by (simp add: client_data_def rr buf_def [symmetric] rr_def [symmetric] Let_def c1_def [symmetric] m1_def [symmetric])
    then consider "m' = handle_setup fd c1 m1" | "m' = m1"
      | c' where "add_sessions al n hs c1 = Inr c'" "m' = m1\<lparr>qtClients := omap_insert fd c' (qtClients m1)\<rparr>"
      using assms(4) by (cases "add_sessions al n hs c1") (auto split: if_splits)
    then show ?thesis
    proof cases
      case 3
      then show ?thesis using mon_inv_insert [OF m1] add_sessions_ok [OF assms(1,2) c1] by blast
    qed (use m1 handle_setup_inv in auto)
  qed
qed

section \<open>Forwarding\<close>

text \<open>What a packet does to one player.\<close>

definition pushed :: "allocator \<Rightarrow> string \<Rightarrow> bytes \<Rightarrow> QtClient \<Rightarrow> QtClient \<Rightarrow> bool" where
  "pushed al sid packet c c' \<longleftrightarrow>
     (case map_of (sessionMap c) sid of
        None \<Rightarrow> c' = c
      | Some s \<Rightarrow> \<exists>kcp kcp' r. udp_ikcp s = Some kcp \<and> ikcp_send al kcp packet (int (length packet)) = Inr (r, kcp') \<and>
          c' = c\<lparr>sessionMap := omap_insert sid (s\<lparr>udp_ikcp := Some kcp'\<rparr>) (sessionMap c)\<rparr>)"

lemma nalu_clients_ok:
  assumes "allocator_total al"
  shows "\<forall>c \<in> snd ` set cs. client_ok c \<Longrightarrow>
    \<exists>cs'. nalu_clients al sid packet cs = Inr cs' \<and> map fst cs' = map fst cs \<and>
      (\<forall>c \<in> snd ` set cs'. client_ok c) \<and> list_all2 (\<lambda>x y. pushed al sid packet (snd x) (snd y)) cs cs'"
proof (induction cs)
  case (Cons x cs)
  obtain fd c where x: "x = (fd, c)" by (cases x)
  have c: "client_ok c" using Cons.prems x by simp
  obtain cs' where cs': "nalu_clients al sid packet cs = Inr cs'" "map fst cs' = map fst cs"
    "\<forall>c \<in> snd ` set cs'. client_ok c" "list_all2 (\<lambda>x y. pushed al sid packet (snd x) (snd y)) cs cs'"
    using Cons by auto
  show ?case
  proof (cases "map_of (sessionMap c) sid")
    case None
    then show ?thesis using cs' c by (simp add: x pushed_def)
  next
    case (Some s)
    obtain kcp where k: "udp_ikcp s = Some kcp" "api_inv kcp"
      using client_ok_lookup [OF c Some] by (auto simp: session_ok_def)
    obtain r kcp' where k': "ikcp_send al kcp packet (int (length packet)) = Inr (r, kcp')" "api_inv kcp'"
      using send_api [OF k(2) assms, of packet] by blast
    have "client_ok (c\<lparr>sessionMap := omap_insert sid (s\<lparr>udp_ikcp := Some kcp'\<rparr>) (sessionMap c)\<rparr>)"
      using k'(2) by (intro client_ok_insert [OF c]) (simp add: session_ok_def)
    then show ?thesis using cs' Some k k' by (simp add: x pushed_def)
  qed
qed simp

lemma onNaluUdp_ok:
  assumes "allocator_total al" and "mon_inv m"
  shows "\<exists>m'. onNaluUdp al sid packet m = Inr m' \<and> mon_inv m' \<and> map fst (qtClients m') = map fst (qtClients m) \<and>
    list_all2 (\<lambda>x y. pushed al sid packet (snd x) (snd y)) (qtClients m) (qtClients m')"
proof -
  have "\<forall>c \<in> snd ` set (qtClients m). client_ok c" using assms(2) by (simp add: mon_inv_def)
  from nalu_clients_ok [OF assms(1) this, of sid packet] obtain cs' where
    "nalu_clients al sid packet (qtClients m) = Inr cs'" "map fst cs' = map fst (qtClients m)"
    "\<forall>c \<in> snd ` set cs'. client_ok c" "list_all2 (\<lambda>x y. pushed al sid packet (snd x) (snd y)) (qtClients m) cs'" by blast
  then show ?thesis using assms(2) by (simp add: onNaluUdp_def mon_inv_def)
qed

section \<open>Datagrams of players\<close>

lemma find_session_in: "find_session cv ss = Some (sid, s) \<Longrightarrow> (sid, s) \<in> set ss \<and> udp_conv s = cv"
  by (induction cv ss rule: find_session.induct) (auto split: if_splits)

lemma find_target_in:
  "find_target cv cs = Some (fd, c, sid, s) \<Longrightarrow> (fd, c) \<in> set cs \<and> (sid, s) \<in> set (sessionMap c) \<and> udp_conv s = cv"
  by (induction cv cs rule: find_target.induct) (auto dest: find_session_in split: option.splits)

lemma find_session_None: "find_session cv ss = None \<longleftrightarrow> (\<forall>s \<in> snd ` set ss. udp_conv s \<noteq> cv)"
  by (induction cv ss rule: find_session.induct) auto

lemma find_target_None:
  "find_target cv cs = None \<longleftrightarrow> (\<forall>c \<in> snd ` set cs. \<forall>s \<in> snd ` set (sessionMap c). udp_conv s \<noteq> cv)"
proof (induction cv cs rule: find_target.induct)
  case (2 cv fd c cs)
  then show ?case
    using find_session_None [of cv "sessionMap c"] by (cases "find_session cv (sessionMap c)") auto
qed simp

lemma udp_data_inv:
  assumes "allocator_sound al" and "allocator_total al" and "mon_inv m" and "length got \<le> 2048"
    and "\<forall>c \<in> snd ` set (qtClients m). \<forall>s \<in> snd ` set (sessionMap c). \<forall>kcp. udp_ikcp s = Some kcp \<longrightarrow> unat (ackcount kcp) < 2 ^ 30"
    and "find_target (kcp_getu32 (take 4 (got @ drop (length got) stale))) (qtClients m) = Some (fd, c, sid, s)"
  shows "\<exists>m'. udp_data al stale got m = Inr m' \<and> mon_inv m'"
proof -
  from find_target_in [OF assms(6)] have t: "(fd, c) \<in> set (qtClients m)" "(sid, s) \<in> set (sessionMap c)" by simp_all
  then have c: "client_ok c" using assms(3) by (force simp: mon_inv_def)
  then obtain kcp where k: "udp_ikcp s = Some kcp" "api_inv kcp"
    using t(2) by (force simp: client_ok_def session_ok_def)
  have "unat (ackcount kcp) < 2 ^ 30" using assms(5) t k(1) by force
  then have "call_ok (Input got) kcp" using assms(4) by simp
  from kcp_step_safe [OF assms(1,2) k(2) this] obtain r kcp' where
    k': "ikcp_input al kcp (Some got) (int (length got)) = Inr (r, kcp')" "api_inv kcp'"
    by (auto simp: fault_simps)
  have "client_ok (c\<lparr>sessionMap := omap_insert sid (s\<lparr>udp_ikcp := Some kcp'\<rparr>) (sessionMap c)\<rparr>)"
    using k'(2) by (intro client_ok_insert [OF c]) (simp add: session_ok_def)
  from mon_inv_insert [OF assms(3) this, of fd] show ?thesis
    using assms(6) k(1) k'(1) by (simp add: udp_data_def Let_def)
qed

section \<open>The list of cameras\<close>

lemma addCam_inv: "mon_inv m \<Longrightarrow> mon_inv (addCam sid name m)"
  by (auto simp: addCam_def mon_inv_def Let_def omap_ok_insert comp_def case_prod_beta client_ok_frame)

lemma removeCam_inv: "mon_inv m \<Longrightarrow> mon_inv (removeCam sid m)"
  by (auto simp: removeCam_def mon_inv_def Let_def omap_ok_erase comp_def case_prod_beta client_ok_erase)

lemma removeCam_gone:
  "map_of (cams (removeCam sid m)) sid = None \<and>
   (\<forall>c \<in> snd ` set (qtClients (removeCam sid m)). map_of (sessionMap c) sid = None)"
  by (auto simp: removeCam_def Let_def lookup_omap_erase)

end
