(* ===== verification/Sessions.thy ===== *)
theory Sessions
  imports Monitor
begin

text \<open>
  The sessions of the RTSP server (\<^verbatim>\<open>SessionManager.cc\<close>): the table of sessions, the numbers they are
  named by and the UDP ports they are given.
\<close>

record UdpConnection =
  udp_fd :: int
  udp_local :: InetAddress
  udp_peer :: InetAddress
  udp_callback :: bool

record RtspSession =
  sessionId :: string
  videoRtpConn :: "UdpConnection option"
  videoRtcpConn :: "UdpConnection option"
  audioRtpConn :: "UdpConnection option"
  audioRtcpConn :: "UdpConnection option"
  transportType :: string
  stringName :: string

record SessionManager =
  sessions :: "(string \<times> RtspSession) list"
  nextUdpPort :: int
  sessionCounter :: u32

definition new_manager :: SessionManager where
  "new_manager = \<lparr> sessions = [], nextUdpPort = 10000, sessionCounter = 0 \<rparr>"

fun show_hex :: "nat \<Rightarrow> string" where
  "show_hex n =
     (let d = char_of (if n mod 16 < 10 then 48 + n mod 16 else 87 + n mod 16)
      in if n < 16 then [d] else show_hex (n div 16) @ [d])"

declare show_hex.simps [simp del]

text \<open>The hexadecimal manipulator stays in force, so that the counter is printed with it too.\<close>

definition generateSessionId :: "nat \<Rightarrow> SessionManager \<Rightarrow> string \<times> SessionManager" where
  "generateSessionId time m =
     (let m = m\<lparr>sessionCounter := sessionCounter m + 1\<rparr>
      in (show_hex time @ ''-'' @ show_hex (unat (sessionCounter m)), m))"

definition addSession :: "RtspSession \<Rightarrow> SessionManager \<Rightarrow> SessionManager" where
  "addSession s m = m\<lparr>sessions := omap_insert (sessionId s) s (sessions m), sessionCounter := sessionCounter m + 1\<rparr>"

definition removeSession :: "string \<Rightarrow> SessionManager \<Rightarrow> SessionManager" where
  "removeSession sid m = m\<lparr>sessions := omap_erase sid (sessions m)\<rparr>"

definition getSession :: "string \<Rightarrow> SessionManager \<Rightarrow> RtspSession option" where
  "getSession sid m = map_of (sessions m) sid"

text \<open>The counter is an \<^verbatim>\<open>int\<close> that wraps around; a port is its low half-word.\<close>

definition allocateUdpPorts :: "SessionManager \<Rightarrow> u16 \<times> SessionManager" where
  "allocateUdpPorts m = (word_of_int (nextUdpPort m), m\<lparr>nextUdpPort := s32 (nextUdpPort m + 2)\<rparr>)"

section \<open>Names are different\<close>

definition hex_char :: "char \<Rightarrow> bool" where
  "hex_char c \<longleftrightarrow> c \<in> set ''0123456789abcdef''"

definition hex_val :: "char \<Rightarrow> nat" where
  "hex_val c = (if of_char c < (58 :: nat) then of_char c - 48 else of_char c - 87)"

lemma hex_digit:
  assumes "n < 16"
  shows "hex_char (char_of (if n < 10 then 48 + n else 87 + n)) \<and>
    hex_val (char_of (if n < 10 then 48 + n else 87 + n)) = n"
proof -
  have "n \<in> set [0..<16]" using assms by simp
  moreover have "list_all (\<lambda>n. hex_char (char_of (if n < 10 then 48 + n else 87 + n)) \<and>
    hex_val (char_of (if n < 10 then 48 + n else 87 + n)) = n) [0..<16]" by code_simp
  ultimately show ?thesis unfolding list_all_iff by blast
qed

lemma show_hex_val:
  "list_all hex_char (show_hex n) \<and> foldl (\<lambda>a c. 16 * a + hex_val c) 0 (show_hex n) = n"
proof (induction n rule: show_hex.induct)
  case (1 n)
  define d where "d = char_of (if n mod 16 < 10 then 48 + n mod 16 else 87 + n mod 16)"
  have d: "hex_char d" "hex_val d = n mod 16" using hex_digit [of "n mod 16"] by (simp_all add: d_def)
  have e: "show_hex n = (if n < 16 then [d] else show_hex (n div 16) @ [d])"
    by (subst show_hex.simps) (simp add: d_def Let_def)
  show ?case
  proof (cases "n < 16")
    case True
    then show ?thesis using d by (simp add: e)
  next
    case False
    have "foldl (\<lambda>a c. 16 * a + hex_val c) 0 (show_hex (n div 16)) = n div 16"
      "list_all hex_char (show_hex (n div 16))" using 1 [OF d_def False] by simp_all
    then show ?thesis using d False by (simp add: e)
  qed
qed

lemma show_hex_inj: "show_hex a = show_hex b \<Longrightarrow> a = b"
  using show_hex_val [of a] show_hex_val [of b] by metis

lemma split_at_dash:
  assumes "CHR ''-'' \<notin> set a" and "CHR ''-'' \<notin> set b" and "a @ ''-'' @ x = b @ ''-'' @ y"
  shows "a = b \<and> x = y"
proof -
  have "CHR ''-'' \<notin> set s \<Longrightarrow> takeWhile (\<lambda>c. c \<noteq> CHR ''-'') (s @ ''-'' @ t) = s" for s t
    by (induction s) auto
  then have "takeWhile (\<lambda>c. c \<noteq> CHR ''-'') (a @ ''-'' @ x) = a" "takeWhile (\<lambda>c. c \<noteq> CHR ''-'') (b @ ''-'' @ y) = b"
    using assms(1,2) by blast+
  with assms(3) have "a = b" by simp
  then show ?thesis using assms(3) by simp
qed

lemma no_dash: "CHR ''-'' \<notin> set (show_hex n)"
proof -
  have "\<not> hex_char (CHR ''-'')" by code_simp
  then show ?thesis using show_hex_val [of n] unfolding list_all_iff by blast
qed

lemma unat_eq_imp: "unat a = unat b \<Longrightarrow> a = (b :: 'a :: len word)"
  by (simp add: word_unat_eq_iff)

lemma session_ids_differ:
  assumes "sessionCounter m \<noteq> sessionCounter m'"
  shows "fst (generateSessionId t m) \<noteq> fst (generateSessionId t' m')"
proof
  assume "fst (generateSessionId t m) = fst (generateSessionId t' m')"
  then have "show_hex t @ ''-'' @ show_hex (unat (sessionCounter m + 1)) =
      show_hex t' @ ''-'' @ show_hex (unat (sessionCounter m' + 1))" by (simp add: generateSessionId_def Let_def)
  from split_at_dash [OF no_dash no_dash this]
  have "unat (sessionCounter m + 1) = unat (sessionCounter m' + 1)" using show_hex_inj by blast
  then have "sessionCounter m + 1 = sessionCounter m' + 1" by (rule unat_eq_imp)
  then show False using assms by (simp only: add_right_cancel)
qed

lemma getSession_ops:
  assumes "omap_ok (sessions m)"
  shows "getSession k (addSession s m) = (if k = sessionId s then Some s else getSession k m)"
    "getSession k (removeSession sid m) = (if k = sid then None else getSession k m)"
  using assms by (simp_all add: getSession_def addSession_def removeSession_def omap.get_ins omap.get_del)

lemma scast_word_of_int32: "scast (word_of_int k :: u32) = (word_of_int k :: u16)"
  by (simp add: scast_eq word_of_int_eq_iff signed_of_int take_bit_signed_take_bit)

end
