(* ===== verification/Rtsp_Connect.thy ===== *)
theory Rtsp_Connect
  imports Sessions
begin

unbundle bit_operations_syntax

text \<open>
  The RTSP connection of a camera (\<^verbatim>\<open>RtspConnect.cc\<close>) with what it works on: the session table, the
  monitor server, the UDP connections of its event loop, and the TCP connection its answers go to
  (\<^const>\<open>None\<close> when it has expired). The pointer to the control block starts uninitialised, which the
  model keeps apart from a null pointer: using it is a fault. A new socket's descriptor is an
  argument, as are the allocator and the clock.
\<close>

datatype RtspState = INIT | READY | PLAYING

datatype kcp_ptr = Garbage | Null | Block IKCPCB

record RtspConnect =
  rc_state :: RtspState
  rc_clientIp :: string
  rc_serverIp :: string
  rc_session :: RtspSession
  rc_sdp :: string
  camKcp :: kcp_ptr
  kcpRunning :: bool
  rc_kcpThread :: bool

record server =
  mgr :: SessionManager
  mon :: MonitorServer
  udpConns :: "(int \<times> UdpConnection) list"
  tcpConn :: "TcpConnection option"
  rc :: RtspConnect

definition new_RtspConnect :: "nat \<Rightarrow> string \<Rightarrow> string \<Rightarrow> SessionManager \<Rightarrow> MonitorServer \<Rightarrow>
    (int \<times> UdpConnection) list \<Rightarrow> TcpConnection \<Rightarrow> server" where
  "new_RtspConnect time cip sip m mo us tc =
     (let (sid, m) = generateSessionId time m;
          s = \<lparr> sessionId = sid, videoRtpConn = None, videoRtcpConn = None, audioRtpConn = None,
                audioRtcpConn = None, transportType = [], stringName = [] \<rparr>;
          m = addSession s m;
          s = s\<lparr>stringName := sid\<rparr>
      in \<lparr> mgr = m, mon = addCam sid (stringName s) mo, udpConns = us, tcpConn = Some tc,
           rc = \<lparr> rc_state = INIT, rc_clientIp = cip, rc_serverIp = sip, rc_session = s, rc_sdp = [],
                  camKcp = Garbage, kcpRunning = False, rc_kcpThread = False \<rparr> \<rparr>)"

section \<open>Answers\<close>

definition response_text :: "int \<Rightarrow> string \<Rightarrow> headers \<Rightarrow> int \<Rightarrow> string" where
  "response_text statusCode statusText extra cq =
     ''RTSP/1.0 '' @ show_int statusCode @ '' '' @ statusText @ crlf
     @ ''CSeq: '' @ show_int cq @ crlf
     @ ''Server: RTSP Server/1.0'' @ crlf
     @ concat (map (\<lambda>(k, v). k @ '': '' @ v @ crlf) extra)
     @ crlf"

definition sendResponse :: "int \<Rightarrow> string \<Rightarrow> headers \<Rightarrow> int \<Rightarrow> server \<Rightarrow> server res" where
  "sendResponse statusCode statusText extra cq s =
     (case tcpConn s of
        None \<Rightarrow> Inr s
      | Some c \<Rightarrow> rbind (conn_send (response_text statusCode statusText extra cq) c)
                    (\<lambda>c. Inr (s\<lparr>tcpConn := Some c\<rparr>)))"

definition extractCSeq :: "headers \<Rightarrow> int" where
  "extractCSeq headers = (case map_of headers ''cseq'' of Some v \<Rightarrow> atoi v | None \<Rightarrow> 0)"

section \<open>The Transport header\<close>

text \<open>The two numbers behind a name, as in \<^verbatim>\<open>client_port=5004-5005\<close>; \<^const>\<open>None\<close> when there are none.\<close>

definition number_pair :: "string \<Rightarrow> string \<Rightarrow> (int \<times> int) option" where
  "number_pair transport name =
     (case find transport name of
        None \<Rightarrow> None
      | Some p \<Rightarrow>
          let pos = p + 12
          in (case find_from transport ''-'' pos of
                None \<Rightarrow> None
              | Some dashPos \<Rightarrow>
                  let a = take (dashPos - pos) (drop pos transport);
                      b = drop (dashPos + 1) transport;
                      b = (case find b '';'' of Some e \<Rightarrow> take e b | None \<Rightarrow> b);
                      blank = [CHR '' '', CHR 0x09]
                  in Some (atoi (trim_set blank a), atoi (trim_set blank b))))"

record transport =
  tr_type :: string
  clientRtpPort :: u16
  clientRtcpPort :: u16
  serverRtpPort :: u16
  serverRtcpPort :: u16
  tr_rtpChannel :: byte
  tr_rtcpChannel :: byte

definition parseTransport :: "string \<Rightarrow> bool \<times> transport" where
  "parseTransport transport =
     (let none = \<lparr> tr_type = [], clientRtpPort = 0, clientRtcpPort = 0, serverRtpPort = 0,
                   serverRtcpPort = 0, tr_rtpChannel = 0, tr_rtcpChannel = 0 \<rparr>
      in if occurs transport ''RTP/AVP/UDP'' \<or> occurs transport ''RTP/AVP;UDP'' then
           let t = none\<lparr>tr_type := ''UDP''\<rparr>;
               t = (case number_pair transport ''client_port='' of
                      None \<Rightarrow> t
                    | Some (a, b) \<Rightarrow> t\<lparr>clientRtpPort := word_of_int a, clientRtcpPort := word_of_int b\<rparr>);
               t = (case number_pair transport ''server_port='' of
                      None \<Rightarrow> t
                    | Some (a, b) \<Rightarrow> t\<lparr>serverRtpPort := word_of_int a, serverRtcpPort := word_of_int b\<rparr>)
           in (clientRtpPort t > 0 \<and> clientRtcpPort t > 0, t)
         else if occurs transport ''RTP/AVP/TCP'' \<or> occurs transport ''RTP/AVP;TCP'' then
           let t = none\<lparr>tr_type := ''TCP''\<rparr>;
               t = (case number_pair transport ''interleaved='' of
                      None \<Rightarrow> t
                    | Some (a, b) \<Rightarrow> t\<lparr>tr_rtpChannel := word_of_int a, tr_rtcpChannel := word_of_int b\<rparr>)
           in (True, t)
         else (False, none))"

section \<open>The handlers\<close>

definition handleOptions :: "int \<Rightarrow> server \<Rightarrow> server res" where
  "handleOptions cq s =
     sendResponse 200 ''OK'' [(''Public'', ''OPTIONS, ANNOUNCE, SETUP, TEARDOWN, RECORD'')] cq s"

definition extractBody :: "string \<Rightarrow> headers \<Rightarrow> string" where
  "extractBody request headers =
     (case find request head_end of
        None \<Rightarrow> []
      | Some p \<Rightarrow>
          let pos = p + 4;
              contentLength = (case map_of headers ''content-length'' of
                                 Some v \<Rightarrow> nat (atoi v mod 2 ^ 64) | None \<Rightarrow> 0)
          in if contentLength = 0 then drop pos request
             else if (pos + contentLength) mod 2 ^ 64 > length request then []
             else take contentLength (drop pos request))"

definition handleAnnounce :: "string \<Rightarrow> headers \<Rightarrow> int \<Rightarrow> server \<Rightarrow> server res" where
  "handleAnnounce request headers cq s =
     sendResponse 200 ''OK'' [] cq (s\<lparr>rc := (rc s)\<lparr>rc_sdp := extractBody request headers\<rparr>\<rparr>)"

text \<open>\<^verbatim>\<open>EventLoop::addUdpConnection\<close> replaces an entry of the same descriptor.\<close>

definition addUdpConnection :: "UdpConnection \<Rightarrow> server \<Rightarrow> server" where
  "addUdpConnection c s = s\<lparr>udpConns := omap_insert (udp_fd c) c (udpConns s)\<rparr>"

definition removeUdpConnection :: "UdpConnection \<Rightarrow> server \<Rightarrow> server" where
  "removeUdpConnection c s = s\<lparr>udpConns := omap_erase (udp_fd c) (udpConns s)\<rparr>"

definition new_udp :: "int \<Rightarrow> u16 \<Rightarrow> u16 \<Rightarrow> server \<Rightarrow> UdpConnection" where
  "new_udp fd server_port client_port s =
     \<lparr> udp_fd = fd, udp_local = \<lparr>addr_ip = rc_serverIp (rc s), addr_port = server_port\<rparr>,
       udp_peer = \<lparr>addr_ip = rc_clientIp (rc s), addr_port = client_port\<rparr>, udp_callback = False \<rparr>"

text \<open>The server's ports for a track: the client's wish, or new ones \<open>off\<close> beyond the allocated pair.\<close>

definition track_ports :: "u16 \<Rightarrow> transport \<Rightarrow> server \<Rightarrow> u16 \<times> u16 \<times> server" where
  "track_ports off t s =
     (if serverRtpPort t = 0 then
        let (p, m) = allocateUdpPorts (mgr s) in (p + off, p + off + 1, s\<lparr>mgr := m\<rparr>)
      else (serverRtpPort t, serverRtcpPort t, s))"

text \<open>The UDP branch of \<^verbatim>\<open>handleSetup\<close>: the connection of the track and the ports of the answer.\<close>

definition setup_udp :: "int \<Rightarrow> string \<Rightarrow> transport \<Rightarrow> server \<Rightarrow> u16 \<times> u16 \<times> server" where
  "setup_udp fd url t s =
     (if occurs url ''trackID=0'' then
        let (rtp, rtcp, s) = track_ports 0 t s;
            c = new_udp fd rtp (clientRtpPort t) s;
            s = s\<lparr>rc := (rc s)\<lparr>rc_session := (rc_session (rc s))\<lparr>videoRtpConn := Some c\<rparr>\<rparr>\<rparr>
        in (rtp, rtcp, addUdpConnection c s)
      else if occurs url ''trackID=1'' then
        let (rtp, rtcp, s) = track_ports 2 t s;
            c = new_udp fd rtp (clientRtpPort t) s;
            s = s\<lparr>rc := (rc s)\<lparr>rc_session := (rc_session (rc s))\<lparr>audioRtpConn := Some c\<rparr>\<rparr>\<rparr>
        in (rtp, rtcp, addUdpConnection c s)
      else (serverRtpPort t, serverRtcpPort t, s))"

definition udp_transport :: "transport \<Rightarrow> u16 \<Rightarrow> u16 \<Rightarrow> string" where
  "udp_transport t rtp rtcp =
     ''RTP/AVP/UDP;unicast;client_port='' @ show_nat (unat (clientRtpPort t))
     @ ''-'' @ show_nat (unat (clientRtcpPort t))
     @ '';server_port='' @ show_nat (unat rtp) @ ''-'' @ show_nat (unat rtcp)"

definition tcp_transport :: "transport \<Rightarrow> string" where
  "tcp_transport t =
     (let (a, b) = (if tr_rtpChannel t = 0 \<and> tr_rtcpChannel t = 0 then (0, 1) else (tr_rtpChannel t, tr_rtcpChannel t))
      in ''RTP/AVP/TCP;unicast;interleaved='' @ show_nat (unat a) @ ''-'' @ show_nat (unat b))"

definition setup_answer :: "string \<Rightarrow> string \<Rightarrow> int \<Rightarrow> server \<Rightarrow> server res" where
  "setup_answer tr sid cq s =
     sendResponse 200 ''OK''
       (omap_insert ''Session'' (sid @ '';timeout=60'') (omap_insert ''Transport'' tr []))
       cq (s\<lparr>rc := (rc s)\<lparr>rc_state := READY\<rparr>\<rparr>)"

definition handleSetup :: "int \<Rightarrow> string \<Rightarrow> headers \<Rightarrow> int \<Rightarrow> server \<Rightarrow> server res" where
  "handleSetup fd url headers cq s =
     (case map_of headers ''transport'' of
        None \<Rightarrow> sendResponse 400 ''Bad Request'' [] cq s
      | Some tr \<Rightarrow>
          (case parseTransport tr of
             (False, _) \<Rightarrow> sendResponse 400 ''Bad Request'' [] cq s
           | (True, t) \<Rightarrow>
               let s = s\<lparr>rc := (rc s)\<lparr>rc_session := (rc_session (rc s))\<lparr>transportType := tr_type t\<rparr>\<rparr>\<rparr>;
                   sid = sessionId (rc_session (rc s))
               in if tr_type t = ''UDP'' then
                    (case setup_udp fd url t s of (rtp, rtcp, s) \<Rightarrow>
                       setup_answer (udp_transport t rtp rtcp) sid cq s)
                  else if tr_type t = ''TCP'' then setup_answer (tcp_transport t) sid cq s
                  else sendResponse 461 ''Unsupported Transport'' [] cq s))"

definition initCamKcp :: "allocator \<Rightarrow> nat \<Rightarrow> u32 \<Rightarrow> RtspConnect \<Rightarrow> RtspConnect res" where
  "initCamKcp al sizeof_cb cv r =
     rbind (kcp_config al 128 (ikcp_create al sizeof_cb cv)) (\<lambda>kcp. Inr (r\<lparr>camKcp := Block kcp\<rparr>))"

definition valid_session :: "headers \<Rightarrow> server \<Rightarrow> bool" where
  "valid_session headers s =
     (case map_of headers ''session'' of
        None \<Rightarrow> False
      | Some v \<Rightarrow> occurs v (sessionId (rc_session (rc s))))"

text \<open>
  The body of \<^verbatim>\<open>handleRecord\<close> between its two checks: the control block, the thread that updates it
  (which reads the pointer at once; assigning to a running thread ends the program) and the
  callback of the video connection.
\<close>

definition record_kcp :: "allocator \<Rightarrow> nat \<Rightarrow> headers \<Rightarrow> RtspConnect \<Rightarrow> RtspConnect res" where
  "record_kcp al sizeof_cb headers r =
     (case map_of headers ''kcpid'' of
        None \<Rightarrow> Inr r
      | Some v \<Rightarrow> rbind (stoul v) (\<lambda>n. initCamKcp al sizeof_cb (of_nat n) r))"

definition start_receiving :: "allocator \<Rightarrow> nat \<Rightarrow> headers \<Rightarrow> server \<Rightarrow> server res" where
  "start_receiving al sizeof_cb headers s =
     rbind (record_kcp al sizeof_cb headers (rc s)) (\<lambda>r.
       if rc_kcpThread r then Inl Exception
       else if camKcp r = Garbage then Inl Out_of_bounds
       else
         (case videoRtpConn (rc_session r) of
            None \<Rightarrow> Inl Out_of_bounds
          | Some c \<Rightarrow>
              let c = c\<lparr>udp_callback := True\<rparr>;
                  r = r\<lparr>kcpRunning := True, rc_kcpThread := True,
                        rc_session := (rc_session r)\<lparr>videoRtpConn := Some c\<rparr>\<rparr>;
                  us = (if map_of (udpConns s) (udp_fd c) = None then udpConns s
                        else omap_insert (udp_fd c) c (udpConns s))
              in Inr (s\<lparr>rc := r, udpConns := us\<rparr>)))"

definition handleRecord :: "allocator \<Rightarrow> nat \<Rightarrow> headers \<Rightarrow> int \<Rightarrow> server \<Rightarrow> server res" where
  "handleRecord al sizeof_cb headers cq s =
     (if \<not> valid_session headers s then sendResponse 454 ''Session Not Found'' [] cq s
      else
        rbind (start_receiving al sizeof_cb headers s) (\<lambda>s.
          if rc_state (rc s) \<noteq> READY
          then sendResponse 455 ''Method Not Valid in This State'' [] cq s
          else
            let s = s\<lparr>rc := (rc s)\<lparr>rc_state := PLAYING\<rparr>\<rparr>
            in sendResponse 200 ''OK'' [(''Session'', sessionId (rc_session (rc s)))] cq s))"

definition drop_udp :: "UdpConnection option \<Rightarrow> server \<Rightarrow> server" where
  "drop_udp oc s = (case oc of None \<Rightarrow> s | Some c \<Rightarrow> removeUdpConnection c s)"

definition releaseSession :: "server \<Rightarrow> server res" where
  "releaseSession s =
     (let sid = sessionId (rc_session (rc s));
          s = s\<lparr>mon := removeCam sid (mon s), rc := (rc s)\<lparr>kcpRunning := False, rc_kcpThread := False\<rparr>\<rparr>
      in if camKcp (rc s) = Garbage then Inl Out_of_bounds
         else
           let s = s\<lparr>rc := (rc s)\<lparr>camKcp := Null\<rparr>\<rparr>;
               ss = rc_session (rc s);
               s = drop_udp (audioRtcpConn ss) (drop_udp (audioRtpConn ss)
                     (drop_udp (videoRtcpConn ss) (drop_udp (videoRtpConn ss) s)))
           in Inr (s\<lparr>mgr := removeSession sid (mgr s)\<rparr>))"

definition handleTeardown :: "headers \<Rightarrow> int \<Rightarrow> server \<Rightarrow> server res" where
  "handleTeardown headers cq s =
     (if \<not> valid_session headers s then sendResponse 454 ''Session Not Found'' [] cq s
      else rbind (releaseSession s) (sendResponse 200 ''OK'' [] cq))"

definition handleRequest :: "allocator \<Rightarrow> nat \<Rightarrow> int \<Rightarrow> string \<Rightarrow> server \<Rightarrow> server res" where
  "handleRequest al sizeof_cb fd request s =
     rbind (parseRequest_rtsp request) (\<lambda>(meth, url, headers).
       let cq = extractCSeq headers
       in if meth = ''OPTIONS'' then handleOptions cq s
          else if meth = ''ANNOUNCE'' then handleAnnounce request headers cq s
          else if meth = ''SETUP'' then handleSetup fd url headers cq s
          else if meth = ''RECORD'' then handleRecord al sizeof_cb headers cq s
          else if meth = ''TEARDOWN'' then handleTeardown headers cq s
          else sendResponse 501 ''Not Implemented'' [] cq s)"

section \<open>Media and connection events\<close>

text \<open>The callback of the video connection for one datagram: into KCP, and one message out of it.\<close>

definition camera_datagram :: "allocator \<Rightarrow> bytes \<Rightarrow> server \<Rightarrow> server res" where
  "camera_datagram al got s =
     (case camKcp (rc s) of
        Block kcp \<Rightarrow>
          rbind (ikcp_input al kcp (Some got) (int (length got))) (\<lambda>(_, kcp).
          rbind (ikcp_recv kcp 1500) (\<lambda>(rtp_len, rtp, kcp).
            let s = s\<lparr>rc := (rc s)\<lparr>camKcp := Block kcp\<rparr>\<rparr>
            in if rtp_len > 0
               then rbind (onNaluUdp al (sessionId (rc_session (rc s))) rtp (mon s)) (\<lambda>m. Inr (s\<lparr>mon := m\<rparr>))
               else Inr s))
      | _ \<Rightarrow> Inl Out_of_bounds)"

text \<open>\<^verbatim>\<open>MultiThreadEventLoop::onMessage\<close>: one item is read and handled; frames are dropped.\<close>

definition onMessage :: "allocator \<Rightarrow> nat \<Rightarrow> int \<Rightarrow> arrival \<Rightarrow> server \<Rightarrow> server res" where
  "onMessage al sizeof_cb fd a s =
     (case tcpConn s of
        None \<Rightarrow> Inr s
      | Some c \<Rightarrow>
          rbind (recvOneItem a c) (\<lambda>(item, c).
            let s = s\<lparr>tcpConn := Some c\<rparr>
            in case item of
                 RecvNone \<Rightarrow> Inr s
               | RtspRequest r \<Rightarrow> handleRequest al sizeof_cb fd r s
               | InterleavedFrame ch p \<Rightarrow> Inr s))"

definition onClose :: "server \<Rightarrow> server res" where
  "onClose s = releaseSession s"

section \<open>Every request is answered once\<close>

definition writable :: "TcpConnection \<Rightarrow> bool" where
  "writable c \<longleftrightarrow> conn_inv c \<and> Would_block \<in> set (sock_writes c) \<and> Write_error \<notin> set (sock_writes c)"

lemma sendResponse_ok:
  assumes "tcpConn s = Some c" and "writable c" and "length (response_text st tx ex cq) < 2 ^ 31"
  shows "\<exists>c'. sendResponse st tx ex cq s = Inr (s\<lparr>tcpConn := Some c'\<rparr>) \<and>
    conn_stream c' = conn_stream c @ response_text st tx ex cq \<and> conn_inv c'"
proof -
  obtain c' where c': "conn_send (response_text st tx ex cq) c = Inr c'"
    using conn_send_returns [of c] assms(2,3) by (auto simp: writable_def)
  with conn_send_stream [OF _ c' assms(3)] assms(2) show ?thesis
    using assms(1) by (auto simp: sendResponse_def writable_def)
qed

text \<open>\<open>answered s s' cq\<close>: one response with the sequence number \<open>cq\<close> was put on the stream.\<close>

definition answered :: "server \<Rightarrow> server \<Rightarrow> int \<Rightarrow> bool" where
  "answered s s' cq \<longleftrightarrow>
     (\<forall>c. tcpConn s = Some c \<longrightarrow> conn_inv c \<longrightarrow>
        (\<exists>c' st tx ex. tcpConn s' = Some c' \<and>
           (length (response_text st tx ex cq) < 2 ^ 31 \<longrightarrow>
              conn_inv c' \<and> conn_stream c' = conn_stream c @ response_text st tx ex cq)))"

lemma sendResponse_answers:
  assumes "sendResponse st tx ex cq s0 = Inr s'" and "tcpConn s0 = tcpConn s"
  shows "answered s s' cq"
proof -
  have "\<exists>c'. tcpConn s' = Some c' \<and> conn_send (response_text st tx ex cq) c = Inr c'" if "tcpConn s = Some c" for c
    using assms that by (auto simp: sendResponse_def fault_simps)
  then show ?thesis unfolding answered_def using conn_send_stream by meson
qed

section \<open>The invariant of a connection\<close>

definition block_ok :: "kcp_ptr \<Rightarrow> bool" where
  "block_ok p \<longleftrightarrow> (\<forall>kcp. p = Block kcp \<longrightarrow> api_inv kcp)"

definition srv_inv :: "server \<Rightarrow> bool" where
  "srv_inv s \<longleftrightarrow> mon_inv (mon s) \<and> omap_ok (sessions (mgr s)) \<and> omap_ok (udpConns s) \<and> block_ok (camKcp (rc s)) \<and>
     (rc_kcpThread (rc s) \<longrightarrow> camKcp (rc s) \<noteq> Garbage \<and> videoRtpConn (rc_session (rc s)) \<noteq> None) \<and>
     kcpRunning (rc s) = rc_kcpThread (rc s) \<and>
     (rc_state (rc s) = PLAYING \<longrightarrow> camKcp (rc s) \<noteq> Garbage \<and> videoRtpConn (rc_session (rc s)) \<noteq> None)"

lemma srv_inv_tcp: "srv_inv (s\<lparr>tcpConn := c\<rparr>) = srv_inv s"
  by (simp add: srv_inv_def)

lemma sendResponse_inv: "srv_inv s \<Longrightarrow> sendResponse st tx ex cq s = Inr s' \<Longrightarrow> srv_inv s'"
  by (auto simp: sendResponse_def fault_simps srv_inv_tcp split: option.splits)

lemma new_RtspConnect_inv:
  assumes "mon_inv mo" and "omap_ok (sessions m)" and "omap_ok us"
  shows "srv_inv (new_RtspConnect time cip sip m mo us tc)"
  using assms addCam_inv
  by (simp add: new_RtspConnect_def srv_inv_def block_ok_def addSession_def generateSessionId_def Let_def omap_ok_insert)

section \<open>What the handlers do\<close>

text \<open>
  \<open>ends_with_answer r cq s\<close>: the handler's result \<open>r\<close> is a fault, or one response with the number \<open>cq\<close> from
  a state on the same TCP connection that satisfies the invariant when \<open>s\<close> does.
\<close>

definition ends_with_answer :: "server res \<Rightarrow> int \<Rightarrow> server \<Rightarrow> bool" where
  "ends_with_answer r cq s \<longleftrightarrow>
     (\<exists>e. r = Inl e) \<or>
     (\<exists>st tx ex s1. r = sendResponse st tx ex cq s1 \<and> tcpConn s1 = tcpConn s \<and> (srv_inv s \<longrightarrow> srv_inv s1))"

lemma answer_now: "ends_with_answer (sendResponse st tx ex cq s) cq s"
  unfolding ends_with_answer_def by blast

lemma answer_later:
  "tcpConn s1 = tcpConn s \<Longrightarrow> (srv_inv s \<Longrightarrow> srv_inv s1) \<Longrightarrow> ends_with_answer (sendResponse st tx ex cq s1) cq s"
  unfolding ends_with_answer_def by blast

lemma answer_fault: "ends_with_answer (Inl e) cq s"
  unfolding ends_with_answer_def by blast

lemma ends_with_answer_answered: "ends_with_answer r cq s \<Longrightarrow> r = Inr s' \<Longrightarrow> answered s s' cq"
  by (auto simp: ends_with_answer_def intro: sendResponse_answers)

lemma ends_with_answer_inv: "ends_with_answer r cq s \<Longrightarrow> r = Inr s' \<Longrightarrow> srv_inv s \<Longrightarrow> srv_inv s'"
  by (auto simp: ends_with_answer_def intro: sendResponse_inv)

lemma track_ports_frame:
  assumes "track_ports off t s = (a, b, s')"
  shows "\<exists>m. s' = s\<lparr>mgr := m\<rparr> \<and> sessions m = sessions (mgr s)"
proof (cases "serverRtpPort t = 0")
  case True
  then show ?thesis using assms by (auto simp: track_ports_def allocateUdpPorts_def Let_def)
next
  case False
  then have "s' = s\<lparr>mgr := mgr s\<rparr>" using assms by (simp add: track_ports_def)
  then show ?thesis by blast
qed

lemma srv_inv_add_udp: "srv_inv s \<Longrightarrow> srv_inv (addUdpConnection c s)"
  by (simp add: srv_inv_def addUdpConnection_def omap_ok_insert)

text \<open>The server state after a track was set up.\<close>

lemma setup_udp_frame:
  assumes "setup_udp fd url t s = (a, b, s')"
  shows "tcpConn s' = tcpConn s \<and> (srv_inv s \<longrightarrow> srv_inv s')"
proof -
  obtain a0 b0 s0 where t0: "track_ports 0 t s = (a0, b0, s0)" by (metis prod_cases3)
  obtain a2 b2 s2 where t2: "track_ports 2 t s = (a2, b2, s2)" by (metis prod_cases3)
  define v where "v = s0\<lparr>rc := (rc s0)\<lparr>rc_session := (rc_session (rc s0))\<lparr>videoRtpConn := Some (new_udp fd a0 (clientRtpPort t) s0)\<rparr>\<rparr>\<rparr>"
  define w where "w = s2\<lparr>rc := (rc s2)\<lparr>rc_session := (rc_session (rc s2))\<lparr>audioRtpConn := Some (new_udp fd a2 (clientRtpPort t) s2)\<rparr>\<rparr>\<rparr>"
  have v: "tcpConn v = tcpConn s" "srv_inv s \<longrightarrow> srv_inv v"
    using track_ports_frame [OF t0] by (auto simp: v_def srv_inv_def)
  have w: "tcpConn w = tcpConn s" "srv_inv s \<longrightarrow> srv_inv w"
    using track_ports_frame [OF t2] by (auto simp: w_def srv_inv_def)
  have "s' = addUdpConnection (new_udp fd a0 (clientRtpPort t) s0) v \<or>
      s' = addUdpConnection (new_udp fd a2 (clientRtpPort t) s2) w \<or> s' = s"
    using assms by (auto simp: setup_udp_def t0 t2 v_def w_def Let_def split: if_splits)
  moreover have "tcpConn (addUdpConnection c x) = tcpConn x" for c x by (simp add: addUdpConnection_def)
  ultimately show ?thesis using v w srv_inv_add_udp by metis
qed

lemma setup_answer_ends:
  assumes "tcpConn s1 = tcpConn s" and "srv_inv s \<Longrightarrow> srv_inv s1"
  shows "ends_with_answer (setup_answer tr sid cq s1) cq s"
  unfolding setup_answer_def by (rule answer_later) (use assms in \<open>auto simp: srv_inv_def\<close>)

lemma handleSetup_ends: "ends_with_answer (handleSetup fd url headers cq s) cq s"
proof (cases "map_of headers ''transport''")
  case None
  then show ?thesis by (simp add: handleSetup_def answer_now)
next
  case (Some tr)
  obtain ok t where p: "parseTransport tr = (ok, t)" by (cases "parseTransport tr")
  define s1 where "s1 = s\<lparr>rc := (rc s)\<lparr>rc_session := (rc_session (rc s))\<lparr>transportType := tr_type t\<rparr>\<rparr>\<rparr>"
  have s1: "tcpConn s1 = tcpConn s" "srv_inv s \<Longrightarrow> srv_inv s1" by (simp_all add: s1_def srv_inv_def)
  obtain a b s2 where u: "setup_udp fd url t s1 = (a, b, s2)" by (metis prod_cases3)
  have s2: "tcpConn s2 = tcpConn s" "srv_inv s \<Longrightarrow> srv_inv s2" using setup_udp_frame [OF u] s1 by auto
  have "handleSetup fd url headers cq s =
      (if \<not> ok then sendResponse 400 ''Bad Request'' [] cq s
       else if tr_type t = ''UDP'' then setup_answer (udp_transport t a b) (sessionId (rc_session (rc s1))) cq s2
       else if tr_type t = ''TCP'' then setup_answer (tcp_transport t) (sessionId (rc_session (rc s1))) cq s1
       else sendResponse 461 ''Unsupported Transport'' [] cq s1)"
    by (simp add: handleSetup_def Some p s1_def [symmetric] u Let_def split: bool.splits)
  then show ?thesis
    using setup_answer_ends [OF s1] setup_answer_ends [OF s2] answer_now answer_later [OF s1] by simp
qed

lemma initCamKcp_ok:
  assumes "allocator_sound al" and "allocator_total al" and "initCamKcp al n cv r = Inr r'"
  shows "\<exists>kcp. r' = r\<lparr>camKcp := Block kcp\<rparr> \<and> api_inv kcp"
proof -
  obtain k where k: "ikcp_create al n cv = Some k"
    using assms(3) by (cases "ikcp_create al n cv") (auto simp: initCamKcp_def kcp_config_def)
  then show ?thesis using kcp_config_api [OF assms(1,2) k, of 128] assms(3) by (auto simp: initCamKcp_def)
qed

lemma record_kcp_ok:
  assumes "allocator_sound al" and "allocator_total al" and "record_kcp al n headers r = Inr r'"
  shows "\<exists>p. r' = r\<lparr>camKcp := p\<rparr> \<and> (block_ok (camKcp r) \<longrightarrow> block_ok p)"
proof (cases "map_of headers ''kcpid''")
  case None
  then have "r' = r\<lparr>camKcp := camKcp r\<rparr>" using assms(3) by (simp add: record_kcp_def)
  then show ?thesis by blast
next
  case (Some v)
  then obtain k where "initCamKcp al n (of_nat k) r = Inr r'" using assms(3) by (auto simp: record_kcp_def rbind_Inr_iff)
  from initCamKcp_ok [OF assms(1,2) this] show ?thesis by (auto simp: block_ok_def)
qed

lemma start_receiving_cases:
  assumes "allocator_sound al" and "allocator_total al" and "start_receiving al n headers s = Inr s'"
  obtains p c us where "p \<noteq> Garbage" "block_ok (camKcp (rc s)) \<longrightarrow> block_ok p" "videoRtpConn (rc_session (rc s)) = Some c"
    "\<not> rc_kcpThread (rc s)" "omap_ok (udpConns s) \<longrightarrow> omap_ok us"
    "s' = s\<lparr>rc := (rc s)\<lparr>camKcp := p, kcpRunning := True, rc_kcpThread := True,
        rc_session := (rc_session (rc s))\<lparr>videoRtpConn := Some (c\<lparr>udp_callback := True\<rparr>)\<rparr>\<rparr>, udpConns := us\<rparr>"
proof -
  obtain r where r: "record_kcp al n headers (rc s) = Inr r" using assms(3) by (auto simp: start_receiving_def rbind_Inr_iff)
  obtain p where p: "r = (rc s)\<lparr>camKcp := p\<rparr>" "block_ok (camKcp (rc s)) \<longrightarrow> block_ok p"
    using record_kcp_ok [OF assms(1,2) r] by blast
  have n: "\<not> rc_kcpThread (rc s)" "p \<noteq> Garbage"
    using assms(3) p(1) by (auto simp: start_receiving_def r split: if_splits)
  then obtain c where c: "videoRtpConn (rc_session (rc s)) = Some c"
    using assms(3) p(1) by (auto simp: start_receiving_def r split: option.splits)
  define us where "us = (if map_of (udpConns s) (udp_fd c) = None then udpConns s
      else omap_insert (udp_fd c) (c\<lparr>udp_callback := True\<rparr>) (udpConns s))"
  have us: "omap_ok (udpConns s) \<longrightarrow> omap_ok us" by (simp add: us_def omap_ok_insert)
  show thesis
    using assms(3) by (intro that [OF n(2) p(2) c n(1) us], cases "map_of (udpConns s) (udp_fd c)")
      (simp_all add: start_receiving_def r p(1) n c Let_def us_def)
qed

lemma handleRecord_ends:
  assumes "allocator_sound al" and "allocator_total al"
  shows "ends_with_answer (handleRecord al n headers cq s) cq s"
proof (cases "valid_session headers s")
  case False
  then show ?thesis by (simp add: handleRecord_def answer_now)
next
  case True
  show ?thesis
  proof (cases "start_receiving al n headers s")
    case (Inl e)
    then show ?thesis using True by (simp add: handleRecord_def answer_fault)
  next
    case (Inr s1)
    obtain p c us where st: "p \<noteq> Garbage" "block_ok (camKcp (rc s)) \<longrightarrow> block_ok p" "videoRtpConn (rc_session (rc s)) = Some c"
      "\<not> rc_kcpThread (rc s)" "omap_ok (udpConns s) \<longrightarrow> omap_ok us"
      "s1 = s\<lparr>rc := (rc s)\<lparr>camKcp := p, kcpRunning := True, rc_kcpThread := True,
        rc_session := (rc_session (rc s))\<lparr>videoRtpConn := Some (c\<lparr>udp_callback := True\<rparr>)\<rparr>\<rparr>, udpConns := us\<rparr>"
      using start_receiving_cases [OF assms Inr] .
    define s2 where "s2 = s1\<lparr>rc := (rc s1)\<lparr>rc_state := PLAYING\<rparr>\<rparr>"
    have 1: "tcpConn s1 = tcpConn s" "srv_inv s \<Longrightarrow> srv_inv s1" using st(1-5) by (auto simp: st(6) srv_inv_def)
    have 2: "tcpConn s2 = tcpConn s" "srv_inv s \<Longrightarrow> srv_inv s2" using st(1-5) by (auto simp: s2_def st(6) srv_inv_def)
    have "handleRecord al n headers cq s =
        (if rc_state (rc s1) \<noteq> READY then sendResponse 455 ''Method Not Valid in This State'' [] cq s1
         else sendResponse 200 ''OK'' [(''Session'', sessionId (rc_session (rc s2)))] cq s2)"
      using True by (simp add: handleRecord_def Inr s2_def Let_def)
    then show ?thesis using answer_later [OF 1] answer_later [OF 2] by simp
  qed
qed

lemma drop_udp_keeps:
  "srv_inv s \<Longrightarrow> srv_inv (drop_udp oc s)" "rc (drop_udp oc s) = rc s" "mgr (drop_udp oc s) = mgr s"
  "mon (drop_udp oc s) = mon s" "tcpConn (drop_udp oc s) = tcpConn s"
  by (simp_all add: drop_udp_def removeUdpConnection_def srv_inv_def omap_ok_erase split: option.splits)

lemma releaseSession_done:
  assumes "releaseSession s = Inr s'"
  shows "tcpConn s' = tcpConn s" and "srv_inv s \<Longrightarrow> srv_inv s'" and "camKcp (rc s') = Null"
    and "srv_inv s \<Longrightarrow> getSession (sessionId (rc_session (rc s))) (mgr s') = None"
    and "map_of (cams (mon s')) (sessionId (rc_session (rc s))) = None"
proof -
  let ?sid = "sessionId (rc_session (rc s))"
  define s1 where "s1 = s\<lparr>mon := removeCam ?sid (mon s),
      rc := (rc s)\<lparr>kcpRunning := False, rc_kcpThread := False, camKcp := Null\<rparr>\<rparr>"
  have 1: "srv_inv s \<Longrightarrow> srv_inv s1" using removeCam_inv by (simp add: s1_def srv_inv_def block_ok_def)
  define ss where "ss = rc_session (rc s)"
  define s2 where "s2 = drop_udp (audioRtcpConn ss) (drop_udp (audioRtpConn ss)
      (drop_udp (videoRtcpConn ss) (drop_udp (videoRtpConn ss) s1)))"
  have 2: "srv_inv s \<Longrightarrow> srv_inv s2" "rc s2 = rc s1" "mon s2 = mon s1" "tcpConn s2 = tcpConn s1"
    using 1 by (simp_all add: s2_def drop_udp_keeps)
  have s': "s' = s2\<lparr>mgr := removeSession ?sid (mgr s2)\<rparr>"
    using assms by (auto simp: releaseSession_def Let_def s2_def s1_def ss_def split: if_splits)
  show "srv_inv s'" if "srv_inv s"
    using 2(1) [OF that] by (simp add: s' srv_inv_def removeSession_def omap_ok_erase)
  show "camKcp (rc s') = Null" using 2(2) by (simp add: s' s1_def)
  show "getSession ?sid (mgr s') = None" if "srv_inv s"
  proof -
    have "omap_ok (sessions (mgr s2))" using 2(1) [OF that] by (simp add: srv_inv_def)
    then show ?thesis by (simp add: s' getSession_ops(2))
  qed
  show "map_of (cams (mon s')) ?sid = None" using 2(3) removeCam_gone [of ?sid "mon s"] by (simp add: s' s1_def)
  show "tcpConn s' = tcpConn s" using 2(4) by (simp add: s' s1_def)
qed

lemma handleTeardown_ends: "ends_with_answer (handleTeardown headers cq s) cq s"
proof (cases "valid_session headers s")
  case False
  then show ?thesis by (simp add: handleTeardown_def answer_now)
next
  case True
  show ?thesis
  proof (cases "releaseSession s")
    case (Inl e)
    then show ?thesis using True by (simp add: handleTeardown_def answer_fault)
  next
    case (Inr s1)
    then show ?thesis using True answer_later [OF releaseSession_done(1,2) [OF Inr]] by (simp add: handleTeardown_def)
  qed
qed

lemma handleRequest_ends:
  assumes "allocator_sound al" and "allocator_total al" and p: "parseRequest_rtsp request = Inr (meth, url, headers)"
  shows "ends_with_answer (handleRequest al n fd request s) (extractCSeq headers) s"
proof -
  have "ends_with_answer (handleAnnounce request headers cq s) cq s" for cq
    unfolding handleAnnounce_def by (rule answer_later) (simp_all add: srv_inv_def)
  then show ?thesis
    using handleSetup_ends handleRecord_ends [OF assms(1,2)] handleTeardown_ends answer_now
    by (simp add: handleRequest_def p handleOptions_def Let_def)
qed

end
