(* ===== verification/Server.thy ===== *)
theory Server
  imports Rtsp_Connect
begin

text \<open>
  The life of one camera connection in the server: a step relation over everything that touches
  it. Each event is one of the handlers, run to its end; the handlers that share the monitor
  server or the control block take the mutex that makes them atomic. A step exists only where
  the handler returns; which calls fault is stated separately.
\<close>

inductive server_step :: "allocator \<Rightarrow> nat \<Rightarrow> server \<Rightarrow> server \<Rightarrow> bool" for al sizeof_cb where
  message: "onMessage al sizeof_cb fd a s = Inr s' \<Longrightarrow> server_step al sizeof_cb s s'"
| datagram: "videoRtpConn (rc_session (rc s)) = Some c \<Longrightarrow> udp_callback c \<Longrightarrow> length got \<le> 1500 \<Longrightarrow>
    (\<And>kcp. camKcp (rc s) = Block kcp \<Longrightarrow> unat (ackcount kcp) < 2 ^ 30) \<Longrightarrow>
    camera_datagram al got s = Inr s' \<Longrightarrow> server_step al sizeof_cb s s'"
| tick: "kcpRunning (rc s) \<Longrightarrow> camKcp (rc s) = Block kcp \<Longrightarrow> ikcp_update kcp now = Inr (kcp', outs) \<Longrightarrow>
    server_step al sizeof_cb s (s\<lparr>rc := (rc s)\<lparr>camKcp := Block kcp'\<rparr>\<rparr>)"
| writable: "tcpConn s = Some c \<Longrightarrow> handleWriteCallback c = Inr (closed, c') \<Longrightarrow>
    server_step al sizeof_cb s (s\<lparr>tcpConn := (if closed then None else Some c')\<rparr>)"
| player: "client_data al sizeof_cb fd a (mon s) = Inr m \<Longrightarrow> server_step al sizeof_cb s (s\<lparr>mon := m\<rparr>)"
| accepted: "server_step al sizeof_cb s (s\<lparr>mon := accept_client fd ip (mon s)\<rparr>)"
| closed: "onClose s = Inr s' \<Longrightarrow> server_step al sizeof_cb s s'"

inductive reachable :: "allocator \<Rightarrow> nat \<Rightarrow> server \<Rightarrow> server \<Rightarrow> bool" for al sizeof_cb s0 where
  start: "reachable al sizeof_cb s0 s0"
| step: "reachable al sizeof_cb s0 s \<Longrightarrow> server_step al sizeof_cb s s' \<Longrightarrow> reachable al sizeof_cb s0 s'"

section \<open>What one event keeps\<close>

lemma onMessage_inv:
  assumes "allocator_sound al" and "allocator_total al" and "srv_inv s" and "onMessage al n fd a s = Inr s'"
  shows "srv_inv s'"
proof (cases "tcpConn s")
  case None
  then show ?thesis using assms(3,4) by (simp add: onMessage_def)
next
  case (Some c)
  then obtain item c1 where r: "recvOneItem a c = Inr (item, c1)"
    using assms(4) by (auto simp: onMessage_def fault_simps)
  have s1: "srv_inv (s\<lparr>tcpConn := Some c1\<rparr>)" using assms(3) by (simp add: srv_inv_tcp)
  show ?thesis
  proof (cases item)
    case (RtspRequest request)
    then have h: "handleRequest al n fd request (s\<lparr>tcpConn := Some c1\<rparr>) = Inr s'"
      using assms(4) Some r by (simp add: onMessage_def)
    then obtain meth url headers where p: "parseRequest_rtsp request = Inr (meth, url, headers)"
      by (auto simp: handleRequest_def fault_simps)
    from ends_with_answer_inv [OF handleRequest_ends [OF assms(1,2) p] h s1] show ?thesis .
  qed (use assms(4) Some r s1 in \<open>auto simp: onMessage_def\<close>)
qed

lemma srv_inv_mon: "mon_inv m \<Longrightarrow> srv_inv s \<Longrightarrow> srv_inv (s\<lparr>mon := m\<rparr>)"
  by (simp add: srv_inv_def)

lemma srv_inv_block: "api_inv kcp \<Longrightarrow> srv_inv s \<Longrightarrow> srv_inv (s\<lparr>rc := (rc s)\<lparr>camKcp := Block kcp\<rparr>\<rparr>)"
  by (simp add: srv_inv_def block_ok_def)

text \<open>A datagram of at most 1500 bytes never faults while the control block exists.\<close>

lemma camera_datagram_ok:
  assumes "allocator_sound al" and "allocator_total al" and "srv_inv s" and "camKcp (rc s) = Block kcp"
    and "length got \<le> 1500" and "unat (ackcount kcp) < 2 ^ 30"
  shows "\<exists>s'. camera_datagram al got s = Inr s' \<and> srv_inv s' \<and> tcpConn s' = tcpConn s \<and>
    (\<exists>kcp'. rc s' = (rc s)\<lparr>camKcp := Block kcp'\<rparr>)"
proof -
  have k: "api_inv kcp" using assms(3,4) by (simp add: srv_inv_def block_ok_def)
  have "call_ok (Input got) kcp" using assms(5,6) by simp
  from input_api [OF k assms(1,2) this] obtain r k1 where
    1: "ikcp_input al kcp (Some got) (int (length got)) = Inr (r, k1)" "api_inv k1" by blast
  obtain n rtp k2 where 2: "ikcp_recv k1 1500 = Inr (n, rtp, k2)" "api_inv k2"
    using recv_api [OF 1(2), of 1500] by blast
  define s1 where "s1 = s\<lparr>rc := (rc s)\<lparr>camKcp := Block k2\<rparr>\<rparr>"
  have s1: "srv_inv s1" unfolding s1_def by (rule srv_inv_block [OF 2(2) assms(3)])
  show ?thesis
  proof (cases "n > 0")
    case False
    then show ?thesis using 1(1) 2(1) assms(4) s1 by (auto simp: camera_datagram_def s1_def)
  next
    case True
    have "mon_inv (mon s)" using assms(3) by (simp add: srv_inv_def)
    from onNaluUdp_ok [OF assms(2) this, of "sessionId (rc_session (rc s))" rtp] obtain m where
      m: "onNaluUdp al (sessionId (rc_session (rc s))) rtp (mon s) = Inr m" "mon_inv m" by blast
    have "srv_inv (s1\<lparr>mon := m\<rparr>)" by (rule srv_inv_mon [OF m(2) s1])
    then show ?thesis using 1(1) 2(1) assms(4) True m(1) by (auto simp: camera_datagram_def s1_def)
  qed
qed

lemma server_step_inv:
  assumes "allocator_sound al" and "allocator_total al" and "server_step al n s s'" and "srv_inv s"
  shows "srv_inv s'"
  using assms(3,4)
proof cases
  case (message fd a)
  then show ?thesis using onMessage_inv [OF assms(1,2,4)] by simp
next
  case (datagram c got)
  then obtain kcp where "camKcp (rc s) = Block kcp"
    by (cases "camKcp (rc s)") (auto simp: camera_datagram_def)
  with datagram camera_datagram_ok [OF assms(1,2,4) this, of got] show ?thesis by auto
next
  case (tick kcp now kcp' outs)
  then have "api_inv kcp" using assms(4) by (simp add: srv_inv_def block_ok_def)
  with tick update_api(1) [OF this, of now] have "api_inv kcp'" by auto
  then show ?thesis using tick srv_inv_block assms(4) by simp
next
  case (writable c closed c')
  then show ?thesis using assms(4) by (simp add: srv_inv_tcp)
next
  case (player fd a m)
  then have "mon_inv m" using client_data_inv [OF assms(1,2)] assms(4) by (auto simp: srv_inv_def)
  then show ?thesis using player srv_inv_mon assms(4) by simp
next
  case (accepted fd ip)
  then show ?thesis using srv_inv_mon [OF accept_client_inv] assms(4) by (simp add: srv_inv_def)
next
  case closed
  then have "releaseSession s = Inr s'" by (simp add: onClose_def)
  from releaseSession_done(2) [OF this assms(4)] show ?thesis .
qed

lemma reachable_inv:
  assumes "allocator_sound al" and "allocator_total al" and "reachable al n s0 s" and "srv_inv s0"
  shows "srv_inv s"
  using assms(3,4) by induction (auto intro: server_step_inv [OF assms(1,2)])

section \<open>What a release leaves\<close>

lemma drop_udp_mon: "udpConns (drop_udp oc s) = (case oc of None \<Rightarrow> udpConns s | Some c \<Rightarrow> omap_erase (udp_fd c) (udpConns s))"
  by (simp add: drop_udp_def removeUdpConnection_def split: option.splits)

lemma releaseSession_players:
  assumes "releaseSession s = Inr s'"
  shows "\<forall>c \<in> snd ` set (qtClients (mon s')). map_of (sessionMap c) (sessionId (rc_session (rc s))) = None"
proof -
  have "mon s' = removeCam (sessionId (rc_session (rc s))) (mon s)"
    using assms by (auto simp: releaseSession_def Let_def drop_udp_keeps split: if_splits)
  then show ?thesis using removeCam_gone by simp
qed

lemma erased: "map_of m k = None \<Longrightarrow> map_of (omap_erase k' m) k = None"
  by (simp add: lookup_omap_erase)

lemma releaseSession_udp:
  assumes "releaseSession s = Inr s'" and "srv_inv s" and "videoRtpConn (rc_session (rc s)) = Some c"
  shows "map_of (udpConns s') (udp_fd c) = None"
  using assms
  by (auto simp: releaseSession_def Let_def drop_udp_mon lookup_omap_erase split: if_splits option.splits)

end
