(* ===== verification/Timers.thy ===== *)
theory Timers
  imports Text
begin

text \<open>
  The timers of an event loop (\<^verbatim>\<open>TimerManager.cc\<close>). The callbacks belong to the rest of the server and
  may add and remove timers; they are an argument \<open>exec\<close> of \<open>handleRead\<close>. The readings of the
  monotonic clock are arguments too, and \<open>armed\<close> is what the timer descriptor was last set to,
  in seconds and nanoseconds.
\<close>

type_synonym u64 = "64 word"

record 'c timer =
  t_interval :: int
  callback :: "'c option"

record 'c TimerManager =
  timers :: "(u64 \<times> u64 \<times> 'c timer) list"
  nextId :: u64
  armed :: "(u64 \<times> u64) option"

definition new_timers :: "'c TimerManager" where
  "new_timers = \<lparr> timers = [], nextId = 1, armed = None \<rparr>"

text \<open>\<^verbatim>\<open>emplace\<close> leaves an existing entry alone.\<close>

definition omap_emplace :: "'k :: linorder \<Rightarrow> 'v \<Rightarrow> ('k \<times> 'v) list \<Rightarrow> ('k \<times> 'v) list" where
  "omap_emplace k v m = (if k \<in> fst ` set m then m else omap_insert k v m)"

definition resetTimerfd :: "u64 \<Rightarrow> 'c TimerManager \<Rightarrow> 'c TimerManager" where
  "resetTimerfd now m =
     (case timers m of
        [] \<Rightarrow> m\<lparr>armed := None\<rparr>
      | (_, nextExpire, _) # _ \<Rightarrow>
          let diffMs = (if nextExpire > now then nextExpire - now else 1)
          in m\<lparr>armed := Some (diffMs div 1000, (diffMs mod 1000) * 1000000)\<rparr>)"

definition add_timer :: "u64 \<Rightarrow> u64 \<Rightarrow> int \<Rightarrow> int \<Rightarrow> 'c option \<Rightarrow> 'c TimerManager \<Rightarrow> u64 \<times> 'c TimerManager" where
  "add_timer now now' delaySec ival cb m =
     (let expireTime = now + word_of_int delaySec;
          timerId = nextId m;
          m = m\<lparr>nextId := nextId m + 1,
                timers := omap_emplace timerId (expireTime, \<lparr>t_interval = ival, callback = cb\<rparr>) (timers m)\<rparr>
      in (timerId, resetTimerfd now' m))"

definition addTimer :: "u64 \<Rightarrow> u64 \<Rightarrow> int \<Rightarrow> 'c option \<Rightarrow> 'c TimerManager \<Rightarrow> u64 \<times> 'c TimerManager" where
  "addTimer now now' delaySec cb m = add_timer now now' delaySec 0 cb m"

definition addPeriodicTimer :: "u64 \<Rightarrow> u64 \<Rightarrow> int \<Rightarrow> int \<Rightarrow> 'c option \<Rightarrow> 'c TimerManager \<Rightarrow> u64 \<times> 'c TimerManager" where
  "addPeriodicTimer now now' delaySec intervalSec cb m = add_timer now now' delaySec intervalSec cb m"

definition removeTimer :: "u64 \<Rightarrow> u64 \<Rightarrow> 'c TimerManager \<Rightarrow> 'c TimerManager" where
  "removeTimer now timerId m =
     (if timerId \<in> fst ` set (timers m) then resetTimerfd now (m\<lparr>timers := omap_erase timerId (timers m)\<rparr>) else m)"

text \<open>One expired timer: run its callback, then put a periodic one back.\<close>

definition fire :: "('c \<Rightarrow> 'c TimerManager \<Rightarrow> 'c TimerManager) \<Rightarrow> u64 \<Rightarrow> u64 \<times> u64 \<times> 'c timer \<Rightarrow> 'c TimerManager \<Rightarrow> 'c TimerManager" where
  "fire exec now e m =
     (case e of (timerId, _, t) \<Rightarrow>
        let m = (case callback t of None \<Rightarrow> m | Some cb \<Rightarrow> exec cb m)
        in if t_interval t > 0
           then m\<lparr>timers := omap_emplace timerId (now + word_of_int (t_interval t), t) (timers m)\<rparr>
           else m)"

definition handleRead :: "('c \<Rightarrow> 'c TimerManager \<Rightarrow> 'c TimerManager) \<Rightarrow> u64 \<Rightarrow> u64 \<Rightarrow> 'c TimerManager \<Rightarrow> 'c TimerManager" where
  "handleRead exec now now' m =
     (let expired = takeWhile (\<lambda>(_, e, _). e \<le> now) (timers m);
          m = m\<lparr>timers := dropWhile (\<lambda>(_, e, _). e \<le> now) (timers m)\<rparr>;
          m = fold (fire exec now) expired m
      in resetTimerfd now' m)"

section \<open>The invariant\<close>

definition timers_inv :: "'c TimerManager \<Rightarrow> bool" where
  "timers_inv m \<longleftrightarrow> omap_ok (timers m) \<and> (\<forall>k \<in> fst ` set (timers m). k < nextId m) \<and>
     (armed m = None \<longleftrightarrow> timers m = [])"

definition timer_ops_ok :: "('c \<Rightarrow> 'c TimerManager \<Rightarrow> 'c TimerManager) \<Rightarrow> bool" where
  "timer_ops_ok exec \<longleftrightarrow>
     (\<forall>cb m. omap_ok (timers m) \<longrightarrow> (\<forall>k \<in> fst ` set (timers m). k < nextId m) \<longrightarrow>
        omap_ok (timers (exec cb m)) \<and> nextId m \<le> nextId (exec cb m) \<and>
        (\<forall>k \<in> fst ` set (timers (exec cb m)). k < nextId (exec cb m)))"

lemma resetTimerfd_simps [simp]:
  "timers (resetTimerfd now m) = timers m" "nextId (resetTimerfd now m) = nextId m"
  "armed (resetTimerfd now m) = None \<longleftrightarrow> timers m = []"
  by (simp_all add: resetTimerfd_def Let_def split: list.splits prod.splits)

lemma omap_emplace_ok: "omap_ok m \<Longrightarrow> omap_ok (omap_emplace k v m)"
  by (simp add: omap_emplace_def omap_ok_insert)

lemma keys_omap_emplace [simp]: "fst ` set (omap_emplace k v m) = insert k (fst ` set m)"
  by (auto simp: omap_emplace_def keys_omap_insert)

lemma add_timer_inv:
  assumes "timers_inv m" and "nextId m \<noteq> -1"
  shows "timers_inv (snd (add_timer now now' d iv cb m))"
proof -
  have "1 + nextId m \<noteq> 0" using assms(2) by (metis add.commute add_eq_0_iff)
  then have "nextId m < nextId m + 1" by (simp add: word_less_nat_alt unatSuc add.commute)
  then show ?thesis
    using assms(1) by (auto simp: add_timer_def timers_inv_def Let_def omap_emplace_ok intro: less_trans)
qed

lemma removeTimer_inv: "timers_inv m \<Longrightarrow> timers_inv (removeTimer now k m)"
  using omap_ok_erase [of "timers m" k] by (auto simp: removeTimer_def timers_inv_def omap_erase_def)

section \<open>Which timers fire\<close>

lemma first_not_due:
  assumes "timers m = (k, e, t) # rest" and "now < e"
  shows "handleRead exec now now' m = resetTimerfd now' m"
proof -
  have "takeWhile (\<lambda>(_, e, _). e \<le> now) (timers m) = []" "dropWhile (\<lambda>(_, e, _). e \<le> now) (timers m) = timers m"
    using assms by (simp_all add: not_le)
  then show ?thesis by (simp add: handleRead_def Let_def)
qed

lemma takeWhile_eq_filter_sorted:
  "sorted_wrt (\<lambda>x y. P y \<longrightarrow> P x) xs \<Longrightarrow> takeWhile P xs = filter P xs"
  by (induction xs) (auto simp: filter_empty_conv)

lemma dropWhile_eq_filter_sorted:
  "sorted_wrt (\<lambda>x y. P y \<longrightarrow> P x) xs \<Longrightarrow> dropWhile P xs = filter (\<lambda>x. \<not> P x) xs"
  by (induction xs) (auto intro!: filter_True [symmetric])


definition due :: "u64 \<Rightarrow> u64 \<times> u64 \<times> 'c timer \<Rightarrow> bool" where
  "due now x \<longleftrightarrow> fst (snd x) \<le> now"

definition keeps_timers :: "('c \<Rightarrow> 'c TimerManager \<Rightarrow> 'c TimerManager) \<Rightarrow> bool" where
  "keeps_timers exec \<longleftrightarrow> (\<forall>cb m. timers (exec cb m) = timers m)"

lemma timers_fire:
  assumes "keeps_timers exec"
  shows "timers (fire exec now (k, e, t) m) =
    (if t_interval t > 0 then omap_emplace k (now + word_of_int (t_interval t), t) (timers m) else timers m)"
  using assms by (simp add: fire_def keeps_timers_def Let_def split: option.splits)

lemma lookup_omap_emplace:
  "omap_ok m \<Longrightarrow> k \<notin> fst ` set m \<Longrightarrow> map_of (omap_emplace k v m) = (map_of m)(k \<mapsto> v)"
  by (simp add: omap_emplace_def lookup_omap_insert)

lemma fold_fire_lookup:
  assumes "keeps_timers exec" and "distinct (map fst es)" and "omap_ok (timers m)"
    and "fst ` set es \<inter> fst ` set (timers m) = {}"
  shows "map_of (timers (fold (fire exec now) es m)) k =
    (case map_of es k of
       Some (e, t) \<Rightarrow> if t_interval t > 0 then Some (now + word_of_int (t_interval t), t) else None
     | None \<Rightarrow> map_of (timers m) k)"
  using assms(2-4)
proof (induction es arbitrary: m)
  case (Cons x es)
  obtain k0 e t where x: "x = (k0, e, t)" by (cases x) auto
  let ?m = "fire exec now x m"
  have tm: "timers ?m = (if t_interval t > 0 then omap_emplace k0 (now + word_of_int (t_interval t), t) (timers m) else timers m)"
    unfolding x by (rule timers_fire [OF assms(1)])
  have new: "k0 \<notin> fst ` set (timers m)" "k0 \<notin> fst ` set es" using Cons.prems(1,3) x by auto
  have "omap_ok (timers ?m)" using Cons.prems(2) by (simp add: tm omap_emplace_ok)
  moreover have "fst ` set (timers ?m) \<subseteq> insert k0 (fst ` set (timers m))"
    unfolding tm by (simp add: subset_insertI)
  moreover have "fst ` set es \<inter> fst ` set (timers m) = {}" using Cons.prems(3) by auto
  ultimately have "omap_ok (timers ?m)" "fst ` set es \<inter> fst ` set (timers ?m) = {}" using new(2) by blast+
  then have "map_of (timers (fold (fire exec now) es ?m)) k =
    (case map_of es k of
       Some (e, t) \<Rightarrow> if t_interval t > 0 then Some (now + word_of_int (t_interval t), t) else None
     | None \<Rightarrow> map_of (timers ?m) k)" using Cons.IH [of ?m] Cons.prems(1) by simp
  moreover have "map_of (timers ?m) = (if t_interval t > 0 then (map_of (timers m))(k0 \<mapsto> (now + word_of_int (t_interval t), t)) else map_of (timers m))"
    unfolding tm using lookup_omap_emplace [OF Cons.prems(2) new(1)] by simp
  moreover have "map_of es k0 = None" "map_of (timers m) k0 = None"
    using new by (simp_all add: map_of_eq_None_iff)
  ultimately show ?case by (auto simp: x split: option.splits)
qed simp

lemma handleRead_due:
  assumes "keeps_timers exec" and "omap_ok (timers m)"
    and "sorted_wrt (\<lambda>x y. fst (snd x) \<le> fst (snd y)) (timers m)"
  shows "map_of (timers (handleRead exec now now' m)) k =
    (case map_of (timers m) k of
       None \<Rightarrow> None
     | Some (e, t) \<Rightarrow>
         if now < e then Some (e, t)
         else if t_interval t > 0 then Some (now + word_of_int (t_interval t), t) else None)"
proof -
  let ?due = "filter (\<lambda>(_, e, _). e \<le> now) (timers m)" and ?rest = "filter (\<lambda>x. \<not> (case x of (_, e, _) \<Rightarrow> e \<le> now)) (timers m)"
  have s: "sorted_wrt (\<lambda>x y. (case y of (_, e, _) \<Rightarrow> e \<le> now) \<longrightarrow> (case x of (_, e, _) \<Rightarrow> e \<le> now)) (timers m)"
    by (rule sorted_wrt_mono_rel [OF _ assms(3)]) (auto intro: order_trans)
  have d: "distinct (map fst (timers m))"
    using assms(2) by (simp add: strict_sorted_iff)
  have "omap_ok ?rest" using assms(2) by (rule omap_ok_filter)
  moreover have "distinct (map fst ?due)" using d by (rule distinct_map_filter)
  moreover have "fst ` set ?due \<inter> fst ` set ?rest = {}"
    using d by (auto simp: distinct_map inj_on_def)
  moreover define m1 where "m1 = m\<lparr>timers := ?rest\<rparr>"
  have t1: "timers m1 = ?rest" by (simp add: m1_def)
  have "handleRead exec now now' m = resetTimerfd now' (fold (fire exec now) ?due m1)"
    unfolding m1_def handleRead_def Let_def takeWhile_eq_filter_sorted [OF s] dropWhile_eq_filter_sorted [OF s] ..
  ultimately have "map_of (timers (handleRead exec now now' m)) k =
    (case map_of ?due k of
       Some (e, t) \<Rightarrow> if t_interval t > 0 then Some (now + word_of_int (t_interval t), t) else None
     | None \<Rightarrow> map_of ?rest k)"
    using fold_fire_lookup [OF assms(1), of ?due m1 now k, unfolded t1] by (simp only: resetTimerfd_simps)
  moreover have "map_of ?due k = (case map_of (timers m) k of Some (e, t) \<Rightarrow> if e \<le> now then Some (e, t) else None | None \<Rightarrow> None)"
    by (simp add: map_of_filter_key [OF d] split: option.splits)
  moreover have "map_of ?rest k = (case map_of (timers m) k of Some (e, t) \<Rightarrow> if e \<le> now then None else Some (e, t) | None \<Rightarrow> None)"
    by (simp add: map_of_filter_key [OF d] split: option.splits)
  ultimately show ?thesis by (auto split: option.splits if_splits)
qed


lemma fold_fire_inv:
  assumes "timer_ops_ok exec" and "omap_ok (timers m)" and "\<forall>k \<in> fst ` set (timers m). k < nextId m"
    and "\<forall>k \<in> fst ` set es. k < nextId m"
  shows "omap_ok (timers (fold (fire exec now) es m)) \<and>
    (\<forall>k \<in> fst ` set (timers (fold (fire exec now) es m)). k < nextId (fold (fire exec now) es m))"
  using assms(2-4)
proof (induction es arbitrary: m)
  case (Cons x es)
  obtain k0 e t where x: "x = (k0, e, t)" by (cases x) auto
  define m1 where "m1 = (case callback t of None \<Rightarrow> m | Some cb \<Rightarrow> exec cb m)"
  have m1: "omap_ok (timers m1)" "nextId m \<le> nextId m1" "\<forall>k \<in> fst ` set (timers m1). k < nextId m1"
    using assms(1) Cons.prems(1,2) by (auto simp: m1_def timer_ops_ok_def split: option.splits)
  have k0: "k0 < nextId m1" using Cons.prems(3) m1(2) x by auto
  have f: "fire exec now x m = (if t_interval t > 0
      then m1\<lparr>timers := omap_emplace k0 (now + word_of_int (t_interval t), t) (timers m1)\<rparr> else m1)"
    by (simp add: fire_def x m1_def Let_def)
  have "omap_ok (timers (fire exec now x m))" using m1(1) by (simp add: f omap_emplace_ok)
  moreover have K: "\<forall>k \<in> fst ` set (omap_emplace k0 (now + word_of_int (t_interval t), t) (timers m1)). k < nextId m1"
    unfolding keys_omap_emplace using m1(3) k0 by blast
  have "\<forall>k \<in> fst ` set (timers (fire exec now x m)). k < nextId (fire exec now x m)"
    using m1(3) K by (simp add: f del: keys_omap_emplace)
  moreover have "\<forall>k \<in> fst ` set es. k < nextId (fire exec now x m)"
    using Cons.prems(3) m1(2) by (auto simp: f)
  ultimately show ?case using Cons.IH [of "fire exec now x m"] by simp
qed simp

lemma handleRead_inv:
  assumes "timers_inv m" and "timer_ops_ok exec"
  shows "timers_inv (handleRead exec now now' m)"
proof -
  let ?P = "\<lambda>(_, e, _). e \<le> now"
  have m: "omap_ok (timers m)" "\<forall>k \<in> fst ` set (timers m). k < nextId m" using assms(1) by (auto simp: timers_inv_def)
  have "omap_ok (dropWhile ?P (timers m))"
    using m(1) by (simp add: dropWhile_eq_drop drop_map [symmetric] sorted_wrt_drop)
  moreover have "\<forall>k \<in> fst ` set (dropWhile ?P (timers m)). k < nextId m"
    using m(2) by (auto dest: set_dropWhileD)
  moreover have "\<forall>k \<in> fst ` set (takeWhile ?P (timers m)). k < nextId m"
    using m(2) by (auto dest: set_takeWhileD)
  ultimately show ?thesis
    using fold_fire_inv [OF assms(2), of "m\<lparr>timers := dropWhile ?P (timers m)\<rparr>" "takeWhile ?P (timers m)" now]
    by (simp add: handleRead_def timers_inv_def Let_def)
qed

end
