(* ===== verification/Server_Samples.thy ===== *)
theory Server_Samples
  imports Server Cam_Samples Timers
begin

text \<open>
  Concrete values for the witnesses: a connection on a socket that takes fifty bytes at a time, a
  server with one fresh camera connection, and the requests of a camera.
\<close>

definition sample_conn :: TcpConnection where
  "sample_conn = \<lparr> recvBuffer = [], sendBuffer = [], isWriting = False, epollWrite = False,
     sock_writes = replicate 20 (Wrote 50) @ [Would_block], sock_sent = [] \<rparr>"

definition sample_monitor :: MonitorServer where
  "sample_monitor = \<lparr> qtClients = [], cams = [], server_addr = ''0.0.0.0:9000'', mon_sent = [], mon_udp = [] \<rparr>"

definition sample_server :: server where
  "sample_server = new_RtspConnect 26 ''10.0.0.2'' ''10.0.0.1'' new_manager sample_monitor [] sample_conn"

definition sample_options :: string where
  "sample_options = print_request ''OPTIONS'' ''rtsp://10.0.0.1:8554/stream'' [(''CSeq'', ''1'')]"

lemma sample_conn_ok:
  "conn_inv sample_conn" "Would_block \<in> set (sock_writes sample_conn)" "Write_error \<notin> set (sock_writes sample_conn)"
  by (simp_all add: sample_conn_def conn_inv_def)

lemma sample_monitor_ok: "mon_inv sample_monitor"
  by (simp add: sample_monitor_def mon_inv_def)

lemma sample_server_inv: "srv_inv sample_server"
  unfolding sample_server_def by (rule new_RtspConnect_inv) (simp_all add: sample_monitor_ok new_manager_def)

lemma sample_server_session: "sessionId (rc_session (rc sample_server)) = ''1a-1''"
  by code_simp

lemma sample_options_parsed:
  "parseRequest_rtsp sample_options = Inr (''OPTIONS'', ''rtsp://10.0.0.1:8554/stream'', [(''cseq'', ''1'')])"
  by code_simp

definition sample_timers :: "nat TimerManager" where
  "sample_timers = \<lparr> timers = [(1, 10, \<lparr>t_interval = 5, callback = Some 0\<rparr>), (2, 12, \<lparr>t_interval = 0, callback = None\<rparr>),
     (3, 90, \<lparr>t_interval = 0, callback = None\<rparr>)], nextId = 4, armed = None \<rparr>"

end
