(* ===== verification/Rtsp_Client.thy ===== *)
theory Rtsp_Client
  imports Server
begin

unbundle bit_operations_syntax

text \<open>
  The camera's RTSP client (\<^verbatim>\<open>rtsp.c\<close> from \<^verbatim>\<open>rtsp_client_options\<close> on): the requests it prints, the
  responses it reads and the parsers of the \<^verbatim>\<open>SETUP\<close> and \<^verbatim>\<open>DESCRIBE\<close> responses. Strings are C strings, so
  they hold no zero byte. What the client prints for the user is left out.
\<close>

section \<open>Requests\<close>

text \<open>
  The requests are printed with \<^verbatim>\<open>snprintf\<close> into an array of \<open>room\<close> bytes, and the length it returns,
  which is that of the whole text, is written from the array: a text that was cut reads past
  the array, one of exactly \<open>room\<close> characters sends the terminator for its last one.
\<close>

definition send_request :: "nat \<Rightarrow> string \<Rightarrow> rtsp_session \<Rightarrow> (int \<times> rtsp_session) res" where
  "send_request room text s =
     (if length text > room then Inl Out_of_bounds
      else
        let request = (if length text = room then take (room - 1) text @ [CHR 0x00] else text)
        in case tcp_write s (map byte_of request) of
             None \<Rightarrow> Inl Diverged
           | Some r \<Rightarrow> Inr r)"

definition next_cseq :: "rtsp_session \<Rightarrow> rtsp_session" where
  "next_cseq s = s\<lparr>cseq := s32 (cseq s + 1)\<rparr>"

abbreviation user_agent :: "string \<times> string" where
  "user_agent \<equiv> (''User-Agent'', ''RTSP Client'')"

definition options_text :: "string \<Rightarrow> rtsp_session \<Rightarrow> string" where
  "options_text url s = print_request ''OPTIONS'' url [(''CSeq'', show_int (cseq s)), user_agent]"

definition rtsp_client_options :: "string \<Rightarrow> rtsp_session \<Rightarrow> (int \<times> rtsp_session) res" where
  "rtsp_client_options url s = (let s = next_cseq s in send_request 512 (options_text url s) s)"

definition describe_text :: "string \<Rightarrow> rtsp_session \<Rightarrow> string" where
  "describe_text url s =
     print_request ''DESCRIBE'' url [(''CSeq'', show_int (cseq s)), user_agent, (''Accept'', ''application/sdp'')]"

definition rtsp_client_describe :: "string \<Rightarrow> rtsp_session \<Rightarrow> (int \<times> rtsp_session) res" where
  "rtsp_client_describe url s = (let s = next_cseq s in send_request 512 (describe_text url s) s)"

text \<open>The URL of the track is cut at 511 characters.\<close>

definition setup_text :: "string \<Rightarrow> string \<Rightarrow> rtsp_session \<Rightarrow> string" where
  "setup_text url transport s =
     print_request ''SETUP'' (take 511 (url @ ''/trackID=0''))
       [(''CSeq'', show_int (cseq s)), (''Transport'', transport), user_agent]"

definition rtsp_client_setup :: "string \<Rightarrow> string \<Rightarrow> rtsp_session \<Rightarrow> (int \<times> rtsp_session) res" where
  "rtsp_client_setup url transport s = (let s = next_cseq s in send_request 512 (setup_text url transport s) s)"

definition teardown_text :: "string \<Rightarrow> rtsp_session \<Rightarrow> string" where
  "teardown_text url s =
     print_request ''TEARDOWN'' url [(''CSeq'', show_int (cseq s)), (''Session'', session_id s), user_agent]"

definition rtsp_client_teardown :: "string \<Rightarrow> rtsp_session \<Rightarrow> (int \<times> rtsp_session) res" where
  "rtsp_client_teardown url s = (let s = next_cseq s in send_request 512 (teardown_text url s) s)"

definition announce_text :: "string \<Rightarrow> string \<Rightarrow> rtsp_session \<Rightarrow> string" where
  "announce_text url sdp s =
     print_request ''ANNOUNCE'' url
       [(''CSeq'', show_int (cseq s)), (''Content-Type'', ''application/sdp''),
        (''Content-Length'', show_nat (length sdp)), user_agent] @ sdp"

definition rtsp_client_announce :: "string \<Rightarrow> string \<Rightarrow> rtsp_session \<Rightarrow> (int \<times> rtsp_session) res" where
  "rtsp_client_announce url sdp s = (let s = next_cseq s in send_request 1024 (announce_text url sdp s) s)"

text \<open>The conversation number is printed as a signed number.\<close>

definition record_text :: "string \<Rightarrow> u32 \<Rightarrow> rtsp_session \<Rightarrow> string" where
  "record_text url cv s =
     print_request ''RECORD'' url
       [(''CSeq'', show_int (cseq s)), (''Session'', session_id s), user_agent, (''KcpId'', show_int (sint cv))]"

definition rtsp_client_record :: "string \<Rightarrow> rtsp_session \<Rightarrow> (int \<times> rtsp_session) res" where
  "rtsp_client_record url s =
     (let s = next_cseq s
      in case sess_kcp s of
           None \<Rightarrow> Inl Out_of_bounds
         | Some kcp \<Rightarrow> send_request 512 (record_text url (conv kcp) s) s)"

definition rtsp_client_read_response :: "rtsp_session \<Rightarrow> string option \<Rightarrow> nat \<Rightarrow> int \<times> string" where
  "rtsp_client_read_response s arrived len = tcp_read s arrived len"

section \<open>The response to SETUP\<close>

definition strcasestr :: "string \<Rightarrow> string \<Rightarrow> nat option" where
  "strcasestr s pat = find (map tolower s) (map tolower pat)"

definition strchr :: "string \<Rightarrow> char \<Rightarrow> string option" where
  "strchr s c = (case dropWhile (\<lambda>x. x \<noteq> c) s of [] \<Rightarrow> None | x # xs \<Rightarrow> Some (x # xs))"

text \<open>The number at \<open>p\<close>, and the one behind the first dash after it, if there is a dash.\<close>

definition two_numbers :: "string \<Rightarrow> u16 \<Rightarrow> u16 \<times> u16" where
  "two_numbers p second =
     (word_of_int (strtol p),
      case strchr p (CHR ''-'') of None \<Rightarrow> second | Some d \<Rightarrow> word_of_int (strtol (drop 1 d)))"

definition session_name :: "string \<Rightarrow> string" where
  "session_name response =
     (case strcasestr response ''Session:'' of
        None \<Rightarrow> []
      | Some p \<Rightarrow>
          take 63 (takeWhile (\<lambda>c. c \<noteq> CHR 0x0D \<and> c \<noteq> CHR '';'' \<and> \<not> isspace c)
            (dropWhile (\<lambda>c. c = CHR '' '') (drop (p + 8) response))))"

definition rtsp_parse_setup_response :: "string \<Rightarrow> rtsp_session \<Rightarrow> int \<times> rtsp_session" where
  "rtsp_parse_setup_response response s =
     (let s = s\<lparr>server_rtp_port := 0, server_rtcp_port := 0, rtpChannel := 0, rtcpChannel := 0,
                transType := [], session_id := session_name response\<rparr>
      in case strcasestr response ''server_port='' of
           Some p \<Rightarrow>
             let (a, b) = two_numbers (drop (p + 12) response) 0
             in (0, s\<lparr>transType := ''udp'', server_rtp_port := a, server_rtcp_port := b\<rparr>)
         | None \<Rightarrow>
             (case strcasestr response ''interleaved='' of
                Some p \<Rightarrow>
                  let (a, b) = two_numbers (drop (p + 12) response) 0
                  in (0, s\<lparr>transType := ''tcp'', rtpChannel := a, rtcpChannel := b\<rparr>)
              | None \<Rightarrow> (-1, s)))"

section \<open>The response to DESCRIBE\<close>

definition trim_spaces :: "string \<Rightarrow> string" where
  "trim_spaces s =
     dropWhile (\<lambda>c. c = CHR '' '' \<or> c = CHR 0x09)
       (rev (dropWhile (\<lambda>c. c \<in> set blanks) (rev s)))"

definition starts_with :: "string \<Rightarrow> string \<Rightarrow> bool" where
  "starts_with s pre \<longleftrightarrow> take (length pre) s = pre"

text \<open>A URL is cut at \<^verbatim>\<open>RTSP_MAX_URL - 1\<close> characters.\<close>

definition build_setup_url :: "string \<Rightarrow> rtsp_session \<Rightarrow> rtsp_session" where
  "build_setup_url request_url s =
     (let base = (if content_base s \<noteq> [] then content_base s else request_url);
          ctrl = control_attr s
      in if starts_with ctrl ''rtsp://'' then s\<lparr>setup_url := take 511 ctrl\<rparr>
         else if base \<noteq> [] \<and> last base \<noteq> CHR ''/'' \<and> ctrl \<noteq> [] \<and> hd ctrl \<noteq> CHR ''/''
         then s\<lparr>setup_url := take 511 (base @ ''/'' @ ctrl)\<rparr>
         else s\<lparr>setup_url := take 511 (base @ ctrl)\<rparr>)"

text \<open>One \<^verbatim>\<open>%d\<close> of \<^verbatim>\<open>sscanf\<close>: the number and the rest, or no match.\<close>

definition scan_d :: "string \<Rightarrow> (int \<times> string) option" where
  "scan_d s =
     (let t = dropWhile isspace s;
          u = (if t \<noteq> [] \<and> (hd t = CHR ''-'' \<or> hd t = CHR ''+'') then tl t else t)
      in if takeWhile isdigit u = [] then None
         else Some (s32 (strtol t), dropWhile isdigit u))"

text \<open>\<^verbatim>\<open>sscanf(val, "%d %31[^/]/%d")\<close> with all three conversions done.\<close>

definition scan_rtpmap :: "string \<Rightarrow> (int \<times> int) option" where
  "scan_rtpmap val =
     (case scan_d val of
        None \<Rightarrow> None
      | Some (pt, rest) \<Rightarrow>
          let rest = dropWhile isspace rest;
              enc = take 31 (takeWhile (\<lambda>c. c \<noteq> CHR ''/'') rest);
              rest = drop (length enc) rest
          in if enc = [] \<or> rest = [] \<or> hd rest \<noteq> CHR ''/'' then None
             else (case scan_d (tl rest) of None \<Rightarrow> None | Some (clock, _) \<Rightarrow> Some (pt, clock)))"

definition sdp_line :: "string \<Rightarrow> rtsp_session \<Rightarrow> rtsp_session" where
  "sdp_line line s =
     (if starts_with line ''a=control:'' then s\<lparr>control_attr := take 255 (trim_spaces (drop 10 line))\<rparr>
      else if starts_with line ''a=rtpmap:'' then
        (case scan_rtpmap (drop 9 line) of
           None \<Rightarrow> s
         | Some (pt, clock) \<Rightarrow> s\<lparr>payload_type := pt, clock_rate := clock\<rparr>)
      else s)"

text \<open>Lines are cut at 255 characters; the rest of a longer one is read as the next line.\<close>

function sdp_lines :: "string \<Rightarrow> rtsp_session \<Rightarrow> rtsp_session" where
  "sdp_lines p s =
     (if p = [] then s
      else
        let raw = take 255 (takeWhile (\<lambda>c. c \<noteq> CHR 0x0A) p);
            i = length raw;
            p' = (if i < length p \<and> p ! i = CHR 0x0A then drop (i + 1) p else drop i p);
            line = trim_spaces raw
        in sdp_lines p' (if line = [] then s else sdp_line line s))"
  by pat_completeness auto
termination
proof (relation "measure (\<lambda>(p, s). length p)")
  fix p :: string and s :: rtsp_session and raw i p' line
  assume p: "p \<noteq> []" "raw = take 255 (takeWhile (\<lambda>c. c \<noteq> CHR 0x0A) p)" "i = length raw"
    "p' = (if i < length p \<and> p ! i = CHR 0x0A then drop (i + 1) p else drop i p)"
  obtain c q where c: "p = c # q" using p(1) by (cases p) auto
  have "length p' < length p"
  proof (cases "c = CHR 0x0A")
    case True
    then have "raw = []" "i = 0" using p(2,3) c by simp_all
    then have "p' = q" using True p(4) c by simp
    then show ?thesis using c by simp
  next
    case False
    then have i: "0 < i" using p(2,3) c by simp
    have "length p' \<le> length p - i" unfolding p(4) by (simp add: diff_le_mono2)
    also have "\<dots> < length p" using i p(1) by simp
    finally show ?thesis .
  qed
  then show "((p', if line = [] then s else sdp_line line s), p, s) \<in> measure (\<lambda>(p, s). length p)" by simp
qed simp

declare sdp_lines.simps [simp del]

definition rtsp_parse_describe_response :: "string \<Rightarrow> string \<Rightarrow> rtsp_session \<Rightarrow> int \<times> rtsp_session" where
  "rtsp_parse_describe_response request_url response s =
     (let s = s\<lparr>content_base := [], control_attr := [], setup_url := [], payload_type := 0, clock_rate := 0\<rparr>
      in case find response head_end of
           None \<Rightarrow> (-1, s)
         | Some h \<Rightarrow>
             let body = drop (h + 4) response;
                 s = (case find response ''Content-Base:'' of
                        None \<Rightarrow> s
                      | Some cb \<Rightarrow>
                          let v = dropWhile (\<lambda>c. c = CHR '' '') (drop (cb + 13) response);
                              line = take 511 (takeWhile (\<lambda>c. c \<noteq> CHR 0x0D) v)
                          in s\<lparr>content_base := trim_spaces line\<rparr>)
             in (0, build_setup_url request_url (sdp_lines body s)))"

end
