(* ===== verification/Wire.thy ===== *)
theory Wire
  imports Rtsp_Client
begin

text \<open>
  What one end prints, the other reads: the camera's requests on their way through the server's
  extraction and parser, and the server's answers in the camera's parser.
\<close>

section \<open>Searching in joined texts\<close>

lemma find_from_shift: "find_from (pre @ s) pat (length pre + p) = map_option ((+) (length pre)) (find_from s pat p)"
proof (induction s pat p rule: find_from.induct)
  case (1 s pat p)
  then show ?case
    by (subst find_from.simps, subst (2) find_from.simps) auto
qed

lemma find_from_drop: "p \<le> length s \<Longrightarrow> find_from s pat p = map_option ((+) p) (find (drop p s) pat)"
proof -
  assume p: "p \<le> length s"
  have "find_from (take p s @ drop p s) pat (length (take p s) + 0) =
      map_option ((+) (length (take p s))) (find (drop p s) pat)" by (rule find_from_shift)
  moreover have "length (take p s) = p" using p by simp
  ultimately show ?thesis by (simp only: append_take_drop_id add_0_right)
qed

lemma find_Cons:
  "find (x # xs) pat = (if take (length pat) (x # xs) = pat then Some 0 else map_option Suc (find xs pat))"
proof (cases "length pat > length (x # xs)")
  case True
  then have "find (x # xs) pat = None" "find xs pat = None"
    by (subst find_from.simps; simp)+
  moreover have "take (length pat) (x # xs) \<noteq> pat" using True by (metis length_take min_less_iff_conj less_irrefl)
  ultimately show ?thesis by simp
next
  case False
  have "find_from (x # xs) pat (0 + 1) = map_option ((+) 1) (find xs pat)"
    using find_from_drop [of 1 "x # xs" pat] by simp
  moreover have "(+) 1 = Suc" by (simp add: fun_eq_iff)
  ultimately show ?thesis
    using False by (subst find_from.simps) simp
qed

text \<open>The search skips a text that does not hold the first character of the pattern.\<close>

lemma find_skip:
  "c \<notin> set s \<Longrightarrow> find (s @ t) (c # pat) = map_option ((+) (length s)) (find t (c # pat))"
proof (induction s)
  case Nil
  then show ?case by (simp add: option.map_ident)
next
  case (Cons x s)
  then have "take (length (c # pat)) ((x # s) @ t) \<noteq> c # pat" by auto
  then show ?case using Cons by (simp only: append_Cons find_Cons if_False) (simp add: option.map_comp comp_def)
qed

lemma find_far: "x \<noteq> c \<Longrightarrow> find (x # xs) (c # pat) = map_option Suc (find xs (c # pat))"
  by (simp add: find_Cons)

lemma find_near: "find (c # xs) (c # pat) =
    (if take (length pat) xs = pat then Some 0 else map_option Suc (find xs (c # pat)))"
  by (simp add: find_Cons)

lemmas find_step = find_far find_near

lemma find_here: "find (pat @ t) pat = Some 0"
  by (rule find_from_first) simp_all

abbreviation LF :: char where "LF \<equiv> CHR 0x0A"

text \<open>Behind a line without a line feed, the end of the header is here or in what follows.\<close>

lemma find_head_end_line:
  assumes "LF \<notin> set a"
  shows "find (a @ crlf @ t) head_end =
    (if take 2 t = crlf then Some (length a) else map_option ((+) (length a + 2)) (find t head_end))"
  using assms
proof (induction a)
  case Nil
  have "take (length head_end) (CHR 0x0D # LF # t) = head_end \<longleftrightarrow> take 2 t = crlf" by (simp add: numeral_2_eq_2)
  moreover have "take (length head_end) (LF # t) \<noteq> head_end" by simp
  moreover have "map_option Suc (map_option Suc z) = map_option ((+) (length [] + 2)) z" for z by (cases z) simp_all
  ultimately show ?case by (simp only: append_Nil append_Cons find_Cons if_False) simp
next
  case (Cons x a)
  have "take (length head_end) (x # a @ crlf @ t) \<noteq> head_end"
    using Cons.prems by (cases a) auto
  then show ?case using Cons by (simp only: append_Cons find_Cons if_False) (simp add: option.map_comp comp_def)
qed

lemma find_head_end_lines:
  assumes "ls \<noteq> []" and "\<forall>l \<in> set ls. l \<noteq> [] \<and> LF \<notin> set l"
  shows "find (concat (map (\<lambda>l. l @ crlf) ls) @ crlf @ rest) head_end =
    Some (length (concat (map (\<lambda>l. l @ crlf) ls)) - 2)"
  using assms
proof (induction ls)
  case (Cons l ls)
  have l: "LF \<notin> set l" using Cons.prems(2) by simp
  show ?case
  proof (cases ls)
    case Nil
    have "find (l @ crlf @ crlf @ rest) head_end = Some (length l)"
      unfolding find_head_end_line [OF l] by simp
    then show ?thesis using Nil by simp
  next
    case (Cons l2 ls2)
    let ?t = "concat (map (\<lambda>l. l @ crlf) ls) @ crlf @ rest"
    have "l2 \<noteq> []" "LF \<notin> set l2" using Cons.prems(2) Cons by simp_all
    then have "take 2 ?t \<noteq> crlf" using Cons by (cases l2; cases "tl l2"; auto)
    moreover have "find ?t head_end = Some (length (concat (map (\<lambda>l. l @ crlf) ls)) - 2)"
      using Cons.IH Cons.prems(2) Cons by simp
    moreover have "length (concat (map (\<lambda>l. l @ crlf) ls)) \<ge> 2" using Cons by simp
    ultimately show ?thesis using find_head_end_line [OF l, of ?t] by simp
  qed
qed simp

section \<open>Numbers\<close>

lemma isdigit_char: "isdigit c \<Longrightarrow> \<not> isspace c \<and> c \<noteq> CHR ''-'' \<and> c \<noteq> CHR ''+'' \<and> tolower c = c \<and> c \<noteq> CHR 0x0D \<and> c \<noteq> LF"
  by (auto simp: isdigit_def isspace_def tolower_def less_eq_char_def)

lemma show_nat_ne: "show_nat n \<noteq> []" and show_nat_set: "c \<in> set (show_nat n) \<Longrightarrow> isdigit c"
  using show_nat_digits [of n] by (auto simp: list_all_iff)

lemma show_nat_takeWhile: "\<not> isdigit c \<Longrightarrow> takeWhile isdigit (show_nat n @ c # rest) = show_nat n"
  "takeWhile isdigit (show_nat n) = show_nat n"
  using show_nat_set by (auto simp: takeWhile_append takeWhile_eq_all_conv)

lemma scan_int_show_nat:
  assumes "rest = [] \<or> \<not> isdigit (hd rest)"
  shows "scan_int (show_nat n @ rest) = (False, show_nat n)"
proof -
  obtain c cs where c: "show_nat n = c # cs" using show_nat_ne by (metis neq_Nil_conv)
  have d: "isdigit c" using show_nat_set [of c n] c by simp
  have "takeWhile isdigit (show_nat n @ rest) = show_nat n"
    using show_nat_takeWhile assms by (cases rest) simp_all
  then show ?thesis using isdigit_char [OF d] by (simp add: scan_int_def c)
qed

lemma strtol_show_nat:
  assumes "rest = [] \<or> \<not> isdigit (hd rest)" and "n < 2 ^ 63"
  shows "strtol (show_nat n @ rest) = int n"
proof -
  have "int n < 2 ^ 63" using assms(2) by (metis of_nat_less_iff of_nat_numeral of_nat_power)
  then show ?thesis
    using show_nat_digits [of n] by (simp add: strtol_def scan_int_show_nat [OF assms(1)])
qed

lemma stoul_show_nat: "n < 2 ^ 64 \<Longrightarrow> stoul (show_nat n) = Inr n"
  using scan_int_show_nat [of "[]" n] show_nat_digits [of n] by (simp add: stoul_def)

text \<open>A conversation number survives being printed as a signed and read as an unsigned number.\<close>

lemma stoul_show_conv: "\<exists>k. stoul (show_int (sint (cv :: u32))) = Inr k \<and> of_nat k = cv"
proof (cases "sint cv < 0")
  case False
  have "uint cv < 2 ^ 32" using uint_lt2p [of cv] by simp
  then have "sint cv < 2 ^ 31" using sint_lt [of cv] by simp
  then have "nat (sint cv) < 2 ^ 64" by simp
  from stoul_show_nat [OF this] False show ?thesis by (simp add: show_int_def)
next
  case True
  define d where "d = nat (- sint cv)"
  have "- (2 ^ 31) \<le> sint cv" using sint_ge [of cv] by simp
  then have d: "0 < d" "d < 2 ^ 64" "int d = - sint cv" using True by (simp_all add: d_def)
  have ds: "digits_val (show_nat d) = d" "show_nat d \<noteq> []" using show_nat_digits [of d] by simp_all
  have "scan_int (CHR ''-'' # show_nat d) = (True, show_nat d)"
    by (simp add: scan_int_def isspace_def show_nat_takeWhile)
  then have "stoul (show_int (sint cv)) = Inr (2 ^ 64 - d)"
    using True d ds by (simp add: stoul_def show_int_def d_def [symmetric])
  moreover have "of_nat (2 ^ 64 - d) = cv"
  proof -
    have "int (2 ^ 64 - d) = 2 ^ 64 + sint cv" using d by (simp add: of_nat_diff)
    then have "of_int (int (2 ^ 64 - d)) = (of_int (2 ^ 64) + of_int (sint cv) :: u32)" by (simp only: of_int_add)
    then have "of_nat (2 ^ 64 - d) = (of_int (2 ^ 64) + cv :: u32)" by simp
    also have "(of_int (2 ^ 64) :: u32) = 0" by simp
    finally show ?thesis by simp
  qed
  ultimately show ?thesis by blast
qed

section \<open>The camera's Transport header\<close>

definition client_transport :: "u16 \<Rightarrow> u16 \<Rightarrow> string" where
  "client_transport p q = ''RTP/AVP/UDP;unicast;client_port='' @ show_nat (unat p) @ ''-'' @ show_nat (unat q)"

lemma find_Nil: "pat \<noteq> [] \<Longrightarrow> find [] pat = None"
  by (subst find_from.simps) simp

lemma trim_digits: "trim_set [CHR '' '', CHR 0x09] (show_nat n) = show_nat n"
proof -
  have "\<forall>c \<in> set (show_nat n). c \<notin> {CHR '' '', CHR 0x09}"
    using show_nat_set isdigit_char by (metis insert_iff isspace_def empty_iff)
  then have "dropWhile (\<lambda>c. c \<in> set [CHR '' '', CHR 0x09]) xs = xs" if "set xs \<subseteq> set (show_nat n)" for xs
    using that by (cases xs) auto
  then show ?thesis by (simp add: trim_set_def)
qed

lemma atoi_show_port: "atoi (show_nat (unat (p :: u16))) = int (unat p)"
proof -
  have "unat p < 2 ^ 16" using unsigned_less [of p, where ?'a = nat] by simp
  moreover have "uint p < 65536" using uint_lt2p [of p] by simp
  moreover from this have "s32 (uint p) = uint p" by (intro s32_id) (simp_all add: order_trans [OF _ uint_ge_0])
  ultimately show ?thesis using strtol_show_nat [of "[]" "unat p"] by (simp add: atoi_def)
qed

lemma not_digit: "\<not> isdigit c \<Longrightarrow> c \<notin> set (show_nat n)"
  using show_nat_set by blast

lemma number_pair_ports:
  assumes "transport = pre @ name @ show_nat (unat (p :: u16)) @ ''-'' @ show_nat (unat (q :: u16)) @ rest"
    and "find transport name = Some (length pre)" and "length name = 12"
    and "rest = [] \<or> hd rest = CHR '';''"
  shows "number_pair transport name = Some (int (unat p), int (unat q))"
proof -
  let ?P = "show_nat (unat p)" and ?Q = "show_nat (unat q)"
  define pos where "pos = length pre + 12"
  have dr: "drop pos transport = ?P @ ''-'' @ ?Q @ rest" using assms(1,3) by (simp add: pos_def)
  have nd: "CHR ''-'' \<notin> set ?P" "CHR '';'' \<notin> set ?Q" by (intro not_digit; simp add: isdigit_def less_eq_char_def)+
  have "find (drop pos transport) ''-'' = Some (length ?P)"
    unfolding dr using find_skip [OF nd(1), of "''-'' @ ?Q @ rest" "[]"] find_here [of "''-''" "?Q @ rest"] by simp
  moreover have "pos \<le> length transport" using assms(1,3) by (simp add: pos_def)
  ultimately have d: "find_from transport ''-'' pos = Some (pos + length ?P)" by (simp add: find_from_drop [of pos])
  have a: "take (pos + length ?P - pos) (drop pos transport) = ?P" unfolding dr by simp
  have "drop (pos + length ?P + 1) transport = drop (length ?P + 1) (drop pos transport)"
    by (simp add: add.commute add.left_commute)
  then have b: "drop (pos + length ?P + 1) transport = ?Q @ rest" unfolding dr by simp
  have e: "(case find (?Q @ rest) '';'' of Some e \<Rightarrow> take e (?Q @ rest) | None \<Rightarrow> ?Q @ rest) = ?Q"
  proof (cases rest)
    case Nil
    then show ?thesis using find_skip [OF nd(2), of "[]" "[]"] by (simp add: find_Nil)
  next
    case (Cons c cs)
    then have "find (?Q @ rest) '';'' = Some (length ?Q)"
      using find_skip [OF nd(2), of rest "[]"] find_here [of "'';''" cs] assms(4) by simp
    then show ?thesis by simp
  qed
  show ?thesis
    unfolding number_pair_def assms(2) option.case Let_def pos_def [symmetric] d a b e
    by (simp add: trim_digits atoi_show_port)
qed

lemma parseTransport_client:
  assumes "0 < p" and "0 < q"
  shows "parseTransport (client_transport p q) =
    (True, \<lparr> tr_type = ''UDP'', clientRtpPort = p, clientRtcpPort = q, serverRtpPort = 0, serverRtcpPort = 0,
       tr_rtpChannel = 0, tr_rtcpChannel = 0 \<rparr>)"
proof -
  let ?t = "client_transport p q" and ?tail = "show_nat (unat p) @ ''-'' @ show_nat (unat q)"
  have u: "occurs ?t ''RTP/AVP/UDP''"
    using find_here [of "''RTP/AVP/UDP''"] by (simp add: occurs_def client_transport_def)
  have "find ?t ''client_port='' = Some (length ''RTP/AVP/UDP;unicast;'')"
    using find_here [of "''client_port=''" ?tail] by (simp add: client_transport_def find_step)
  from number_pair_ports [OF _ this, of p q "[]"] have c: "number_pair ?t ''client_port='' = Some (int (unat p), int (unat q))"
    by (simp add: client_transport_def)
  have "CHR ''s'' \<notin> set ?tail" by (auto simp: isdigit_def less_eq_char_def dest: show_nat_set)
  from find_skip [OF this, of "[]" "''erver_port=''"] have "find ?tail ''server_port='' = None"
    by (simp add: find_Nil)
  then have s: "number_pair ?t ''server_port='' = None"
    by (simp add: number_pair_def client_transport_def find_step)
  show ?thesis using u c s assms by (simp add: parseTransport_def Let_def)
qed

section \<open>The server's answer to SETUP\<close>

text \<open>A session name as the server makes them: hexadecimal digits and a dash.\<close>

definition plain_sid :: "string \<Rightarrow> bool" where
  "plain_sid sid \<longleftrightarrow> sid \<noteq> [] \<and> length sid \<le> 63 \<and> list_all (\<lambda>c. hex_char c \<or> c = CHR ''-'') sid"

lemma plain_sid_char: "hex_char c \<or> c = CHR ''-'' \<Longrightarrow>
    c \<noteq> CHR 0x0D \<and> c \<noteq> CHR '';'' \<and> \<not> isspace c \<and> tolower c = c \<and> c \<noteq> CHR ''s'' \<and> c \<noteq> CHR ''i'' \<and> c \<noteq> CHR '' ''"
proof -
  have "list_all (\<lambda>c. c \<noteq> CHR 0x0D \<and> c \<noteq> CHR '';'' \<and> \<not> isspace c \<and> tolower c = c \<and> c \<noteq> CHR ''s'' \<and> c \<noteq> CHR ''i'' \<and> c \<noteq> CHR '' '')
      ''0123456789abcdef-''" by code_simp
  then show "hex_char c \<or> c = CHR ''-'' \<Longrightarrow> ?thesis" by (auto simp: list_all_iff hex_char_def)
qed

lemma generated_sid: "time < 2 ^ 64 \<Longrightarrow> plain_sid (fst (generateSessionId time m))"
proof -
  assume t: "time < 2 ^ 64"
  have len: "length (show_hex n) \<le> k" if "n < 16 ^ k" "0 < k" for n k
    using that
  proof (induction n arbitrary: k rule: show_hex.induct)
    case (1 n)
    show ?case
    proof (cases "n < 16")
      case True
      then show ?thesis using 1(3) by (subst show_hex.simps) (simp add: Let_def)
    next
      case False
      then have k: "1 < k" using 1(2) by (cases k; cases "k = 1") auto
      have "n div 16 < 16 ^ (k - 1)" using 1(2) k by (cases k) (auto simp: less_mult_imp_div_less mult.commute)
      then have "length (show_hex (n div 16)) \<le> k - 1" using 1(1) [OF refl False] k by simp
      then show ?thesis using False k by (subst show_hex.simps) (simp add: Let_def)
    qed
  qed
  have "length (show_hex time) \<le> 16" using t by (intro len) simp_all
  moreover have "unat (sessionCounter m + 1) < 16 ^ 8" using unsigned_less [of "sessionCounter m + 1", where ?'a = nat] by simp
  then have "length (show_hex (unat (sessionCounter m + 1))) \<le> 8" by (intro len) simp_all
  moreover have "list_all (\<lambda>c. hex_char c \<or> c = CHR ''-'') (show_hex n)" for n
    using show_hex_val [of n] by (auto simp: list_all_iff)
  ultimately show ?thesis by (simp add: plain_sid_def generateSessionId_def Let_def)
qed

lemma show_int_set: "c \<in> set (show_int k) \<Longrightarrow> isdigit c \<or> c = CHR ''-''"
  by (auto simp: show_int_def dest: show_nat_set split: if_splits)

lemma tolower_id: "(\<And>c. c \<in> set s \<Longrightarrow> tolower c = c) \<Longrightarrow> map tolower s = s"
  by (simp add: map_idI)

lemma lower_show: "map tolower (show_nat n) = show_nat n" "map tolower (show_int k) = show_int k"
proof -
  have dash: "tolower (CHR ''-'') = CHR ''-''" by code_simp
  show "map tolower (show_nat n) = show_nat n" using show_nat_set isdigit_char by (intro tolower_id) blast
  show "map tolower (show_int k) = show_int k" using show_int_set isdigit_char dash by (intro tolower_id) metis
qed

lemma no_s: "CHR ''s'' \<notin> set (show_nat n)" "CHR ''s'' \<notin> set (show_int k)"
  by (auto simp: isdigit_def less_eq_char_def dest!: show_nat_set show_int_set)

lemma lower_sid: "plain_sid sid \<Longrightarrow> map tolower sid = sid \<and> CHR ''s'' \<notin> set sid"
  using plain_sid_char by (auto simp: plain_sid_def list_all_iff intro!: tolower_id)

definition setup_response :: "string \<Rightarrow> string \<Rightarrow> int \<Rightarrow> string" where
  "setup_response tr sid cq =
     response_text 200 ''OK'' (omap_insert ''Session'' (sid @ '';timeout=60'') (omap_insert ''Transport'' tr [])) cq"

definition head_part :: "int \<Rightarrow> string" where
  "head_part cq = ''RTSP/1.0 200 OK'' @ crlf @ ''CSeq: '' @ show_int cq @ crlf @ ''Server: RTSP Server/1.0'' @ crlf"

lemma setup_response_parts:
  "setup_response tr sid cq = head_part cq @ ''Session: '' @ sid @ '';timeout=60'' @ crlf @ ''Transport: '' @ tr @ crlf @ crlf"
proof -
  have s: "show_int 200 = ''200''" by code_simp
  have "omap_insert ''Session'' v (omap_insert ''Transport'' tr []) = [(''Session'', v), (''Transport'', tr)]" for v
    by simp
  then show ?thesis by (simp only: setup_response_def response_text_def s head_part_def) simp
qed

lemma lower_head: "map tolower (head_part cq) =
  ''rtsp/1.0 200 ok'' @ crlf @ ''cseq: '' @ show_int cq @ crlf @ ''server: rtsp server/1.0'' @ crlf"
proof -
  have "map tolower ''RTSP/1.0 200 OK'' = ''rtsp/1.0 200 ok''" "map tolower ''CSeq: '' = ''cseq: ''" "map tolower crlf = crlf"
    "map tolower ''Server: RTSP Server/1.0'' = ''server: rtsp server/1.0''" by code_simp+
  then show ?thesis unfolding head_part_def by (simp only: map_append lower_show)
qed

lemma head_skip:
  assumes "pat = ''session:'' \<or> pat = ''server_port=''"
  shows "find (map tolower (head_part cq) @ t) pat = map_option ((+) (length (head_part cq))) (find t pat)"
proof -
  obtain p where p: "pat = CHR ''s'' # p" using assms by auto
  have tail: "find (crlf @ ''server: rtsp server/1.0'' @ crlf @ t) pat = map_option ((+) 27) (find t pat)"
    using assms by (cases "find t pat") (auto simp: find_step)
  have mid: "find (show_int cq @ u) pat = map_option ((+) (length (show_int cq))) (find u pat)" for u
    unfolding p by (rule find_skip [OF no_s(2)])
  have first: "find (''rtsp/1.0 200 ok'' @ crlf @ ''cseq: '' @ u) pat = map_option ((+) 23) (find u pat)" for u
    using assms by (cases "find u pat") (auto simp: find_step)
  have "find (map tolower (head_part cq) @ t) pat = map_option ((+) (50 + length (show_int cq))) (find t pat)"
    unfolding lower_head append_assoc first mid tail by (cases "find t pat") simp_all
  moreover have "length (head_part cq) = 50 + length (show_int cq)" by (simp add: head_part_def)
  ultimately show ?thesis by simp
qed

lemma response_skip:
  "map tolower (setup_response tr sid cq) = map tolower (head_part cq) @ ''session: '' @ map tolower sid @
     '';timeout=60'' @ crlf @ ''transport: '' @ map tolower tr @ crlf @ crlf"
proof -
  have "map tolower ''Session: '' = ''session: ''" "map tolower '';timeout=60'' = '';timeout=60''"
    "map tolower crlf = crlf" "map tolower ''Transport: '' = ''transport: ''" by code_simp+
  then show ?thesis unfolding setup_response_parts by (simp only: map_append)
qed

lemma session_name_response:
  assumes "plain_sid sid"
  shows "session_name (setup_response tr sid cq) = sid"
proof -
  have pat: "map tolower ''Session:'' = ''session:''" by code_simp
  let ?t = "sid @ '';timeout=60'' @ crlf @ ''Transport: '' @ tr @ crlf @ crlf"
  have "find (''session: '' @ u) ''session:'' = Some 0" for u
    using find_here [of "''session:''" "'' '' @ u"] by simp
  then have f: "strcasestr (setup_response tr sid cq) ''Session:'' = Some (length (head_part cq))"
    unfolding strcasestr_def pat response_skip by (subst head_skip) simp_all
  have d: "drop (length (head_part cq) + 8) (setup_response tr sid cq) = CHR '' '' # ?t"
    unfolding setup_response_parts by simp
  have c: "\<forall>c \<in> set sid. c \<noteq> CHR 0x0D \<and> c \<noteq> CHR '';'' \<and> \<not> isspace c \<and> c \<noteq> CHR '' ''"
    using assms plain_sid_char by (auto simp: plain_sid_def list_all_iff)
  have "sid \<noteq> []" "length sid \<le> 63" using assms by (simp_all add: plain_sid_def)
  then have "dropWhile (\<lambda>c. c = CHR '' '') (CHR '' '' # ?t) = ?t" using c by (cases sid) simp_all
  moreover have "takeWhile (\<lambda>c. c \<noteq> CHR 0x0D \<and> c \<noteq> CHR '';'' \<and> \<not> isspace c) ?t = sid"
    using c by (simp add: takeWhile_append2)
  ultimately show ?thesis using \<open>length sid \<le> 63\<close> by (simp add: session_name_def f d)
qed

lemma after_session:
  assumes "plain_sid sid"
  shows "find (''session: '' @ sid @ '';timeout=60'' @ crlf @ ''transport: '' @ u) ''server_port='' =
    map_option ((+) (33 + length sid)) (find u ''server_port='')"
proof -
  have sid: "CHR ''s'' \<notin> set sid" using lower_sid [OF assms] by simp
  have 1: "find (''session: '' @ v) ''server_port='' = map_option ((+) 9) (find v ''server_port='')" for v
    by (cases "find v ''server_port=''") (auto simp: find_step)
  have 2: "find ('';timeout=60'' @ crlf @ ''transport: '' @ u) ''server_port='' = map_option ((+) 24) (find u ''server_port='')"
    by (cases "find u ''server_port=''") (auto simp: find_step)
  show ?thesis
    unfolding 1 find_skip [OF sid] 2 by (cases "find u ''server_port=''") simp_all
qed

lemma two_numbers_ports:
  assumes "\<not> isdigit c"
  shows "two_numbers (show_nat (unat (a :: u16)) @ CHR ''-'' # show_nat (unat (b :: u16)) @ c # rest) d = (a, b)"
proof -
  have lt: "unat w < 2 ^ 63" for w :: u16 using unsigned_less [of w, where ?'a = nat] by simp
  have w: "word_of_int (int (unat w)) = w" for w :: u16 by simp
  have nd: "\<not> isdigit (CHR ''-'')" by code_simp
  have "dropWhile (\<lambda>x. x \<noteq> CHR ''-'') (show_nat (unat a) @ CHR ''-'' # show_nat (unat b) @ c # rest) =
      CHR ''-'' # show_nat (unat b) @ c # rest"
    using not_digit [OF nd, of "unat a"] by (subst dropWhile_append2) auto
  then have s: "strchr (show_nat (unat a) @ CHR ''-'' # show_nat (unat b) @ c # rest) (CHR ''-'') =
      Some (CHR ''-'' # show_nat (unat b) @ c # rest)" by (simp add: strchr_def)
  show ?thesis
    using strtol_show_nat [OF _ lt, of "CHR ''-'' # show_nat (unat b) @ c # rest" a] strtol_show_nat [OF _ lt, of "c # rest" b] assms nd
    by (simp add: two_numbers_def s w del: word_of_int_uint)
qed

lemma setup_answer_read:
  assumes "plain_sid sid"
  shows "rtsp_parse_setup_response (setup_response (udp_transport t rtp rtcp) sid cq) s =
    (0, s\<lparr>server_rtp_port := rtp, server_rtcp_port := rtcp, rtpChannel := 0, rtcpChannel := 0,
          transType := ''udp'', session_id := sid\<rparr>)"
proof -
  let ?R = "setup_response (udp_transport t rtp rtcp) sid cq"
  let ?A = "''RTP/AVP/UDP;unicast;client_port=''" and ?B = "show_nat (unat (clientRtpPort t))"
    and ?C = "show_nat (unat (clientRtcpPort t))" and ?D = "show_nat (unat rtp) @ ''-'' @ show_nat (unat rtcp)"
  have tr: "udp_transport t rtp rtcp = ?A @ ?B @ ''-'' @ ?C @ '';server_port='' @ ?D"
    by (simp add: udp_transport_def)
  have low: "map tolower ?A = ''rtp/avp/udp;unicast;client_port=''" "map tolower ''-'' = ''-''"
    "map tolower '';server_port='' = '';server_port=''" "map tolower ''server_port='' = ''server_port=''" by code_simp+
  have ltr: "map tolower (udp_transport t rtp rtcp) = ''rtp/avp/udp;unicast;client_port='' @ ?B @ ''-'' @ ?C @ '';server_port='' @ ?D"
    unfolding tr by (simp only: map_append low lower_show)
  have dash: "find (''-'' @ u) ''server_port='' = map_option ((+) 1) (find u ''server_port='')" for u
    by (cases "find u ''server_port=''") (auto simp: find_step)
  have A: "find (''rtp/avp/udp;unicast;client_port='' @ u) ''server_port='' = map_option ((+) 32) (find u ''server_port='')" for u
    by (cases "find u ''server_port=''") (auto simp: find_step)
  have S: "find ('';server_port='' @ u) ''server_port='' = Some 1" for u
    by (simp add: find_step)
  have "find (map tolower (udp_transport t rtp rtcp) @ v) ''server_port='' = Some (34 + length ?B + length ?C)" for v
    unfolding ltr append_assoc A find_skip [OF no_s(1)] dash S by simp
  then have f: "strcasestr ?R ''server_port='' = Some (length (head_part cq) + (33 + length sid) + (34 + length ?B + length ?C))"
    unfolding strcasestr_def low(4) response_skip using lower_sid [OF assms]
    by (subst head_skip) (simp_all add: after_session [OF assms, simplified])
  define front where "front = head_part cq @ ''Session: '' @ sid @ '';timeout=60'' @ crlf @ ''Transport: '' @
    ?A @ ?B @ ''-'' @ ?C @ '';server_port=''"
  have "?R = front @ ?D @ crlf @ crlf" unfolding setup_response_parts tr front_def by simp
  moreover have "length front = length (head_part cq) + (33 + length sid) + (34 + length ?B + length ?C) + 12"
    by (simp add: front_def)
  ultimately have "drop (length (head_part cq) + (33 + length sid) + (34 + length ?B + length ?C) + 12) ?R = ?D @ crlf @ crlf"
    by (metis append_eq_conv_conj)
  moreover have "\<not> isdigit (CHR 0x0D)" by code_simp
  ultimately show ?thesis
    using two_numbers_ports [of "CHR 0x0D" rtp rtcp "[LF] @ crlf" 0]
    by (simp add: rtsp_parse_setup_response_def f session_name_response [OF assms] Let_def)
qed

section \<open>Requests through the server's extraction\<close>

definition request_lines :: "string \<Rightarrow> string \<Rightarrow> (string \<times> string) list \<Rightarrow> string list" where
  "request_lines meth url hs = (meth @ '' '' @ url @ '' RTSP/1.0'') # map (\<lambda>(k, v). k @ '': '' @ v) hs"

lemma print_request_lines:
  "print_request meth url hs = concat (map (\<lambda>l. l @ crlf) (request_lines meth url hs)) @ crlf"
  unfolding print_request_def request_lines_def by (induction hs) auto

lemma request_lines_ok:
  assumes "word meth" and "word url" and "printable hs"
  shows "\<forall>l \<in> set (request_lines meth url hs). l \<noteq> [] \<and> LF \<notin> set l"
proof -
  have sp: "LF \<notin> set w" if "word w" for w using that by (auto simp: word_def list_all_iff isspace_def)
  have "LF \<notin> set (meth @ '' '' @ url @ '' RTSP/1.0'')" using sp [OF assms(1)] sp [OF assms(2)] by simp
  moreover have "k @ '': '' @ v \<noteq> [] \<and> LF \<notin> set (k @ '': '' @ v)" if "(k, v) \<in> set hs" for k v
    using assms(3) that by (auto simp: printable_def plain_key_def plain_value_def)
  ultimately show ?thesis by (auto simp: request_lines_def)
qed

lemma find_crlf_line: "LF \<notin> set l \<Longrightarrow> find (l @ crlf @ h) crlf = Some (length l)"
proof (induction l)
  case Nil
  then show ?case using find_here [of crlf h] by simp
next
  case (Cons x l)
  then have "take (length crlf) (x # l @ crlf @ h) \<noteq> crlf" by (cases l) auto
  then show ?case using Cons by (simp only: append_Cons find_Cons if_False) simp
qed

lemma content_length_shift: "content_length_loop (pre @ h) (length pre + p) = content_length_loop h p"
proof (induction h p rule: content_length_loop.induct)
  case (1 h p)
  let ?line = "take ((case find_from h crlf p of None \<Rightarrow> length h | Some e \<Rightarrow> e) - p) (drop p h)"
  show ?case
  proof (cases "p < length h \<and> \<not> iequals_prefix (dropWhile isspace ?line) ''content-length:''")
    case False
    then show ?thesis
      by (subst content_length_loop.simps, subst (2) content_length_loop.simps)
        (cases "find_from h crlf p"; auto simp: find_from_shift Let_def)
  next
    case True
    show ?thesis
    proof (cases "find_from h crlf p")
      case None
      then show ?thesis using True
        by (subst content_length_loop.simps, subst (2) content_length_loop.simps) (simp add: find_from_shift Let_def)
    next
      case (Some e)
      have "content_length_loop (pre @ h) (length pre + (e + 2)) = content_length_loop h (e + 2)"
        using 1 [OF _ refl refl refl _ Some] True Some by simp
      then show ?thesis using True Some
        by (subst content_length_loop.simps, subst (2) content_length_loop.simps) (simp add: find_from_shift Let_def add.assoc)
    qed
  qed
qed

lemma content_length_line:
  assumes "LF \<notin> set l" and "\<not> iequals_prefix (dropWhile isspace l) ''content-length:''"
  shows "content_length_loop (l @ crlf @ h) 0 = content_length_loop h 0"
proof -
  have "content_length_loop ((l @ crlf) @ h) (length (l @ crlf) + 0) = content_length_loop h 0"
    by (rule content_length_shift)
  then have s: "content_length_loop (l @ crlf @ h) (length l + 2) = content_length_loop h 0" by simp
  have p: "0 < length (l @ crlf @ h)" by simp
  have t: "take (length l - 0) (drop 0 (l @ crlf @ h)) = l" by simp
  show ?thesis
    by (subst content_length_loop.simps) (simp only: p find_crlf_line [OF assms(1)] option.case Let_def t assms(2) if_True if_False s)
qed

lemma content_length_none:
  assumes "\<forall>l \<in> set ls. LF \<notin> set l \<and> \<not> iequals_prefix (dropWhile isspace l) ''content-length:''"
  shows "content_length_loop (concat (map (\<lambda>l. l @ crlf) ls) @ crlf) 0 = 0"
  using assms
proof (induction ls)
  case Nil
  have "\<not> iequals_prefix (dropWhile isspace []) ''content-length:''" by (simp add: iequals_prefix_def)
  from content_length_line [OF _ this, of "[]"] show ?case by (simp add: content_length_loop.simps)
next
  case (Cons l ls)
  then show ?case using content_length_line [of l "concat (map (\<lambda>l. l @ crlf) ls) @ crlf"] by simp
qed

lemma request_extracted:
  assumes "word meth" and "word url" and "printable hs"
    and "\<forall>l \<in> set (request_lines meth url hs). \<not> iequals_prefix (dropWhile isspace l) ''content-length:''"
    and "text = print_request meth url hs" and "find (text @ rest) ''TEARDOWN'' = None" and "length (text @ rest) < 2 ^ 64"
  shows "tryExtractRtsp (text @ rest) = Inr (Some text, rest)"
proof -
  let ?ls = "request_lines meth url hs" and ?b = "concat (map (\<lambda>l. l @ crlf) (request_lines meth url hs))"
  have ok: "\<forall>l \<in> set ?ls. l \<noteq> [] \<and> LF \<notin> set l" using assms(1-3) by (rule request_lines_ok)
  have ne: "?ls \<noteq> []" "length ?b \<ge> 2" by (simp_all add: request_lines_def)
  have h: "find (text @ rest) head_end = Some (length ?b - 2)"
    using find_head_end_lines [OF ne(1) ok, of rest] by (simp add: assms(5) print_request_lines)
  have len: "length ?b - 2 + 4 = length text" using ne(2) by (simp add: assms(5) print_request_lines)
  have "content_length_loop (take (length ?b - 2 + 4) (text @ rest)) 0 = 0"
    unfolding len using content_length_none [of ?ls] ok assms(4) by (simp add: assms(5) print_request_lines)
  from tryExtractRtsp_complete [OF h assms(6) this] assms(7) show ?thesis unfolding len by simp
qed

text \<open>The request that tears down is found by its name.\<close>

lemma teardown_extracted:
  assumes "word url" and "printable hs"
    and "text = print_request ''TEARDOWN'' url hs" and "find (tl text) ''TEARDOWN'' = None"
  shows "tryExtractRtsp text = Inr (Some text, [])"
proof -
  let ?ls = "request_lines ''TEARDOWN'' url hs" and ?b = "concat (map (\<lambda>l. l @ crlf) (request_lines ''TEARDOWN'' url hs))"
  have w: "word ''TEARDOWN''" by code_simp
  have ok: "\<forall>l \<in> set ?ls. l \<noteq> [] \<and> LF \<notin> set l" using w assms(1,2) by (rule request_lines_ok)
  have ne: "?ls \<noteq> []" "length ?b \<ge> 2" by (simp_all add: request_lines_def)
  have h: "find text head_end = Some (length ?b - 2)"
    using find_head_end_lines [OF ne(1) ok, of "[]"] by (simp add: assms(3) print_request_lines)
  have len: "length ?b - 2 + 4 = length text" using ne(2) by (simp add: assms(3) print_request_lines)
  have t: "text = ''TEARDOWN'' @ drop 8 text" by (simp add: assms(3) print_request_def)
  have "rfind text ''TEARDOWN'' = Some 0"
  proof -
    have "find text ''TEARDOWN'' = Some 0" by (subst t) (rule find_here)
    then obtain i where i: "rfind text ''TEARDOWN'' = Some i" using rfind_None_iff [of "text" "''TEARDOWN''"] by auto
    from rfind_SomeD [OF i] have here:
      "i + length ''TEARDOWN'' \<le> length text" "take (length ''TEARDOWN'') (drop i text) = ''TEARDOWN''" by blast+
    have "i = 0"
    proof (rule ccontr)
      assume "i \<noteq> 0"
      then have "drop i text = drop (i - 1) (tl text)" by (cases i) (simp_all add: drop_Suc)
      moreover have "i - 1 + length ''TEARDOWN'' \<le> length (tl text)" using here(1) \<open>i \<noteq> 0\<close> by simp
      ultimately show False using find_from_None [OF assms(4), of "i - 1"] here(2) by simp
    qed
    with i show ?thesis by simp
  qed
  then show ?thesis using h len by (simp add: tryExtractRtsp_def Let_def)
qed

section \<open>The camera's requests in the server's parser\<close>

lemma atoi_show_int: "- (2 ^ 31) \<le> k \<Longrightarrow> k < 2 ^ 31 \<Longrightarrow> atoi (show_int k) = k"
proof -
  assume k: "- (2 ^ 31) \<le> k" "k < 2 ^ 31"
  show ?thesis
  proof (cases "k < 0")
    case False
    then have "nat k < 2 ^ 63" using k by simp
    from strtol_show_nat [of "[]", OF _ this] False k show ?thesis by (simp add: atoi_def show_int_def)
  next
    case True
    define d where "d = nat (- k)"
    have d: "int d = - k" "int d \<le> 2 ^ 31" using True k by (simp_all add: d_def)
    have "scan_int (CHR ''-'' # show_nat d) = (True, show_nat d)"
      by (simp add: scan_int_def isspace_def show_nat_takeWhile)
    then have "strtol (show_int k) = k"
      using True d show_nat_digits [of d] by (simp add: strtol_def show_int_def d_def [symmetric])
    then show ?thesis using k by (simp add: atoi_def)
  qed
qed

lemma plain_digits: "plain_value (show_nat n)" "plain_value (show_int k)"
proof -
  have b: "isdigit c \<or> c = CHR ''-'' \<Longrightarrow> c \<noteq> LF \<and> c \<notin> set blanks" for c
    by (auto simp: isdigit_def less_eq_char_def)
  have "plain_value v" if "\<forall>c \<in> set v. isdigit c \<or> c = CHR ''-''" for v
    using that b unfolding plain_value_def by (metis hd_in_set last_in_set)
  then show "plain_value (show_nat n)" "plain_value (show_int k)"
    using show_nat_set show_int_set by blast+
qed

lemma plain_sid_value: "plain_sid sid \<Longrightarrow> plain_value sid"
proof -
  assume "plain_sid sid"
  then have c: "\<forall>c \<in> set sid. \<not> isspace c" using plain_sid_char by (auto simp: plain_sid_def list_all_iff)
  then have "\<forall>c \<in> set sid. c \<noteq> LF \<and> c \<notin> set blanks" by (auto simp: isspace_def)
  then show ?thesis unfolding plain_value_def by (metis hd_in_set last_in_set)
qed

lemma plain_transport: "plain_value (client_transport p q)"
proof -
  have c: "\<forall>c \<in> set (client_transport p q). \<not> isspace c"
    using show_nat_set isdigit_char by (auto simp: client_transport_def isspace_def)
  then have "\<forall>c \<in> set (client_transport p q). c \<noteq> LF \<and> c \<notin> set blanks" by (auto simp: isspace_def)
  then show ?thesis unfolding plain_value_def by (metis hd_in_set last_in_set)
qed

lemma plain_keys: "plain_key ''CSeq''" "plain_key ''Transport''" "plain_key ''Session''" "plain_key ''User-Agent''"
  "plain_key ''KcpId''" "plain_value ''RTSP Client''" "word ''SETUP''" "word ''RECORD''" "word ''OPTIONS''" "word ''TEARDOWN''"
  by code_simp+

lemma lower_keys: "map tolower ''CSeq'' = ''cseq''" "map tolower ''Transport'' = ''transport''" "map tolower ''Session'' = ''session''"
  "map tolower ''User-Agent'' = ''user-agent''" "map tolower ''KcpId'' = ''kcpid''"
  by code_simp+

definition track_url :: "string \<Rightarrow> string" where
  "track_url url = take 511 (url @ ''/trackID=0'')"

lemma track_url_ok:
  assumes "word url" and "length url \<le> 255"
  shows "word (track_url url)" and "occurs (track_url url) ''trackID=0''"
proof -
  have t: "track_url url = url @ ''/trackID=0''" using assms(2) by (simp add: track_url_def)
  have "list_all (\<lambda>c. \<not> isspace c) ''/trackID=0''" by code_simp
  then show "word (track_url url)" using assms(1) unfolding t word_def by simp
  have "find (track_url url) ''trackID=0'' \<noteq> None"
    using find_from_None [of "track_url url" "''trackID=0''" 0 "length url + 1"] by (auto simp: t)
  then show "occurs (track_url url) ''trackID=0''" by (simp add: occurs_def)
qed

lemma parse_setup:
  assumes "word url" and "length url \<le> 255"
  shows "\<exists>hs. parseRequest_rtsp (setup_text url (client_transport p q) c) = Inr (''SETUP'', track_url url, hs) \<and>
    map_of hs ''cseq'' = Some (show_int (cseq c)) \<and> map_of hs ''transport'' = Some (client_transport p q)"
proof -
  let ?h = "[(''CSeq'', show_int (cseq c)), (''Transport'', client_transport p q), user_agent]"
  have "printable ?h" by (simp add: printable_def plain_keys plain_digits plain_transport)
  from parse_printed_request [OF plain_keys(7) track_url_ok(1) [OF assms] this] have
    1: "parseRequest_rtsp (setup_text url (client_transport p q) c) = Inr (''SETUP'', track_url url, headers_of ?h)"
    by (simp add: setup_text_def track_url_def)
  have d: "distinct (map (map tolower \<circ> fst) ?h)" by (simp add: lower_keys)
  show ?thesis
    using 1 lookup_headers_of [OF d, of "''CSeq''", unfolded lower_keys] lookup_headers_of [OF d, of "''Transport''", unfolded lower_keys] by simp
qed

lemma parse_record:
  assumes "word url" and "plain_sid (session_id c)"
  shows "\<exists>hs. parseRequest_rtsp (record_text url cv c) = Inr (''RECORD'', url, hs) \<and>
    map_of hs ''cseq'' = Some (show_int (cseq c)) \<and> map_of hs ''session'' = Some (session_id c) \<and>
    map_of hs ''kcpid'' = Some (show_int (sint cv))"
proof -
  let ?h = "[(''CSeq'', show_int (cseq c)), (''Session'', session_id c), user_agent, (''KcpId'', show_int (sint cv))]"
  have "printable ?h" by (simp add: printable_def plain_keys plain_digits plain_sid_value assms(2))
  from parse_printed_request [OF plain_keys(8) assms(1) this] have
    1: "parseRequest_rtsp (record_text url cv c) = Inr (''RECORD'', url, headers_of ?h)" by (simp add: record_text_def)
  have d: "distinct (map (map tolower \<circ> fst) ?h)" by (simp add: lower_keys)
  show ?thesis
    using 1 lookup_headers_of [OF d, of "''CSeq''", unfolded lower_keys] lookup_headers_of [OF d, of "''Session''", unfolded lower_keys]
      lookup_headers_of [OF d, of "''KcpId''", unfolded lower_keys] by simp
qed

section \<open>The handshake\<close>

text \<open>What the server keeps of a video track set up over UDP with ports of its own.\<close>

definition setup_server :: "int \<Rightarrow> u16 \<Rightarrow> server \<Rightarrow> server" where
  "setup_server fd p s =
     (let (port, m) = allocateUdpPorts (mgr s);
          u = \<lparr> udp_fd = fd, udp_local = \<lparr>addr_ip = rc_serverIp (rc s), addr_port = port\<rparr>,
                udp_peer = \<lparr>addr_ip = rc_clientIp (rc s), addr_port = p\<rparr>, udp_callback = False \<rparr>
      in s\<lparr>mgr := m, udpConns := omap_insert fd u (udpConns s),
           rc := (rc s)\<lparr>rc_session := (rc_session (rc s))\<lparr>transportType := ''UDP'', videoRtpConn := Some u\<rparr>,
                        rc_state := READY\<rparr>\<rparr>)"

lemma server_setup:
  assumes "word url" and "length url \<le> 255" and "0 < p" and "0 < q" and "- (2 ^ 31) \<le> cseq c" and "cseq c < 2 ^ 31"
    and port: "port = fst (allocateUdpPorts (mgr s))"
  shows "\<exists>t. handleRequest al n fd (setup_text url (client_transport p q) c) s =
    sendResponse 200 ''OK'' (omap_insert ''Session'' (sessionId (rc_session (rc s)) @ '';timeout=60'')
      (omap_insert ''Transport'' (udp_transport t port (port + 1)) [])) (cseq c) (setup_server fd p s)"
proof -
  obtain hs where hs: "parseRequest_rtsp (setup_text url (client_transport p q) c) = Inr (''SETUP'', track_url url, hs)"
    "map_of hs ''cseq'' = Some (show_int (cseq c))" "map_of hs ''transport'' = Some (client_transport p q)"
    using parse_setup [OF assms(1,2)] by blast
  have cq: "extractCSeq hs = cseq c" using hs(2) atoi_show_int [OF assms(5,6)] by (simp add: extractCSeq_def)
  let ?t = "\<lparr> tr_type = ''UDP'', clientRtpPort = p, clientRtcpPort = q, serverRtpPort = 0, serverRtcpPort = 0,
       tr_rtpChannel = 0, tr_rtcpChannel = 0 \<rparr>"
  obtain m where m: "allocateUdpPorts (mgr s) = (port, m)" by (metis port prod.collapse)
  show ?thesis
    by (rule exI [of _ ?t]) (simp add: handleRequest_def hs(1) cq handleSetup_def hs(3) parseTransport_client [OF assms(3,4)]
      setup_udp_def track_url_ok(2) [OF assms(1,2)] track_ports_def m setup_answer_def setup_server_def new_udp_def
      addUdpConnection_def Let_def)
qed

lemma initCamKcp_total:
  assumes "allocator_total al"
  shows "\<exists>kcp. initCamKcp al n cv r = Inr (r\<lparr>camKcp := Block kcp\<rparr>) \<and> conv kcp = cv"
  using assms
  by (auto simp: initCamKcp_def ikcp_create_def allocator_total_def kcp_config_def ikcp_setoutput_def ikcp_nodelay_def
      ikcp_wndsize_def ikcp_setmtu_def Let_def)

lemma server_record:
  assumes "allocator_total al" and "word url" and "session_id c = sessionId (rc_session (rc s))" and "plain_sid (session_id c)"
    and "- (2 ^ 31) \<le> cseq c" and "cseq c < 2 ^ 31"
    and "rc_state (rc s) = READY" and "videoRtpConn (rc_session (rc s)) = Some u" and "\<not> rc_kcpThread (rc s)"
  shows "\<exists>kcp s'. handleRequest al n fd (record_text url cv c) s =
      sendResponse 200 ''OK'' [(''Session'', session_id c)] (cseq c) s' \<and> conv kcp = cv \<and>
    camKcp (rc s') = Block kcp \<and> rc_state (rc s') = PLAYING \<and> kcpRunning (rc s') \<and>
    videoRtpConn (rc_session (rc s')) = Some (u\<lparr>udp_callback := True\<rparr>)"
proof -
  obtain hs where hs: "parseRequest_rtsp (record_text url cv c) = Inr (''RECORD'', url, hs)"
    "map_of hs ''cseq'' = Some (show_int (cseq c))" "map_of hs ''session'' = Some (session_id c)"
    "map_of hs ''kcpid'' = Some (show_int (sint cv))" using parse_record [OF assms(2,4)] by blast
  have cq: "extractCSeq hs = cseq c" using hs(2) atoi_show_int [OF assms(5,6)] by (simp add: extractCSeq_def)
  have v: "valid_session hs s"
    using hs(3) assms(3) find_here [of "session_id c" "[]"] by (simp add: valid_session_def occurs_def)
  obtain k where k: "stoul (show_int (sint cv)) = Inr k" "of_nat k = cv" using stoul_show_conv by blast
  obtain kcp where kcp: "initCamKcp al n cv (rc s) = Inr ((rc s)\<lparr>camKcp := Block kcp\<rparr>)" "conv kcp = cv"
    using initCamKcp_total [OF assms(1)] by blast
  have r: "record_kcp al n hs (rc s) = Inr ((rc s)\<lparr>camKcp := Block kcp\<rparr>)"
    by (simp add: record_kcp_def hs(4) k kcp)
  obtain us where st: "start_receiving al n hs s = Inr (s\<lparr>rc := (rc s)\<lparr>camKcp := Block kcp, kcpRunning := True, rc_kcpThread := True,
      rc_session := (rc_session (rc s))\<lparr>videoRtpConn := Some (u\<lparr>udp_callback := True\<rparr>)\<rparr>\<rparr>, udpConns := us\<rparr>)"
    using assms(8,9) by (simp add: start_receiving_def r Let_def)
  define s2 where "s2 = s\<lparr>udpConns := us, rc := (rc s)\<lparr>camKcp := Block kcp, kcpRunning := True, rc_kcpThread := True,
      rc_session := (rc_session (rc s))\<lparr>videoRtpConn := Some (u\<lparr>udp_callback := True\<rparr>)\<rparr>, rc_state := PLAYING\<rparr>\<rparr>"
  have "handleRequest al n fd (record_text url cv c) s = sendResponse 200 ''OK'' [(''Session'', session_id c)] (cseq c) s2"
    using assms(3,7) by (simp add: handleRequest_def hs(1) cq handleRecord_def v st Let_def s2_def)
  then show ?thesis using kcp(2) by (intro exI [of _ kcp] exI [of _ s2]) (simp add: s2_def)
qed

end
