(* ===== verification/Camera_Main.thy ===== *)
theory Camera_Main
  imports Wire
begin

text \<open>
  The camera program (\<^verbatim>\<open>rtsp_client.c\<close>): its options, the RTSP handshake, the main loop that drives KCP
  and watches both sockets, the streaming thread, and the way out. The options come as
  \<^verbatim>\<open>getopt_long\<close> gives them; the clock, what arrives on the sockets, the results of the devices and
  the encoder's output are arguments. The main loop and the streaming thread share the session
  under its mutex, so that each step here is atomic.
\<close>

section \<open>Options\<close>

record options =
  video_device :: string
  server_ip :: "string option"
  opt_transType :: string
  server_port :: int
  opt_url :: string
  opt_width :: int
  opt_height :: int
  opt_rtp_port :: u16
  opt_rtcp_port :: u16

definition default_options :: options where
  "default_options = \<lparr> video_device = ''/dev/video0'', server_ip = None, opt_transType = ''udp'', server_port = 8554,
     opt_url = ''/stream'', opt_width = 800, opt_height = 600, opt_rtp_port = 5004, opt_rtcp_port = 5005 \<rparr>"

text \<open>The result is the exit code when the program ends here.\<close>

fun parse_options :: "(char \<times> string) list \<Rightarrow> options \<Rightarrow> int + options" where
  "parse_options [] cfg = (if server_ip cfg = None then Inl (-1) else Inr cfg)"
| "parse_options ((c, arg) # opts) cfg =
     (if c = CHR ''d'' then parse_options opts (cfg\<lparr>video_device := arg\<rparr>)
      else if c = CHR ''s'' then parse_options opts (cfg\<lparr>server_ip := Some arg\<rparr>)
      else if c = CHR ''p'' then parse_options opts (cfg\<lparr>server_port := atoi arg\<rparr>)
      else if c = CHR ''u'' then parse_options opts (cfg\<lparr>opt_url := arg\<rparr>)
      else if c = CHR ''w'' then parse_options opts (cfg\<lparr>opt_width := atoi arg\<rparr>)
      else if c = CHR ''h'' then parse_options opts (cfg\<lparr>opt_height := atoi arg\<rparr>)
      else if c = CHR ''r'' then
        let p = word_of_int (atoi arg)
        in parse_options opts (cfg\<lparr>opt_rtp_port := p, opt_rtcp_port := p + 1\<rparr>)
      else if c = CHR ''t'' then parse_options opts (cfg\<lparr>opt_transType := take 7 arg\<rparr>)
      else if c = CHR ''?'' then Inl 0
      else Inl (-1))"

definition rtsp_url :: "options \<Rightarrow> string" where
  "rtsp_url cfg =
     take 255 (''rtsp://'' @ (case server_ip cfg of None \<Rightarrow> [] | Some ip \<Rightarrow> ip) @ '':'' @ show_int (server_port cfg) @ opt_url cfg)"

definition main_transport :: "options \<Rightarrow> string" where
  "main_transport cfg =
     (if opt_transType cfg = ''tcp'' then ''RTP/AVP/TCP;unicast;interleaved=0-1''
      else client_transport (opt_rtp_port cfg) (opt_rtcp_port cfg))"

definition sdp_text :: string where
  "sdp_text = ''v=0'' @ crlf @ ''o=- 0 0 IN IP4 0.0.0.0'' @ crlf @ ''s=RTSP Push'' @ crlf @ ''t=0 0'' @ crlf
     @ ''m=video 0 RTP/AVP 96'' @ crlf @ ''a=rtpmap:96 H264/90000'' @ crlf @ ''a=control:trackID=0'' @ crlf"

section \<open>The handshake\<close>

text \<open>
  One request and its response: \<^const>\<open>None\<close> when either failed. The list holds what the coming reads
  bring; a read with nothing to come blocks.
\<close>

definition ask :: "(rtsp_session \<Rightarrow> (int \<times> rtsp_session) res) \<Rightarrow> string option list \<Rightarrow> rtsp_session \<Rightarrow>
    (string option \<times> string option list \<times> rtsp_session) res" where
  "ask request arrivals s =
     rbind (request s) (\<lambda>(n, s).
       if n < 0 then Inr (None, arrivals, s)
       else case arrivals of
              [] \<Rightarrow> Inl Diverged
            | a # arrivals \<Rightarrow>
                (case rtsp_client_read_response s a 2048 of
                   (n, response) \<Rightarrow> Inr (if n \<le> 0 then None else Some response, arrivals, s)))"

text \<open>
  The handshake up to the point where streaming starts (\<^const>\<open>True\<close>) or the clean-up is entered.
  \<open>sockfd\<close> is the descriptor \<^verbatim>\<open>udp_init\<close> gives, or -1; \<open>r1\<close> and \<open>r2\<close> are the random numbers.
\<close>

definition handshake :: "allocator \<Rightarrow> nat \<Rightarrow> u32 \<Rightarrow> u32 \<Rightarrow> int \<Rightarrow> string \<Rightarrow> string \<Rightarrow> string option list \<Rightarrow> rtsp_session \<Rightarrow>
    (bool \<times> string option list \<times> rtsp_session) res" where
  "handshake al sizeof_cb r1 r2 sockfd url transport arrivals s =
     rbind (ask (rtsp_client_options url) arrivals s) (\<lambda>(r, arrivals, s).
     if r = None then Inr (False, arrivals, s) else
     rbind (ask (rtsp_client_announce url sdp_text) arrivals s) (\<lambda>(r, arrivals, s).
     if r = None then Inr (False, arrivals, s) else
     rbind (ask (rtsp_client_setup url transport) arrivals s) (\<lambda>(r, arrivals, s).
     case r of
       None \<Rightarrow> Inr (False, arrivals, s)
     | Some response \<Rightarrow>
         (case rtsp_parse_setup_response response s of
            (n, s) \<Rightarrow>
              if n < 0 then Inr (False, arrivals, s)
              else if sockfd < 0 then Inr (False, arrivals, s)
              else
                let s = s\<lparr>rtp_socket_fd := sockfd, sess_state := RTSP_STATE_READY\<rparr>
                in rbind (kcp_init al sizeof_cb r1 r2) (\<lambda>kcp.
                   rbind (ask (rtsp_client_record url) arrivals (s\<lparr>sess_kcp := Some kcp\<rparr>)) (\<lambda>(r, arrivals, s).
                   if r = None then Inr (False, arrivals, s)
                   else Inr (True, arrivals, s\<lparr>sess_state := RTSP_STATE_PLAYING\<rparr>)))))))"

text \<open>The way out: the session is torn down unless it never started, then everything is released.\<close>

definition main_cleanup :: "string \<Rightarrow> string option list \<Rightarrow> rtsp_session \<Rightarrow> rtsp_session res" where
  "main_cleanup url arrivals s =
     rbind (if sess_state s \<noteq> RTSP_STATE_INIT
            then rbind (rtsp_client_teardown url s) (\<lambda>(_, s). if arrivals = [] then Inl Diverged else Inr s)
            else Inr s) (\<lambda>s.
       let s = rtsp_session_cleanup s
       in rbind (ikcp_release (sess_kcp s)) (\<lambda>_. Inr s))"

section \<open>The main loop\<close>

text \<open>KCP is updated when its time has come; then the time to wait in \<^verbatim>\<open>select\<close>, in milliseconds.\<close>

definition drive_kcp :: "u32 \<Rightarrow> u32 \<Rightarrow> rtsp_session \<Rightarrow> (u32 \<times> rtsp_session) res" where
  "drive_kcp now next s =
     (if now \<ge> next then
        (case sess_kcp s of
           None \<Rightarrow> Inl Out_of_bounds
         | Some kcp \<Rightarrow>
             rbind (ikcp_update kcp now) (\<lambda>(kcp, outs).
               Inr (ikcp_check kcp now, kcp_output (s\<lparr>sess_kcp := Some kcp\<rparr>) outs)))
      else Inr (next, s))"

definition wait_time :: "u32 \<Rightarrow> u32 \<Rightarrow> nat" where
  "wait_time now next = (if next > now then min 1000 (unat (next - now)) else 1)"

text \<open>What comes on the control connection decides whether the loop goes on.\<close>

datatype control = Control string | Control_closed | Control_retry | Control_error

fun goes_on :: "control \<Rightarrow> bool" where
  "goes_on (Control response) \<longleftrightarrow> \<not> (occurs response ''TEARDOWN'' \<or> occurs response ''400'')"
| "goes_on Control_closed \<longleftrightarrow> False"
| "goes_on Control_retry \<longleftrightarrow> True"
| "goes_on Control_error \<longleftrightarrow> False"

text \<open>Every waiting datagram is given to KCP.\<close>

fun feed_kcp :: "allocator \<Rightarrow> bytes list \<Rightarrow> rtsp_session \<Rightarrow> rtsp_session res" where
  "feed_kcp al [] s = Inr s"
| "feed_kcp al (d # ds) s =
     (case sess_kcp s of
        None \<Rightarrow> Inl Out_of_bounds
      | Some kcp \<Rightarrow>
          (case ikcp_input al kcp (Some d) (int (length d)) of
             Inl e \<Rightarrow> Inl e
           | Inr (_, kcp) \<Rightarrow> feed_kcp al ds (s\<lparr>sess_kcp := Some kcp\<rparr>)))"

definition main_round :: "allocator \<Rightarrow> u32 \<Rightarrow> control option \<Rightarrow> bytes list \<Rightarrow> u32 \<times> rtsp_session \<Rightarrow> (bool \<times> u32 \<times> rtsp_session) res" where
  "main_round al now message datagrams st =
     rbind (drive_kcp now (fst st) (snd st)) (\<lambda>(next, s).
     rbind (feed_kcp al datagrams s) (\<lambda>s.
       Inr (case message of None \<Rightarrow> True | Some m \<Rightarrow> goes_on m, next, s)))"

section \<open>The streaming thread\<close>

text \<open>
  One turn of the thread while the session plays: no frame could be taken, or a frame with the
  encoder's output (empty when encoding failed). Every tenth frame the counter starts again.
\<close>

definition video_turn :: "allocator \<Rightarrow> bytes option \<Rightarrow> nat \<times> u32 \<times> rtsp_session \<Rightarrow> (nat \<times> u32 \<times> rtsp_session) res" where
  "video_turn al input st =
     (case st of (counter, ts, s) \<Rightarrow>
        case input of
          None \<Rightarrow> Inr st
        | Some h264 \<Rightarrow>
            let counter = (if counter + 1 \<ge> 10 then 0 else counter + 1)
            in if h264 = [] then Inr (counter, ts, s)
               else rbind (send_frame al h264 (ts, s)) (\<lambda>(ts, s). Inr (counter, ts, s)))"

fun video_stream_thread :: "allocator \<Rightarrow> bytes option list \<Rightarrow> nat \<times> u32 \<times> rtsp_session \<Rightarrow> (nat \<times> u32 \<times> rtsp_session) res" where
  "video_stream_thread al [] st = Inr st"
| "video_stream_thread al (i # is) st =
     (if sess_state (snd (snd st)) \<noteq> RTSP_STATE_PLAYING then Inr st
      else case video_turn al i st of Inl e \<Rightarrow> Inl e | Inr st \<Rightarrow> video_stream_thread al is st)"

end
