(* ===== verification/Camera_Machine.thy ===== *)
theory Camera_Machine
  imports Camera_Main
begin

text \<open>
  The running camera (\<^verbatim>\<open>rtsp_client.c\<close>, the main loop and the streaming thread between the handshake and
  the clean-up) as a machine of calls that interleave on one session: every sequence of rounds and
  turns whose guards hold ends without a fault.
\<close>

section \<open>The camera as a machine\<close>

text \<open>What the two threads do to the session between the handshake and the clean-up.\<close>

datatype camera_call = Round u32 "control option" "bytes list" | Turn "bytes option"

record camera =
  next_update :: u32
  frame_counter :: nat
  rtp_time :: u32
  cam_session :: rtsp_session

fun camera_step :: "allocator \<Rightarrow> camera_call \<Rightarrow> camera \<Rightarrow> (bool \<times> camera) res" where
  "camera_step al (Round now message datagrams) c =
     rbind (main_round al now message datagrams (next_update c, cam_session c)) (\<lambda>(go, next, s).
       Inr (go, c\<lparr>next_update := next, cam_session := s\<rparr>))"
| "camera_step al (Turn input) c =
     rbind (video_turn al input (frame_counter c, rtp_time c, cam_session c)) (\<lambda>(counter, ts, s).
       Inr (True, c\<lparr>frame_counter := counter, rtp_time := ts, cam_session := s\<rparr>))"

definition camera_inv :: "allocator \<Rightarrow> camera \<Rightarrow> bool" where
  "camera_inv al c \<longleftrightarrow> kcp_ready al (cam_session c) \<and> frame_counter c < 10"

fun camera_ok :: "camera_call \<Rightarrow> camera \<Rightarrow> bool" where
  "camera_ok (Round now message datagrams) c \<longleftrightarrow>
     (\<forall>d \<in> set datagrams. length d \<le> 2048) \<and>
     (case sess_kcp (cam_session c) of None \<Rightarrow> False
      | Some kcp \<Rightarrow> unat (ackcount kcp) + length (concat datagrams) < 2 ^ 31)"
| "camera_ok (Turn input) c \<longleftrightarrow> True"

lemma kcp_ready_set: "kcp_ready al s \<Longrightarrow> api_inv kcp \<Longrightarrow> kcp_ready al (s\<lparr>sess_kcp := Some kcp\<rparr>)"
  by (simp add: kcp_ready_def)

lemma feed_kcp_ok:
  assumes "allocator_sound al"
  shows "kcp_ready al s \<Longrightarrow> sess_kcp s = Some kcp \<Longrightarrow> \<forall>d \<in> set ds. length d \<le> 2048 \<Longrightarrow>
    unat (ackcount kcp) + length (concat ds) < 2 ^ 31 \<Longrightarrow> \<exists>s'. feed_kcp al ds s = Inr s' \<and> kcp_ready al s'"
proof (induction ds arbitrary: s kcp)
  case (Cons d ds)
  have k: "api_inv kcp" "allocator_total al" using Cons.prems(1,2) by (auto simp: kcp_ready_def)
  have "kcp_inv kcp" "length d \<le> 65535" "unat (ackcount kcp) + length d < 2 ^ 31"
    using k(1) Cons.prems(3,4) by (auto simp: api_inv_def)
  from input_safe [OF this(1) assms k(2) this(2,3)] obtain ret k1 where
    1: "ikcp_input al kcp (Some d) (int (length d)) = Inr (ret, k1)" "kcp_inv k1" "same_link kcp k1"
      "unat (ackcount k1) \<le> unat (ackcount kcp) + length d" by blast
  have "api_inv k1" using 1 k(1) Cons.prems(4) by (auto simp: api_inv_def same_link_def)
  then have "kcp_ready al (s\<lparr>sess_kcp := Some k1\<rparr>)" using Cons.prems(1) by (rule kcp_ready_set [rotated])
  moreover have "unat (ackcount k1) + length (concat ds) < 2 ^ 31" using 1(4) Cons.prems(4) by simp
  ultimately obtain s' where "feed_kcp al ds (s\<lparr>sess_kcp := Some k1\<rparr>) = Inr s'" "kcp_ready al s'"
    using Cons.IH [of "s\<lparr>sess_kcp := Some k1\<rparr>" k1] Cons.prems(3) by auto
  then show ?case using Cons.prems(2) 1(1) by simp
qed simp

lemma drive_kcp_ok:
  assumes "kcp_ready al s" and "sess_kcp s = Some kcp"
  shows "\<exists>next' s' kcp'. drive_kcp now next s = Inr (next', s') \<and> kcp_ready al s' \<and> sess_kcp s' = Some kcp' \<and>
    unat (ackcount kcp') \<le> unat (ackcount kcp)"
proof (cases "now \<ge> next")
  case False
  then show ?thesis using assms by (simp add: drive_kcp_def)
next
  case True
  have k: "api_inv kcp" using assms by (auto simp: kcp_ready_def)
  then obtain k1 outs where u: "ikcp_update kcp now = Inr (k1, outs)" "kcp_inv k1" "output_cb k1"
    "unat (ackcount k1) \<le> unat (ackcount kcp)"
    using update_safe [of kcp now] by (auto simp: api_inv_def)
  then have "api_inv k1" using k by (simp add: api_inv_def)
  then have "kcp_ready al (kcp_output (s\<lparr>sess_kcp := Some k1\<rparr>) outs)"
    using assms(1) by (simp add: kcp_ready_def kcp_output_def)
  then show ?thesis using True assms(2) u by (simp add: drive_kcp_def kcp_output_def)
qed

lemma send_frame_ready:
  assumes "kcp_ready al s"
  shows "\<exists>s'. send_frame al h264 (ts, s) = Inr (ts + 1500, s') \<and> kcp_ready al s'"
proof -
  let ?ns = "map (view h264) (split_annexb_nalus h264 32)"
  obtain s' where "put_all (put_packet al) (number_packets (ucast (rtp_seq s)) ts (rtp_ssrc s) (frame_payloads ?ns)) s = Inr s'"
    "kcp_ready al s'" using kcp_sink.put_all_ok [OF assms] by blast
  then show ?thesis by (simp add: send_frame_def send_nalus_packets kcp_ready_def)
qed

lemma camera_step_safe:
  assumes "allocator_sound al" and "camera_inv al c" and "camera_ok call c"
  shows "\<exists>x c'. camera_step al call c = Inr (x, c') \<and> camera_inv al c'"
proof (cases call)
  case (Round now message datagrams)
  have r: "kcp_ready al (cam_session c)" using assms(2) by (simp add: camera_inv_def)
  obtain kcp where k: "sess_kcp (cam_session c) = Some kcp" "unat (ackcount kcp) + length (concat datagrams) < 2 ^ 31"
    "\<forall>d \<in> set datagrams. length d \<le> 2048" using assms(3) Round by (auto split: option.splits)
  obtain nxt s1 k1 where 1: "drive_kcp now (next_update c) (cam_session c) = Inr (nxt, s1)" "kcp_ready al s1" "sess_kcp s1 = Some k1"
    "unat (ackcount k1) \<le> unat (ackcount kcp)" using drive_kcp_ok [OF r k(1)] by blast
  obtain s2 where 2: "feed_kcp al datagrams s1 = Inr s2" "kcp_ready al s2"
    using feed_kcp_ok [OF assms(1) 1(2,3) k(3)] 1(4) k(2) by auto
  then show ?thesis using 1(1) assms(2) Round by (simp add: main_round_def camera_inv_def)
next
  case (Turn input)
  have r: "kcp_ready al (cam_session c)" using assms(2) by (simp add: camera_inv_def)
  show ?thesis
  proof (cases input)
    case (Some h264)
    obtain s' where "send_frame al h264 (rtp_time c, cam_session c) = Inr (rtp_time c + 1500, s')" "kcp_ready al s'"
      using send_frame_ready [OF r] by blast
    then show ?thesis using assms(2) Turn Some by (auto simp: video_turn_def camera_inv_def Let_def)
  qed (use assms(2) Turn in \<open>auto simp: video_turn_def\<close>)
qed

definition cam_step :: "camera_call \<Rightarrow> allocator \<times> camera \<Rightarrow> (bool \<times> allocator \<times> camera) res" where
  "cam_step call st = rbind (camera_step (fst st) call (snd st)) (\<lambda>(x, c). Inr (x, fst st, c))"

interpretation camera: safe_machine cam_step "\<lambda>call st. camera_ok call (snd st)"
    "\<lambda>st. allocator_sound (fst st) \<and> camera_inv (fst st) (snd st)"
proof
  fix st :: "allocator \<times> camera" and call
  assume "allocator_sound (fst st) \<and> camera_inv (fst st) (snd st)" "camera_ok call (snd st)"
  then obtain x c' where "camera_step (fst st) call (snd st) = Inr (x, c')" "camera_inv (fst st) c'"
    using camera_step_safe [of "fst st" "snd st" call] by blast
  then show "\<exists>x st'. cam_step call st = Inr (x, st') \<and> allocator_sound (fst st') \<and> camera_inv (fst st') (snd st')"
    using \<open>allocator_sound (fst st) \<and> camera_inv (fst st) (snd st)\<close> by (simp add: cam_step_def)
qed

lemma wait_time_bounds: "1 \<le> wait_time now next \<and> wait_time now next \<le> 1000"
proof -
  have "0 < unat (next - now)" if "next > now" using that by (simp add: unat_gt_0)
  then show ?thesis by (auto simp: wait_time_def)
qed

end
