(* ===== verification/Player.thy ===== *)
theory Player
  imports Monitor Reassembler
begin

text \<open>
  The player's protocol (\<^verbatim>\<open>monitorclientwidget.cpp\<close>) and its use of KCP (\<^verbatim>\<open>kcphandler.cpp\<close>): the texts it
  exchanges with the monitor server over TCP, the streams it opens, and the datagrams of each stream
  on their way to the reassembler. \<^verbatim>\<open>QMap\<close> is a list in key order and a \<^verbatim>\<open>QString\<close> holds single bytes; the
  port a socket gets when it is bound is a parameter (\<open>os_port\<close>, by the number of the socket).
\<close>

section \<open>Qt's strings\<close>

definition trimmed :: "string \<Rightarrow> string" where
  "trimmed s = rev (dropWhile isspace (rev (dropWhile isspace s)))"

definition split_skip :: "char \<Rightarrow> string \<Rightarrow> string list" where
  "split_skip c s = filter (\<lambda>p. p \<noteq> []) (getparts c s)"

fun crlf_to_lf :: "string \<Rightarrow> string" where
  "crlf_to_lf (a # b # s) =
     (if a = CHR 0x0D \<and> b = CHR 0x0A then CHR 0x0A # crlf_to_lf s else a # crlf_to_lf (b # s))"
| "crlf_to_lf s = s"

text \<open>\<^verbatim>\<open>QString::toInt\<close> is 0 when the text is not a number or not one of an \<^verbatim>\<open>int\<close>.\<close>

definition toInt :: "string \<Rightarrow> int" where
  "toInt s =
     (let (neg, ds) = (case trimmed s of
             [] \<Rightarrow> (False, [])
           | c # cs \<Rightarrow> if c = CHR ''-'' then (True, cs) else if c = CHR ''+'' then (False, cs) else (False, c # cs));
          v = (if neg then -1 else 1) * int (digits_val ds)
      in if ds = [] \<or> \<not> list_all isdigit ds \<or> v < - (2 ^ 31) \<or> v \<ge> 2 ^ 31 then 0 else v)"

section \<open>The streams\<close>

record transUdpPort =
  udpRtpPort :: u16
  udpRtcpPort :: u16
  port_conv :: u32

text \<open>A handler with the name its socket's signal carries and the datagrams it sent.\<close>

record KcpHandler =
  streamName :: string
  kh_port :: u16
  kh_kcp :: "IKCPCB option"
  kh_sent :: "bytes list"

record player =
  camMap :: "(string \<times> transUdpPort) list"
  pl_buffer :: string
  pl_cseq :: int
  pl_conv :: u32
  handlers :: "KcpHandler list"
  sockets :: nat
  localAddress :: string
  localPort :: u16
  pl_sent :: "string list"

definition new_player :: "string \<Rightarrow> u16 \<Rightarrow> player" where
  "new_player ip port = \<lparr> camMap = [], pl_buffer = [], pl_cseq = 0, pl_conv = 1000, handlers = [], sockets = 0,
     localAddress = ip, localPort = port, pl_sent = [] \<rparr>"

definition initKcp :: "allocator \<Rightarrow> nat \<Rightarrow> u32 \<Rightarrow> IKCPCB res" where
  "initKcp al sizeof_cb cv = kcp_config al 256 (ikcp_create al sizeof_cb cv)"

definition add_stream :: "allocator \<Rightarrow> nat \<Rightarrow> (nat \<Rightarrow> u16) \<Rightarrow> string \<Rightarrow> player \<Rightarrow> player res" where
  "add_stream al sizeof_cb os_port name p =
     (let rtp = os_port (sockets p);
          rtcp = os_port (sockets p + 1);
          cv = pl_conv p + 1
      in rbind (initKcp al sizeof_cb cv) (\<lambda>kcp.
           Inr (p\<lparr>pl_conv := cv, sockets := sockets p + 2,
                  handlers := handlers p @ [\<lparr> streamName = name, kh_port = rtp, kh_kcp = Some kcp, kh_sent = [] \<rparr>],
                  camMap := omap_insert name \<lparr> udpRtpPort = rtp, udpRtcpPort = rtcp, port_conv = cv \<rparr> (camMap p)\<rparr>)))"

fun add_streams :: "allocator \<Rightarrow> nat \<Rightarrow> (nat \<Rightarrow> u16) \<Rightarrow> string list \<Rightarrow> player \<Rightarrow> player res" where
  "add_streams al sizeof_cb os_port [] p = Inr p"
| "add_streams al sizeof_cb os_port (name # names) p =
     rbind (add_stream al sizeof_cb os_port name p) (\<lambda>p. add_streams al sizeof_cb os_port names p)"

section \<open>Requests and answers\<close>

fun respond_headers :: "string list \<Rightarrow> headers \<Rightarrow> headers" where
  "respond_headers [] headers = headers"
| "respond_headers (l # ls) headers =
     (let line = trimmed l
      in respond_headers ls
           (case find line '':'' of
              None \<Rightarrow> headers
            | Some i \<Rightarrow> if i > 0 then omap_insert (trimmed (take i line)) (trimmed (drop (i + 1) line)) headers
                       else headers))"

definition parseRespond :: "string \<Rightarrow> string \<times> string \<times> headers" where
  "parseRespond request =
     (case split_skip (CHR 0x0A) (crlf_to_lf request) of
        [] \<Rightarrow> ([], [], [])
      | line # ls \<Rightarrow>
          (case split_skip (CHR '' '') (trimmed line) of
             w0 # w1 # _ \<Rightarrow> (w0, w1, respond_headers ls [])
           | _ \<Rightarrow> ([], [], [])))"

definition stream_line :: "string \<Rightarrow> u16 \<Rightarrow> u16 \<Rightarrow> u32 \<Rightarrow> string" where
  "stream_line name rtp rtcp cv =
     name @ '': '' @ show_nat (unat rtp) @ '' '' @ show_nat (unat rtcp) @ '' '' @ show_nat (unat cv) @ crlf"

definition local_name :: "player \<Rightarrow> string" where
  "local_name p = localAddress p @ '':'' @ show_nat (unat (localPort p))"

definition sendSetup :: "player \<Rightarrow> player" where
  "sendSetup p =
     (let c = pl_cseq p + 1
      in p\<lparr>pl_cseq := c,
           pl_sent := pl_sent p @ [''SETUP '' @ local_name p @ crlf @ ''Cseq: '' @ show_int c @ crlf @ crlf]\<rparr>)"

definition sendMessage :: "player \<Rightarrow> player" where
  "sendMessage p =
     (let c = pl_cseq p + 1
      in p\<lparr>pl_cseq := c,
           pl_sent := pl_sent p @ [''MESSAGE '' @ local_name p @ crlf @ ''Cseq: '' @ show_int c @ crlf
             @ concat (map (\<lambda>(name, u). stream_line name (udpRtpPort u) (udpRtcpPort u) (port_conv u)) (camMap p))
             @ crlf]\<rparr>)"

definition sendAddCamRespond :: "string \<Rightarrow> player \<Rightarrow> player" where
  "sendAddCamRespond name p =
     (let c = pl_cseq p + 1
      in p\<lparr>pl_cseq := c,
           pl_sent := pl_sent p @ [''ADDCAM '' @ local_name p @ crlf @ ''Cseq: '' @ show_int c @ crlf
             @ (case map_of (camMap p) name of
                  Some u \<Rightarrow> stream_line name (udpRtpPort u) (udpRtcpPort u) (pl_conv p)
                | None \<Rightarrow> [])
             @ crlf]\<rparr>)"

text \<open>
  Data from the server. Without the end of a message in the buffer the position is -1: the whole
  buffer is taken, and four characters are removed; otherwise five are removed behind the message.
\<close>

definition add_or_remove :: "allocator \<Rightarrow> nat \<Rightarrow> (nat \<Rightarrow> u16) \<Rightarrow> string \<Rightarrow> headers \<Rightarrow> player \<Rightarrow> player res" where
  "add_or_remove al sizeof_cb os_port meth headers p =
     (case map_of headers ''SessionId'' of
        None \<Rightarrow> Inr p
      | Some name \<Rightarrow>
          if meth = ''ADDCAM'' then
            rbind (add_stream al sizeof_cb os_port name p) (\<lambda>p. Inr (sendAddCamRespond name p))
          else if meth = ''DELCAM'' then Inr (p\<lparr>camMap := omap_erase name (camMap p)\<rparr>)
          else Inr p)"

definition onReadyRead :: "allocator \<Rightarrow> nat \<Rightarrow> (nat \<Rightarrow> u16) \<Rightarrow> string \<Rightarrow> player \<Rightarrow> player res" where
  "onReadyRead al sizeof_cb os_port got p =
     (let buf = pl_buffer p @ got;
          (request, rest) = (case find buf (crlf @ crlf) of
               Some e \<Rightarrow> (take e buf, drop (e + 5) buf)
             | None \<Rightarrow> (buf, drop 4 buf));
          p = p\<lparr>pl_buffer := rest\<rparr>;
          (meth, _, headers) = parseRespond request
      in case map_of headers ''CamNum'' of
           Some n \<Rightarrow>
             if n \<noteq> ''0'' then
               rbind (add_streams al sizeof_cb os_port
                   (map (\<lambda>i. case map_of headers (show_nat i) of Some name \<Rightarrow> name | None \<Rightarrow> []) [0..<nat (toInt n)]) p)
                 (\<lambda>p. Inr (sendMessage p))
             else add_or_remove al sizeof_cb os_port meth headers p
         | None \<Rightarrow> add_or_remove al sizeof_cb os_port meth headers p)"

section \<open>Receiving\<close>

lemma merge_loop_length: "length (snd (snd (snd (merge_loop out len k q)))) \<le> length q - 1"
proof (induction q arbitrary: out len k)
  case (Cons seg q)
  show ?case using order_trans [OF Cons.IH diff_le_self] by (simp add: Let_def)
qed simp

lemma merge_loop_shorter:
  "q \<noteq> [] \<Longrightarrow> merge_loop out len k q = (out', len', k', rest) \<Longrightarrow> length rest < length q"
  using merge_loop_length [of out len k q] by (cases q) auto

lemma move_loop_length:
  "length (rcv_queue (move_loop p kcp)) + length (rcv_buf (move_loop p kcp)) = length (rcv_queue kcp) + length p"
  by (induction p kcp rule: move_loop.induct) simp_all

lemma recv_shorter:
  assumes "ikcp_recv kcp len = Inr (hr, out, kcp')" and "hr > 0" and "len \<ge> 0"
  shows "length (rcv_queue kcp') + length (rcv_buf kcp') < length (rcv_queue kcp) + length (rcv_buf kcp)"
proof -
  obtain o1 t k rest where m: "merge_loop [] 0 0 (rcv_queue kcp) = (o1, t, k, rest)" using prod_cases4 by blast
  have q: "rcv_queue kcp \<noteq> []" using assms(1,2) by (auto simp: ikcp_recv_def Let_def)
  let ?k = "kcp\<lparr>rcv_queue := rest, nrcv_que := nrcv_que kcp - k\<rparr>"
  have "rcv_queue kcp' = rcv_queue (move_available ?k)" "rcv_buf kcp' = rcv_buf (move_available ?k)"
    using assms q m by (auto simp: ikcp_recv_def Let_def split: if_splits)
  moreover have "length (rcv_queue (move_available ?k)) + length (rcv_buf (move_available ?k)) =
      length rest + length (rcv_buf kcp)"
    unfolding move_available_def move_loop_length by simp
  ultimately show ?thesis using merge_loop_shorter [OF q m] by simp
qed

text \<open>\<^verbatim>\<open>handleKcpRecv\<close>: all messages that fit its buffer. Each one taken shortens the queues.\<close>

function handleKcpRecv :: "IKCPCB \<Rightarrow> (bytes list \<times> IKCPCB) res" where
  "handleKcpRecv kcp =
     (case ikcp_recv kcp 4096 of
        Inl f \<Rightarrow> Inl f
      | Inr (hr, out, kcp') \<Rightarrow>
          if hr > 0 then rbind (handleKcpRecv kcp') (\<lambda>(msgs, k). Inr (take (nat hr) out # msgs, k))
          else Inr ([], kcp'))"
  by pat_completeness auto
termination
  by (relation "measure (\<lambda>kcp. length (rcv_queue kcp) + length (rcv_buf kcp))") (auto dest: recv_shorter)

declare handleKcpRecv.simps [simp del]

text \<open>\<^verbatim>\<open>handleReadyRead\<close>: the pending datagrams, and what each completes goes to the reassembler.\<close>

fun handleReadyRead :: "allocator \<Rightarrow> bytes list \<Rightarrow> KcpHandler \<times> reassembler \<Rightarrow> (KcpHandler \<times> reassembler) res" where
  "handleReadyRead al [] (h, r) = Inr (h, r)"
| "handleReadyRead al (d # ds) (h, r) =
     (case kh_kcp h of
        None \<Rightarrow> Inr (h, r)
      | Some kcp \<Rightarrow>
          rbind (ikcp_input al kcp (Some d) (int (length d))) (\<lambda>(_, kcp).
            rbind (handleKcpRecv kcp) (\<lambda>(msgs, kcp).
              rbind (handle_all (streamName h) msgs r) (\<lambda>r.
                handleReadyRead al ds (h\<lparr>kh_kcp := Some kcp\<rparr>, r)))))"

text \<open>\<^verbatim>\<open>updateKcp\<close>: the clock is truncated to the 32 bits of \<^verbatim>\<open>ikcp_update\<close>.\<close>

definition updateKcp :: "nat \<Rightarrow> KcpHandler \<Rightarrow> KcpHandler res" where
  "updateKcp msecs h =
     (case kh_kcp h of
        None \<Rightarrow> Inr h
      | Some kcp \<Rightarrow>
          rbind (ikcp_update kcp (of_nat msecs)) (\<lambda>(kcp, outs).
            Inr (h\<lparr>kh_kcp := Some kcp, kh_sent := kh_sent h @ outs\<rparr>)))"

section \<open>The receive loop delivers all there is\<close>

definition arrived :: "IKCPCB \<Rightarrow> IKCPSEG list" where
  "arrived kcp = rcv_queue kcp @ rcv_buf kcp"

lemma arrived_move: "arrived (move_available kcp) = arrived kcp"
proof -
  have "rcv_queue (move_loop p k) @ rcv_buf (move_loop p k) = rcv_queue k @ p" for p k
    by (induction p k rule: move_loop.induct) simp_all
  then show ?thesis by (simp add: arrived_def move_available_def)
qed

lemma arrived_recv:
  assumes "rcv_inv kcp" and "ikcp_recv kcp 4096 = Inr (hr, out, kcp')"
  shows "payload (arrived kcp) = out @ payload (arrived kcp') \<and> set (arrived kcp') \<subseteq> set (arrived kcp) \<and>
    (hr > 0 \<longrightarrow> hr = int (length out)) \<and> (\<not> hr > 0 \<longrightarrow> out = [])"
proof -
  have drop: "arrived (after_recv kcp False) = later_msgs (rcv_queue kcp) @ rcv_buf kcp"
    using arrived_move [of "kcp\<lparr>rcv_queue := later_msgs (rcv_queue kcp),
      nrcv_que := nrcv_que kcp - of_nat (length (first_msg (rcv_queue kcp)))\<rparr>"]
    by (simp add: after_recv_def Let_def arrived_def)
  have split: "rcv_queue kcp = first_msg (rcv_queue kcp) @ later_msgs (rcv_queue kcp)" by (rule msg_split)
  have "arrived kcp = first_msg (rcv_queue kcp) @ arrived (after_recv kcp False)"
    by (simp only: drop append_assoc [symmetric] split [symmetric]) (simp only: arrived_def)
  then have "payload (arrived kcp) = payload (first_msg (rcv_queue kcp)) @ payload (arrived (after_recv kcp False))"
    "set (arrived (after_recv kcp False)) \<subseteq> set (arrived kcp)" by (simp_all add: payload_def)
  then show ?thesis
    using assms(2) unfolding recv_spec [OF assms(1)] Let_def by (auto split: if_splits)
qed

lemma handleKcpRecv_ok:
  assumes "api_inv kcp"
  shows "\<exists>msgs kcp'. handleKcpRecv kcp = Inr (msgs, kcp') \<and> api_inv kcp' \<and>
    payload (arrived kcp) = concat msgs @ payload (arrived kcp') \<and> [] \<notin> set msgs \<and>
    ((\<forall>s \<in> set (arrived kcp). seg_data s \<noteq> []) \<longrightarrow> msg_complete kcp' \<longrightarrow>
      length (payload (first_msg (rcv_queue kcp'))) > 4096)"
  using assms
proof (induction kcp rule: handleKcpRecv.induct)
  case (1 kcp)
  have r: "rcv_inv kcp" using 1(2) by (simp add: api_inv_def kcp_inv_def)
  obtain hr out kcp' where k: "ikcp_recv kcp 4096 = Inr (hr, out, kcp')" "api_inv kcp'"
    using recv_api [OF 1(2), of 4096] by blast
  have a: "payload (arrived kcp) = out @ payload (arrived kcp')" "set (arrived kcp') \<subseteq> set (arrived kcp)"
    "hr > 0 \<Longrightarrow> hr = int (length out)" "\<not> hr > 0 \<Longrightarrow> out = []" using arrived_recv [OF r k(1)] by blast+
  show ?case
  proof (cases "hr > 0")
    case True
    from 1(1) [OF k(1) refl refl True k(2)] obtain msgs k1 where "handleKcpRecv kcp' = Inr (msgs, k1)" "api_inv k1"
      "payload (arrived kcp') = concat msgs @ payload (arrived k1)" "[] \<notin> set msgs"
      "(\<forall>s \<in> set (arrived kcp'). seg_data s \<noteq> []) \<longrightarrow> msg_complete k1 \<longrightarrow>
        length (payload (first_msg (rcv_queue k1))) > 4096" by blast
    then show ?thesis using k True a by (subst handleKcpRecv.simps) auto
  next
    case False
    have "length (payload (first_msg (rcv_queue kcp'))) > 4096"
      if "\<forall>s \<in> set (arrived kcp). seg_data s \<noteq> []" "msg_complete kcp'"
    proof -
      have ne: "payload (first_msg q) \<noteq> []" if "q \<noteq> []" "\<forall>s \<in> set q. seg_data s \<noteq> []" for q
        using that by (cases q) (auto simp: payload_def)
      have "kcp' = kcp" "\<not> (rcv_queue kcp \<noteq> [] \<and> msg_complete kcp \<and> length (payload (first_msg (rcv_queue kcp))) \<le> 4096)"
        using k(1) False that(1) ne [of "rcv_queue kcp"] unfolding recv_spec [OF r] Let_def
        by (auto simp: arrived_def split: if_splits)
      moreover have "rcv_queue kcp' \<noteq> []" using that(2) by (auto simp: msg_complete_def)
      ultimately show ?thesis using that(2) by auto
    qed
    then show ?thesis using k False a by (subst handleKcpRecv.simps) auto
  qed
qed

end
