(* ===== verification/Player_Wire.thy ===== *)
theory Player_Wire
  imports Wire Player
begin

text \<open>
  The player and the monitor server read each other: the texts \<^verbatim>\<open>sendSetup\<close> and \<^verbatim>\<open>sendMessage\<close> build go
  through the server's buffer and parser, the server's answer through the player's.
\<close>

section \<open>Texts as lines\<close>

definition unlines :: "string list \<Rightarrow> string" where
  "unlines ls = concat (map (\<lambda>l. l @ crlf) ls) @ crlf"

abbreviation header_text :: "string \<times> string \<Rightarrow> string" where
  "header_text kv \<equiv> fst kv @ '': '' @ snd kv"

definition clean_line :: "string \<Rightarrow> bool" where
  "clean_line l \<longleftrightarrow> l \<noteq> [] \<and> CHR 0x0D \<notin> set l \<and> LF \<notin> set l"

text \<open>What is in front of the empty line: the lines without the last line's end.\<close>

definition joined :: "string list \<Rightarrow> string" where
  "joined ls = concat (map (\<lambda>l. l @ crlf) (butlast ls)) @ last ls"

lemma find_unlines:
  assumes "ls \<noteq> []" and "\<forall>l \<in> set ls. clean_line l"
  shows "find (unlines ls @ rest) head_end = Some (length (joined ls)) \<and> take (length (joined ls)) (unlines ls) = joined ls \<and>
    length (unlines ls) = length (joined ls) + 4"
proof -
  have u: "unlines ls = joined ls @ crlf @ crlf"
    by (subst append_butlast_last_id [OF assms(1), symmetric]) (simp add: unlines_def joined_def)
  have "\<forall>l \<in> set ls. l \<noteq> [] \<and> LF \<notin> set l" using assms(2) by (simp add: clean_line_def)
  from find_head_end_lines [OF assms(1) this, of rest]
  have "find (unlines ls @ rest) head_end = Some (length (concat (map (\<lambda>l. l @ crlf) ls)) - 2)" by (simp add: unlines_def)
  moreover have "length (concat (map (\<lambda>l. l @ crlf) ls)) + 2 = length (joined ls) + 4"
    using arg_cong [OF u, of length] by (simp add: unlines_def)
  ultimately show ?thesis using u by simp
qed

lemma getlines_joined:
  assumes "ls \<noteq> []" and "\<forall>l \<in> set ls. clean_line l"
  shows "getlines (joined ls) = map (\<lambda>l. l @ cr) (butlast ls) @ [last ls]"
  using assms
proof (induction ls)
  case (Cons l ls)
  have l: "clean_line l" using Cons.prems(2) by simp
  show ?case
  proof (cases "ls = []")
    case True
    then show ?thesis using l getparts_last [of LF l] by (simp add: joined_def clean_line_def)
  next
    case False
    have "LF \<notin> set (l @ cr)" using l by (simp add: clean_line_def)
    from getparts_append [OF this, of "joined ls"] Cons False show ?thesis by (simp add: joined_def)
  qed
qed simp

section \<open>The server's parser\<close>

lemma parse_header_text:
  assumes "plain_key k" and "plain_value v" and "set t \<subseteq> set cr"
  shows "parse_header 2 (header_text (k, v) @ t) h = Inr (omap_insert (map tolower k) v h)"
proof -
  define line where "line = header_text (k, v) @ t"
  have line: "line = k @ CHR '':'' # '' '' @ v @ t" by (simp add: line_def)
  have c: "find line '':'' = Some (length k)"
    unfolding line using assms(1) by (intro find_colon) (simp add: plain_key_def)
  have key: "trim_set blanks (take (length k) line) = k"
    using trim_set_strip [of "[]" blanks "[]" k] assms(1) by (simp add: line plain_key_def)
  have rest: "substr line (length k + 2) (length line) = Inr (v @ t)"
    by (simp add: line substr_def)
  have val: "trim_set blanks (v @ t) = v"
    using assms(2,3) trim_set_strip [of "[]" blanks t v] by (auto simp: plain_value_def)
  show ?thesis
    unfolding line_def [symmetric] parse_header_def c option.case rest rbind_simps Let_def key val ..
qed

lemma parse_header_texts:
  assumes "printable hs"
  shows "parse_headers 2 (map (\<lambda>kv. header_text kv @ cr) hs) h = Inr (fold (\<lambda>(k, v). omap_insert (map tolower k) v) hs h) \<and>
    parse_headers 2 (map (\<lambda>kv. header_text kv @ cr) hs @ [header_text e]) h =
      parse_headers 2 [header_text e] (fold (\<lambda>(k, v). omap_insert (map tolower k) v) hs h)"
  using assms
proof (induction hs arbitrary: h)
  case (Cons x hs)
  obtain k v where x: "x = (k, v)" by (cases x)
  have kv: "plain_key k" "plain_value v" "printable hs" using Cons.prems x by (auto simp: printable_def)
  have "header_text (k, v) @ cr \<noteq> cr" using kv(1) by (cases k; auto simp: plain_key_def)
  then show ?case using Cons.IH [OF kv(3)] parse_header_text [OF kv(1,2), of cr] by (simp add: x)
qed simp

lemma parse_headers_joined:
  assumes "printable hs" and "hs \<noteq> []"
  shows "parse_headers 2 (map (\<lambda>kv. header_text kv @ cr) (butlast hs) @ [header_text (last hs)]) [] = Inr (headers_of hs)"
proof -
  obtain k v where l: "last hs = (k, v)" by (cases "last hs")
  have hs: "hs = butlast hs @ [(k, v)]" using assms(2) l by (metis append_butlast_last_id)
  have "printable (butlast hs @ [(k, v)])" using assms(1) hs by simp
  then have p: "printable (butlast hs)" "plain_key k" "plain_value v" by (auto simp: printable_def)
  have ne: "header_text (k, v) \<noteq> []" "header_text (k, v) \<noteq> cr" using p(2) by (cases k; auto simp: plain_key_def)+
  have "headers_of hs = omap_insert (map tolower k) v (fold (\<lambda>(k, v). omap_insert (map tolower k) v) (butlast hs) [])"
    by (subst hs) (simp add: headers_of_def)
  then show ?thesis
    using parse_header_texts [OF p(1), of "[]" "(k, v)"] parse_header_text [OF p(2,3), of "[]"] ne by (simp add: l)
qed

lemma word_clean: "word w \<Longrightarrow> clean_line w"
  by (auto simp: word_def clean_line_def list_all_iff isspace_def)

lemma header_clean: "plain_key k \<Longrightarrow> CHR 0x0D \<notin> set k \<Longrightarrow> plain_value v \<Longrightarrow> CHR 0x0D \<notin> set v \<Longrightarrow> clean_line (header_text (k, v))"
  by (auto simp: clean_line_def plain_key_def plain_value_def)

lemma parse_player_request:
  assumes "word meth" and "word url" and "printable hs" and "hs \<noteq> []"
    and "\<forall>kv \<in> set hs. clean_line (header_text kv)"
  shows "parseRequest_monitor (joined ((meth @ '' '' @ url) # map header_text hs)) = Inr (meth, url, headers_of hs)"
proof -
  let ?line = "meth @ '' '' @ url" and ?ls = "(meth @ '' '' @ url) # map header_text hs"
  have "clean_line ?line" using word_clean [OF assms(1)] word_clean [OF assms(2)] by (simp add: clean_line_def)
  then have c: "\<forall>l \<in> set ?ls. clean_line l" using assms(5) by auto
  have "getlines (joined ?ls) = map (\<lambda>l. l @ cr) (butlast ?ls) @ [last ?ls]" using c by (intro getlines_joined) simp_all
  also have "\<dots> = (?line @ cr) # map (\<lambda>kv. header_text kv @ cr) (butlast hs) @ [header_text (last hs)]"
    using assms(4) by (simp add: map_butlast last_map comp_def)
  finally have lines: "getlines (joined ?ls) = \<dots>" .
  have w1: "next_word (?line @ cr) = (meth, '' '' @ url @ cr)"
    using next_word_word [OF assms(1), of "CHR '' ''" "url @ cr"] by simp
  have w2: "next_word ('' '' @ url @ cr) = (url, cr)"
    using next_word_word [OF assms(2), of "CHR 0x0D" "[]"] by (simp add: next_word_skip)
  show ?thesis
    unfolding parseRequest_monitor_def parse_request_def lines list.case w1 Let_def prod.case w2
      parse_headers_joined [OF assms(3,4)] by simp
qed

section \<open>A subscription\<close>

definition stream_value :: "u16 \<Rightarrow> u16 \<Rightarrow> u32 \<Rightarrow> string" where
  "stream_value a b cv = show_nat (unat a) @ '' '' @ show_nat (unat b) @ '' '' @ show_nat (unat cv)"

definition watches :: "string \<Rightarrow> transUdpPort \<Rightarrow> udpSession \<Rightarrow> bool" where
  "watches ip u s \<longleftrightarrow>
     videoUdpRtp s = \<lparr>addr_ip = ip, addr_port = udpRtpPort u\<rparr> \<and>
     videoUdpRtcp s = \<lparr>addr_ip = ip, addr_port = udpRtcpPort u\<rparr> \<and>
     udp_conv s = port_conv u \<and> kcp_runing s \<and> (\<exists>kcp. udp_ikcp s = Some kcp \<and> conv kcp = port_conv u)"

lemma mon_kcp_init_total: "allocator_total al \<Longrightarrow> \<exists>kcp. mon_kcp_init al n cv = Inr kcp \<and> conv kcp = cv"
  by (auto simp: mon_kcp_init_def ikcp_create_def allocator_total_def kcp_config_def ikcp_setoutput_def ikcp_nodelay_def
      ikcp_wndsize_def ikcp_setmtu_def Let_def)

lemma no_blank: "CHR '' '' \<notin> set (show_nat n)"
  by (rule not_digit) (simp add: isdigit_def less_eq_char_def)

lemma stoul_word: "stoul (show_nat (unat (w :: 'a :: len word))) = Inr (unat w)" if "LENGTH('a) \<le> 64"
proof (rule stoul_show_nat)
  have "unat w < 2 ^ LENGTH('a)" by (rule unsigned_less)
  also have "\<dots> \<le> 2 ^ 64" using that by (rule power_increasing) simp
  finally show "unat w < 2 ^ 64" .
qed

lemma add_session_stream:
  assumes "allocator_total al" and "map_of (sessionMap c) k = None"
  shows "\<exists>s. add_session al n (k, stream_value (udpRtpPort u) (udpRtcpPort u) (port_conv u)) c =
      Inr (c\<lparr>sessionMap := omap_insert k s (sessionMap c)\<rparr>) \<and> watches (clientIp c) u s"
proof -
  have ne: "show_nat m \<noteq> []" for m by (rule show_nat_ne)
  have parts: "getparts (CHR '' '') (stream_value (udpRtpPort u) (udpRtcpPort u) (port_conv u)) =
      [show_nat (unat (udpRtpPort u)), show_nat (unat (udpRtcpPort u)), show_nat (unat (port_conv u))]"
    by (simp add: stream_value_def getparts_append [OF no_blank] getparts_last [OF no_blank ne])
  obtain kcp where kcp: "mon_kcp_init al n (port_conv u) = Inr kcp" "conv kcp = port_conv u"
    using mon_kcp_init_total [OF assms(1)] by blast
  let ?s = "\<lparr> videoUdpRtp = \<lparr>addr_ip = clientIp c, addr_port = udpRtpPort u\<rparr>,
      videoUdpRtcp = \<lparr>addr_ip = clientIp c, addr_port = udpRtcpPort u\<rparr>,
      udp_ikcp = Some kcp, udp_conv = port_conv u, kcp_runing = True, kcpThread = True \<rparr>"
  show ?thesis
    using kcp assms(2) by (intro exI [of _ ?s]) (simp add: add_session_def parts stoul_word watches_def)
qed

lemma stream_value_inj:
  assumes "stream_value a b cv = stream_value a' b' cv'"
  shows "a = a' \<and> b = b' \<and> cv = cv'"
proof -
  have ne: "show_nat m \<noteq> []" for m by (rule show_nat_ne)
  have parts: "getparts (CHR '' '') (stream_value a b cv) = [show_nat (unat a), show_nat (unat b), show_nat (unat cv)]" for a b cv
    by (simp add: stream_value_def getparts_append [OF no_blank] getparts_last [OF no_blank ne])
  have inj: "m = n" if "show_nat m = show_nat n" for m n using show_nat_digits that by metis
  from parts [of a b cv] parts [of a' b' cv'] show ?thesis
    unfolding assms by (auto dest!: inj simp: word_unat_eq_iff)
qed

definition stream_header :: "string \<times> transUdpPort \<Rightarrow> string \<times> string" where
  "stream_header e = (fst e, stream_value (udpRtpPort (snd e)) (udpRtcpPort (snd e)) (port_conv (snd e)))"

lemma stream_header_inj: "stream_header e = stream_header e' \<longleftrightarrow> e = e'"
  using stream_value_inj by (cases e; cases e') (auto simp: stream_header_def)

lemma fst_stream_header [simp]: "fst (stream_header e) = fst e"
  by (simp add: stream_header_def)

lemma add_sessions_streams:
  assumes "allocator_total al"
  shows "distinct (map fst es) \<Longrightarrow> omap_ok (sessionMap c) \<Longrightarrow>
    \<forall>e \<in> set es. fst e \<noteq> ''cseq'' \<longrightarrow> map_of (sessionMap c) (fst e) = None \<and> (\<exists>u. e = stream_header (fst e, u)) \<Longrightarrow>
    \<exists>c'. add_sessions al n es c = Inr c' \<and> clientIp c' = clientIp c \<and> qt_buffer c' = qt_buffer c \<and>
      (\<forall>k. k \<notin> fst ` set es \<longrightarrow> map_of (sessionMap c') k = map_of (sessionMap c) k) \<and>
      (\<forall>k u. stream_header (k, u) \<in> set es \<longrightarrow> k \<noteq> ''cseq'' \<longrightarrow>
        (\<exists>s. map_of (sessionMap c') k = Some s \<and> watches (clientIp c) u s))"
proof (induction es arbitrary: c)
  case (Cons e es)
  have d: "distinct (map fst es)" "fst e \<notin> fst ` set es" using Cons.prems(1) by simp_all
  show ?case
  proof (cases "fst e = ''cseq''")
    case True
    have "\<forall>e \<in> set es. fst e \<noteq> ''cseq'' \<longrightarrow> map_of (sessionMap c) (fst e) = None \<and> (\<exists>u. e = stream_header (fst e, u))"
      using Cons.prems(3) by simp
    from Cons.IH [OF d(1) Cons.prems(2) this] obtain c' where c': "add_sessions al n es c = Inr c'" "clientIp c' = clientIp c \<and> qt_buffer c' = qt_buffer c"
      "\<forall>k. k \<notin> fst ` set es \<longrightarrow> map_of (sessionMap c') k = map_of (sessionMap c) k"
      "\<forall>k u. stream_header (k, u) \<in> set es \<longrightarrow> k \<noteq> ''cseq'' \<longrightarrow>
        (\<exists>s. map_of (sessionMap c') k = Some s \<and> watches (clientIp c) u s)" by blast
    have "stream_header (k, u) \<noteq> e" if "k \<noteq> ''cseq''" for k u
      using True that by (auto simp: stream_header_def)
    then show ?thesis using c' True by (intro exI [of _ c']) auto
  next
    case False
    define k where "k = fst e"
    obtain u where u: "e = stream_header (k, u)" "map_of (sessionMap c) k = None"
      using Cons.prems(3) False by (auto simp: k_def)
    obtain s where s: "add_session al n e c = Inr (c\<lparr>sessionMap := omap_insert k s (sessionMap c)\<rparr>)"
      "watches (clientIp c) u s" using add_session_stream [OF assms u(2), of n u] by (auto simp: u(1) stream_header_def)
    define c1 where "c1 = c\<lparr>sessionMap := omap_insert k s (sessionMap c)\<rparr>"
    have l: "map_of (sessionMap c1) = (map_of (sessionMap c))(k \<mapsto> s)" "clientIp c1 = clientIp c" "omap_ok (sessionMap c1)"
      using Cons.prems(2) by (simp_all add: lookup_omap_insert omap_ok_insert c1_def)
    have kn: "k \<notin> fst ` set es" using d(2) by (simp add: k_def)
    have "\<forall>e \<in> set es. fst e \<noteq> ''cseq'' \<longrightarrow> map_of (sessionMap c1) (fst e) = None \<and> (\<exists>u. e = stream_header (fst e, u))"
      using Cons.prems(3) kn unfolding l by (metis fun_upd_other image_eqI list.set_intros(2))
    from Cons.IH [OF d(1) l(3) this] obtain c' where c': "add_sessions al n es c1 = Inr c'" "clientIp c' = clientIp c \<and> qt_buffer c' = qt_buffer c1"
      "\<forall>k. k \<notin> fst ` set es \<longrightarrow> map_of (sessionMap c') k = map_of (sessionMap c1) k"
      "\<forall>k u. stream_header (k, u) \<in> set es \<longrightarrow> k \<noteq> ''cseq'' \<longrightarrow>
        (\<exists>s. map_of (sessionMap c') k = Some s \<and> watches (clientIp c) u s)"
      unfolding l(2) by blast
    have ks: "map_of (sessionMap c') k = Some s" using c'(3) kn unfolding l by simp
    have "add_sessions al n (e # es) c = Inr c'" using c'(1) s(1) False by (simp add: c1_def)
    moreover have "map_of (sessionMap c') k' = map_of (sessionMap c) k'" if "k' \<notin> fst ` set (e # es)" for k'
    proof -
      have "k' \<noteq> k" "k' \<notin> fst ` set es" using that by (simp_all add: k_def)
      then show ?thesis using c'(3) unfolding l by simp
    qed
    moreover have "\<exists>s. map_of (sessionMap c') k' = Some s \<and> watches (clientIp c) u' s"
      if "stream_header (k', u') \<in> set (e # es)" "k' \<noteq> ''cseq''" for k' u'
    proof (cases "stream_header (k', u') = e")
      case True
      then have "k' = k \<and> u' = u" using stream_header_inj [of "(k', u')" "(k, u)"] by (simp add: u(1))
      then show ?thesis using ks s(2) by simp
    next
      case False
      then have "stream_header (k', u') \<in> set es" using that(1) by (metis set_ConsD)
      then show ?thesis using c'(4) that(2) by blast
    qed
    moreover have "qt_buffer c1 = qt_buffer c" by (simp add: c1_def)
    ultimately show ?thesis using c'(2) by auto
  qed
qed simp

section \<open>The player's requests at the server\<close>

lemma client_request:
  assumes "map_of (qtClients m) fd = Some client" and "qt_buffer client = []"
    and "text = unlines ((meth @ '' '' @ url) # map header_text hs)" and "length text \<le> 256"
    and "word meth" and "word url" and "printable hs" and "hs \<noteq> []" and "\<forall>kv \<in> set hs. clean_line (header_text kv)"
    and "c = client\<lparr>qt_buffer := [], Cseq := Cseq client + 1\<rparr>"
    and "m1 = m\<lparr>qtClients := omap_insert fd c (qtClients m)\<rparr>"
  shows "client_data al n fd (Data text) m =
    (if meth = ''SETUP'' then Inr (handle_setup fd c m1)
     else if meth = ''MESSAGE'' \<or> meth = ''ADDCAM'' then
       rbind (add_sessions al n (headers_of hs) c) (\<lambda>c. Inr (m1\<lparr>qtClients := omap_insert fd c (qtClients m1)\<rparr>))
     else Inr m1)"
proof -
  let ?ls = "(meth @ '' '' @ url) # map header_text hs"
  have "clean_line (meth @ '' '' @ url)" using word_clean [OF assms(5)] word_clean [OF assms(6)] by (simp add: clean_line_def)
  then have "\<forall>l \<in> set ?ls. clean_line l" using assms(9) by auto
  from find_unlines [OF _ this, of "[]"] have f: "find text head_end = Some (length (joined ?ls))"
    "take (length (joined ?ls)) text = joined ?ls" "length text = length (joined ?ls) + 4" by (simp_all add: assms(3))
  show ?thesis
    using assms(1,2,4) f parse_player_request [OF assms(5-9)]
    by (simp add: client_data_def Let_def assms(10,11))
qed

definition message_headers :: "player \<Rightarrow> (string \<times> string) list" where
  "message_headers p = (''Cseq'', show_int (pl_cseq p + 1)) # map stream_header (camMap p)"

lemma message_text:
  "pl_sent (sendMessage p) = pl_sent p @ [unlines ((''MESSAGE '' @ local_name p) # map header_text (message_headers p))]"
proof -
  have "concat (map (\<lambda>(name, u). stream_line name (udpRtpPort u) (udpRtcpPort u) (port_conv u)) cs) =
      concat (map (\<lambda>l. l @ crlf) (map header_text (map stream_header cs)))" for cs
    by (induction cs) (auto simp: stream_line_def stream_header_def stream_value_def)
  then show ?thesis by (simp add: sendMessage_def message_headers_def unlines_def Let_def)
qed

lemma hex_colon: "hex_char c \<or> c = CHR ''-'' \<Longrightarrow> c \<noteq> CHR '':''"
proof -
  have "list_all (\<lambda>c. c \<noteq> CHR '':'') ''0123456789abcdef-''" by code_simp
  then show "hex_char c \<or> c = CHR ''-'' \<Longrightarrow> ?thesis" by (auto simp: list_all_iff hex_char_def)
qed

lemma sid_key:
  assumes "plain_sid sid"
  shows "plain_key sid \<and> CHR 0x0D \<notin> set sid \<and> map tolower sid = sid \<and> sid \<noteq> ''cseq''"
proof -
  have c: "\<forall>c \<in> set sid. \<not> isspace c \<and> c \<noteq> CHR '':''"
    using assms plain_sid_char hex_colon unfolding plain_sid_def list_all_iff by blast
  have ne: "sid \<noteq> []" using assms by (simp add: plain_sid_def)
  have "list_all isspace blanks" by code_simp
  then have sp: "x \<in> set blanks \<Longrightarrow> isspace x" for x by (simp only: list_all_iff)
  have ends: "hd sid \<notin> set blanks" "last sid \<notin> set blanks"
    using c sp hd_in_set [OF ne] last_in_set [OF ne] by blast+
  have "isspace LF" "isspace (CHR 0x0D)" by code_simp+
  then have lf: "LF \<notin> set sid" "CHR 0x0D \<notin> set sid" "CHR '':'' \<notin> set sid" using c by blast+
  have "plain_key sid" unfolding plain_key_def using ne lf ends by blast
  moreover note lf(2)
  moreover have "sid \<noteq> ''cseq''" using lower_sid [OF assms] by auto
  ultimately show ?thesis using lower_sid [OF assms] by simp
qed

lemma stream_value_plain: "plain_value (stream_value a b cv) \<and> CHR 0x0D \<notin> set (stream_value a b cv)"
proof -
  have d: "isdigit c \<Longrightarrow> c \<noteq> LF \<and> c \<noteq> CHR 0x0D \<and> c \<notin> set blanks" for c by (auto simp: isdigit_def less_eq_char_def)
  have s: "c \<in> set (stream_value a b cv) \<Longrightarrow> isdigit c \<or> c = CHR '' ''" for c
    by (auto simp: stream_value_def dest: show_nat_set)
  have hd: "isdigit (hd (stream_value a b cv))" "isdigit (last (stream_value a b cv))"
    using show_nat_ne show_nat_set [OF hd_in_set [OF show_nat_ne]] show_nat_set [OF last_in_set [OF show_nat_ne]]
    by (simp_all add: stream_value_def)
  show ?thesis using s d hd unfolding plain_value_def by blast
qed

lemma message_headers_ok:
  assumes "\<forall>sid \<in> fst ` set (camMap p). plain_sid sid"
  shows "printable (message_headers p)" and "\<forall>kv \<in> set (message_headers p). clean_line (header_text kv)"
    and "map (\<lambda>(k, v). (map tolower k, v)) (message_headers p) =
      (''cseq'', show_int (pl_cseq p + 1)) # map stream_header (camMap p)"
proof -
  have k: "plain_key ''Cseq''" "CHR 0x0D \<notin> set ''Cseq''" "map tolower ''Cseq'' = ''cseq''" by code_simp+
  have v: "CHR 0x0D \<notin> set (show_int i)" for i
    by (auto simp: isdigit_def less_eq_char_def dest!: show_int_set)
  have e: "plain_key (fst e) \<and> plain_value (snd e) \<and> CHR 0x0D \<notin> set (fst e) \<and> CHR 0x0D \<notin> set (snd e) \<and> map tolower (fst e) = fst e"
    if "e \<in> set (map stream_header (camMap p))" for e
  proof -
    have "plain_sid (fst e)" using assms that by auto
    then show ?thesis using sid_key stream_value_plain that by (auto simp: stream_header_def)
  qed
  show "printable (message_headers p)"
  proof -
    have "plain_key (fst kv) \<and> plain_value (snd kv)" if "kv \<in> set (message_headers p)" for kv
      using that k(1) e plain_digits unfolding message_headers_def by (metis fst_conv set_ConsD snd_conv)
    then show ?thesis by (auto simp: printable_def)
  qed
  show "\<forall>kv \<in> set (message_headers p). clean_line (header_text kv)"
  proof
    fix kv assume "kv \<in> set (message_headers p)"
    then have "plain_key (fst kv) \<and> plain_value (snd kv) \<and> CHR 0x0D \<notin> set (fst kv) \<and> CHR 0x0D \<notin> set (snd kv)"
      using k e v plain_digits unfolding message_headers_def by (metis fst_conv set_ConsD snd_conv)
    then show "clean_line (header_text kv)" using header_clean [of "fst kv" "snd kv"] by simp
  qed
  show "map (\<lambda>(k, v). (map tolower k, v)) (message_headers p) =
      (''cseq'', show_int (pl_cseq p + 1)) # map stream_header (camMap p)"
  proof -
    have "map (\<lambda>(k, v). (map tolower k, v)) (map stream_header (camMap p)) = map stream_header (camMap p)"
    proof (rule map_idI)
      fix x assume "x \<in> set (map stream_header (camMap p))"
      then show "(case x of (k, v) \<Rightarrow> (map tolower k, v)) = x" using e [of x] by (simp add: case_prod_beta prod_eq_iff)
    qed
    then show ?thesis using k(3) unfolding message_headers_def by simp
  qed
qed

text \<open>The header map of the message: its sequence number and the streams.\<close>

lemma message_header_map:
  assumes "\<forall>sid \<in> fst ` set (camMap p). plain_sid sid" and "omap_ok (camMap p)"
  shows "distinct (map fst (headers_of (message_headers p)))"
    and "(k, v) \<in> set (headers_of (message_headers p)) \<longleftrightarrow>
      k = ''cseq'' \<and> v = show_int (pl_cseq p + 1) \<or> (\<exists>u. (k, u) \<in> set (camMap p) \<and> (k, v) = stream_header (k, u))"
proof -
  let ?es = "headers_of (message_headers p)" and ?l = "(''cseq'', show_int (pl_cseq p + 1)) # map stream_header (camMap p)"
  have d: "distinct (map fst (camMap p))"
    using assms(2) strict_sorted_iff by (metis strict_sorted_iff)
  show dd: "distinct (map fst ?es)" using headers_of_ok strict_sorted_iff by (metis)
  have "''cseq'' \<notin> fst ` set (camMap p)" using assms(1) sid_key by blast
  then have dl: "distinct (map fst ?l)" using d by (simp add: comp_def)
  have "map_of ?es = map_of (rev ?l)"
    using lookup_fold_insert [of "[]" "map tolower" "message_headers p"] message_headers_ok(3) [OF assms(1)]
    by (simp add: headers_of_def)
  then have "map_of ?es k = Some v \<longleftrightarrow> (k, v) \<in> set ?l"
    using dl map_of_eq_Some_iff [of "rev ?l" k v] by (simp only: rev_map [symmetric] distinct_rev set_rev)
  then have "(k, v) \<in> set ?es \<longleftrightarrow> (k, v) \<in> set ?l" using dd map_of_eq_Some_iff by metis
  also have "(k, v) \<in> set ?l \<longleftrightarrow> k = ''cseq'' \<and> v = show_int (pl_cseq p + 1) \<or> (\<exists>u. (k, u) \<in> set (camMap p) \<and> (k, v) = stream_header (k, u))"
  proof -
    have "(k, v) \<in> stream_header ` set (camMap p) \<Longrightarrow> \<exists>u. (k, u) \<in> set (camMap p) \<and> (k, v) = stream_header (k, u)"
      by (metis fst_stream_header fst_conv imageE prod.collapse)
    then show ?thesis by auto
  qed
  finally show "(k, v) \<in> set ?es \<longleftrightarrow>
      k = ''cseq'' \<and> v = show_int (pl_cseq p + 1) \<or> (\<exists>u. (k, u) \<in> set (camMap p) \<and> (k, v) = stream_header (k, u))" .
qed

lemma local_name_word: "word (localAddress p) \<Longrightarrow> word (local_name p)"
  using show_nat_set isdigit_char by (auto simp: word_def local_name_def list_all_iff isspace_def)

lemma message_understood:
  assumes "allocator_total al" and "omap_ok (qtClients m)" and "map_of (qtClients m) fd = Some client"
    and "qt_buffer client = []" and "omap_ok (sessionMap client)"
    and "omap_ok (camMap p)" and "word (localAddress p)"
    and "\<forall>sid \<in> fst ` set (camMap p). plain_sid sid \<and> map_of (sessionMap client) sid = None"
    and "text = last (pl_sent (sendMessage p))" and "length text \<le> 256"
  shows "\<exists>m' c'. client_data al n fd (Data text) m = Inr m' \<and> map_of (qtClients m') fd = Some c' \<and> qt_buffer c' = [] \<and>
    (\<forall>(sid, u) \<in> set (camMap p). \<exists>s. map_of (sessionMap c') sid = Some s \<and> watches (clientIp client) u s)"
proof -
  let ?hs = "message_headers p"
  have sids: "\<forall>sid \<in> fst ` set (camMap p). plain_sid sid" using assms(8) by blast
  have t: "text = unlines ((''MESSAGE'' @ '' '' @ local_name p) # map header_text ?hs)"
    using assms(9) message_text [of p] by simp
  define c where "c = client\<lparr>qt_buffer := [], Cseq := Cseq client + 1\<rparr>"
  define m1 where "m1 = m\<lparr>qtClients := omap_insert fd c (qtClients m)\<rparr>"
  have w: "word ''MESSAGE''" by code_simp
  have ne: "?hs \<noteq> []" by (simp add: message_headers_def)
  have cd: "client_data al n fd (Data text) m =
      rbind (add_sessions al n (headers_of ?hs) c) (\<lambda>c. Inr (m1\<lparr>qtClients := omap_insert fd c (qtClients m1)\<rparr>))"
    using client_request [OF assms(3,4) t assms(10) w local_name_word [OF assms(7)] message_headers_ok(1) [OF sids] ne
      message_headers_ok(2) [OF sids] c_def m1_def, of al n] by simp
  note hm = message_header_map [OF sids assms(6)]
  have "\<forall>e \<in> set (headers_of ?hs). fst e \<noteq> ''cseq'' \<longrightarrow>
      map_of (sessionMap c) (fst e) = None \<and> (\<exists>u. e = stream_header (fst e, u))"
  proof (intro ballI impI)
    fix e assume e: "e \<in> set (headers_of ?hs)" "fst e \<noteq> ''cseq''"
    then obtain u where "(fst e, u) \<in> set (camMap p)" "e = stream_header (fst e, u)"
      using hm(2) [of "fst e" "snd e"] by auto
    then show "map_of (sessionMap c) (fst e) = None \<and> (\<exists>u. e = stream_header (fst e, u))"
      using assms(8) by (auto simp: c_def)
  qed
  from add_sessions_streams [OF assms(1) hm(1) _ this, of n] obtain c' where c':
    "add_sessions al n (headers_of ?hs) c = Inr c'" "clientIp c' = clientIp c"
    "\<forall>k u. stream_header (k, u) \<in> set (headers_of ?hs) \<longrightarrow> k \<noteq> ''cseq'' \<longrightarrow>
        (\<exists>s. map_of (sessionMap c') k = Some s \<and> watches (clientIp c) u s)"
    "qt_buffer c' = qt_buffer c"
    using assms(5) by (auto simp: c_def)
  have "\<exists>s. map_of (sessionMap c') sid = Some s \<and> watches (clientIp client) u s" if "(sid, u) \<in> set (camMap p)" for sid u
  proof -
    have "sid \<noteq> ''cseq''" using sids that sid_key by force
    moreover have "stream_header (sid, u) \<in> set (headers_of ?hs)"
      using hm(2) [of sid "snd (stream_header (sid, u))"] that by (auto simp: stream_header_def)
    ultimately show ?thesis using c'(3) by (auto simp: c_def)
  qed
  moreover have "qt_buffer c' = []" using c'(4) by (simp add: c_def)
  moreover have "map_of (qtClients (m1\<lparr>qtClients := omap_insert fd c' (qtClients m1)\<rparr>)) fd = Some c'"
    using assms(2) by (simp add: m1_def lookup_omap_insert omap_ok_insert)
  ultimately show ?thesis using cd c'(1) by auto
qed

section \<open>The server's answer at the player\<close>

definition edged :: "string \<Rightarrow> bool" where
  "edged s \<longleftrightarrow> s \<noteq> [] \<and> \<not> isspace (hd s) \<and> \<not> isspace (last s)"

lemma trimmed_strip: "edged s \<Longrightarrow> \<forall>c \<in> set a. isspace c \<Longrightarrow> trimmed (a @ s) = s"
proof -
  assume s: "edged s" and a: "\<forall>c \<in> set a. isspace c"
  have "dropWhile isspace (a @ s) = s"
    using a s dropWhile_hd [of s isspace "[]"] by (simp add: edged_def)
  moreover have "dropWhile isspace (rev s) = rev s"
    using s dropWhile_hd [of "rev s" isspace "[]"] by (simp add: edged_def hd_rev)
  ultimately show ?thesis by (simp add: trimmed_def)
qed

lemma trimmed_id: "edged s \<Longrightarrow> trimmed s = s"
  using trimmed_strip [of s "[]"] by simp

lemma crlf_to_lf_line: "CHR 0x0D \<notin> set l \<Longrightarrow> crlf_to_lf (l @ crlf @ t) = l @ LF # crlf_to_lf t"
proof (induction l)
  case (Cons x l)
  then show ?case by (cases l) auto
qed simp

lemma crlf_to_lf_id: "CHR 0x0D \<notin> set l \<Longrightarrow> crlf_to_lf l = l"
  by (induction l rule: crlf_to_lf.induct) auto

lemma split_joined:
  assumes "ls \<noteq> []" and "\<forall>l \<in> set ls. clean_line l"
  shows "split_skip LF (crlf_to_lf (joined ls)) = ls"
  using assms
proof (induction ls)
  case (Cons l ls)
  have l: "l \<noteq> []" "CHR 0x0D \<notin> set l" "LF \<notin> set l" using Cons.prems(2) by (simp_all add: clean_line_def)
  show ?case
  proof (cases "ls = []")
    case True
    then show ?thesis using l by (simp add: joined_def crlf_to_lf_id split_skip_def getparts_last)
  next
    case False
    then have j: "joined (l # ls) = l @ crlf @ joined ls" by (simp add: joined_def)
    have "split_skip LF (crlf_to_lf (joined ls)) = ls" using Cons False by simp
    then show ?thesis
      unfolding j crlf_to_lf_line [OF l(2)] by (simp add: split_skip_def getparts_append [OF l(3)] l(1))
  qed
qed simp

lemma respond_headers_texts:
  assumes "\<forall>(k, v) \<in> set hs. edged k \<and> CHR '':'' \<notin> set k \<and> edged v"
  shows "respond_headers (map header_text hs) h = fold (\<lambda>(k, v). omap_insert k v) hs h"
  using assms
proof (induction hs arbitrary: h)
  case (Cons x hs)
  obtain k v where x: "x = (k, v)" by (cases x)
  have kv: "edged k" "CHR '':'' \<notin> set k" "edged v" using Cons.prems by (simp_all add: x)
  have e: "edged (header_text (k, v))" using kv(1,3) by (simp add: edged_def)
  have c: "find (header_text (k, v)) '':'' = Some (length k)" using find_colon [OF kv(2), of "'' '' @ v"] by simp
  have "trimmed (drop (length k + 1) (header_text (k, v))) = v" using trimmed_strip [OF kv(3), of "'' ''"] by simp
  moreover have "length k > 0" using kv(1) by (simp add: edged_def)
  ultimately show ?case
    using Cons trimmed_id [OF e] c trimmed_id [OF kv(1)] by (simp add: x Let_def)
qed simp

lemma split_blank: "CHR '' '' \<notin> set a \<Longrightarrow> CHR '' '' \<notin> set b \<Longrightarrow> a \<noteq> [] \<Longrightarrow> b \<noteq> [] \<Longrightarrow>
    split_skip (CHR '' '') (a @ '' '' @ b) = [a, b]"
  by (simp add: split_skip_def getparts_append getparts_last)

lemma word_facts: "word w \<Longrightarrow> edged w \<and> clean_line w \<and> CHR '' '' \<notin> set w \<and> w \<noteq> []"
  using hd_in_set [of w] last_in_set [of w] by (auto simp: word_def edged_def list_all_iff clean_line_def isspace_def)

lemma parse_answer:
  assumes "word a" and "word b" and "\<forall>(k, v) \<in> set hs. edged k \<and> CHR '':'' \<notin> set k \<and> edged v"
    and "\<forall>kv \<in> set hs. clean_line (header_text kv)"
  shows "parseRespond (joined ((a @ '' '' @ b) # map header_text hs)) = (a, b, fold (\<lambda>(k, v). omap_insert k v) hs [])"
proof -
  let ?l = "a @ '' '' @ b"
  note w = word_facts [OF assms(1)] word_facts [OF assms(2)]
  have c: "clean_line ?l" "edged ?l" using w by (auto simp: clean_line_def edged_def)
  have s: "split_skip LF (crlf_to_lf (joined (?l # map header_text hs))) = ?l # map header_text hs"
    using c(1) assms(4) by (intro split_joined) auto
  have w: "split_skip (CHR '' '') ?l = [a, b]" using w by (intro split_blank) simp_all
  show ?thesis unfolding parseRespond_def s list.case trimmed_id [OF c(2)] w respond_headers_texts [OF assms(3)] ..
qed

section \<open>The list of cameras\<close>

lemma show_nat_inj: "show_nat m = show_nat n \<longleftrightarrow> m = n"
  using show_nat_digits by metis

lemma edged_digits: "edged (show_nat n)"
  unfolding edged_def
  using show_nat_ne show_nat_set [OF hd_in_set [OF show_nat_ne]] show_nat_set [OF last_in_set [OF show_nat_ne]] isdigit_char by blast

lemma toInt_show_nat: "n < 2 ^ 31 \<Longrightarrow> toInt (show_nat n) = int n"
proof -
  assume n: "n < 2 ^ 31"
  obtain c cs where c: "show_nat n = c # cs" using show_nat_ne [of n] by (cases "show_nat n") auto
  have "isdigit c" using show_nat_set [of c n] c by simp
  then have "c \<noteq> CHR ''-''" "c \<noteq> CHR ''+''" using isdigit_char by blast+
  moreover have "list_all isdigit (c # cs)" "digits_val (c # cs) = n" using show_nat_digits [of n] c by simp_all
  moreover have "int n < 2 ^ 31" using n by (metis of_nat_less_iff of_nat_numeral of_nat_power)
  ultimately show ?thesis using trimmed_id [OF edged_digits, of n] by (simp add: toInt_def c)
qed

definition camera_list :: "MonitorServer \<Rightarrow> headers" where
  "camera_list m = fold (\<lambda>(i, e). omap_insert (show_nat i) (fst e)) (enumerate 0 (cams m))
     (omap_insert ''CamNum'' (show_nat (length (cams m))) [])"

lemma camera_list_map:
  "omap_ok (camera_list m) \<and> map_of (camera_list m) ''CamNum'' = Some (show_nat (length (cams m))) \<and>
   (\<forall>i < length (cams m). map_of (camera_list m) (show_nat i) = Some (fst (cams m ! i))) \<and>
   (\<forall>(k, v) \<in> set (camera_list m). k = ''CamNum'' \<and> v = show_nat (length (cams m)) \<or>
      (\<exists>i < length (cams m). k = show_nat i \<and> v = fst (cams m ! i)))"
proof -
  let ?l = "map (\<lambda>(i, e). (show_nat i, fst e)) (enumerate 0 (cams m))" and ?b = "[(''CamNum'', show_nat (length (cams m)))]"
  have f: "camera_list m = fold (\<lambda>(k, v). omap_insert k v) ?l ?b"
    by (simp add: camera_list_def fold_map comp_def case_prod_unfold)
  have b: "omap_ok ?b" by simp
  from lookup_fold_insert [OF b, of "\<lambda>k. k" ?l]
  have ok: "omap_ok (camera_list m)" and l: "map_of (camera_list m) = map_of ?b ++ map_of (rev ?l)"
    by (simp_all add: f [symmetric])
  have "map fst ?l = map show_nat [0..<length (cams m)]" by (rule nth_equalityI) (simp_all add: nth_enumerate_eq case_prod_unfold)
  then have d: "distinct (map fst ?l)" using show_nat_inj by (simp add: distinct_map inj_on_def)
  then have dr: "distinct (map fst (rev ?l))" by (simp only: rev_map [symmetric] distinct_rev)
  have r: "map_of (rev ?l) k = Some v \<longleftrightarrow> (\<exists>i < length (cams m). k = show_nat i \<and> v = fst (cams m ! i))" for k v
    unfolding map_of_eq_Some_iff [OF dr] set_rev in_set_conv_nth by (auto simp: nth_enumerate_eq)
  have "isdigit (CHR ''C'') = False" by code_simp
  then have cn: "show_nat i \<noteq> ''CamNum''" for i using show_nat_set [of "CHR ''C''" i] by auto
  have "map_of (rev ?l) ''CamNum'' \<noteq> Some v" for v using r [of "''CamNum''" v] cn by metis
  then have "map_of (rev ?l) ''CamNum'' = None" by blast
  then have 1: "map_of (camera_list m) ''CamNum'' = Some (show_nat (length (cams m)))"
    unfolding l by (simp add: map_add_def)
  have 2: "map_of (camera_list m) (show_nat i) = Some (fst (cams m ! i))" if "i < length (cams m)" for i
    using r [of "show_nat i" "fst (cams m ! i)"] that unfolding l by (auto simp: map_add_def)
  have 3: "k = ''CamNum'' \<and> v = show_nat (length (cams m)) \<or> (\<exists>i < length (cams m). k = show_nat i \<and> v = fst (cams m ! i))"
    if "(k, v) \<in> set (camera_list m)" for k v
  proof -
    have "distinct (map fst (camera_list m))" using ok strict_sorted_iff by metis
    then have "map_of (camera_list m) k = Some v" using that map_of_eq_Some_iff by metis
    then show ?thesis using r [of k v] unfolding l map_add_def by (auto split: option.splits if_splits)
  qed
  show ?thesis using ok 1 2 3 by blast
qed

lemma camera_list_read:
  assumes "cams m \<noteq> []" and "hs = (''CSeq'', v) # camera_list m" and "hm = fold (\<lambda>(k, v). omap_insert k v) hs []"
  shows "map_of hm ''CamNum'' = Some (show_nat (length (cams m))) \<and>
    (\<forall>i < length (cams m). map_of hm (show_nat i) = Some (fst (cams m ! i)))"
proof -
  note cl = camera_list_map [of m]
  have "isdigit (CHR ''C'') = False" by code_simp
  then have cn: "show_nat i \<noteq> ''CSeq''" for i using show_nat_set [of "CHR ''C''" i] by auto
  have "''CSeq'' \<notin> fst ` set (camera_list m)" using cl cn by fastforce
  moreover have "distinct (map fst (camera_list m))" using cl strict_sorted_iff by metis
  ultimately have d: "distinct (map fst hs)" by (simp add: assms(2))
  then have dr: "distinct (map fst (rev hs))" by (simp only: rev_map [symmetric] distinct_rev)
  have "map_of hm = map_of (rev hs)" using lookup_fold_insert [of "[]" "\<lambda>k. k" hs] by (simp add: assms(3))
  moreover have "map_of (rev hs) k = Some v \<longleftrightarrow> map_of hs k = Some v" for k v
    using map_of_eq_Some_iff [OF dr, of k v] map_of_eq_Some_iff [OF d, of k v] by simp
  ultimately have "map_of hm k = Some v" if "map_of (camera_list m) k = Some v" "k \<noteq> ''CSeq''" for k v
    using that by (simp add: assms(2))
  then show ?thesis using cl cn by simp
qed

lemma edged_show_int: "edged (show_int k)"
proof -
  have ne: "show_int k \<noteq> []" using show_nat_ne by (simp add: show_int_def)
  have "\<not> isspace (CHR ''-'')" by code_simp
  then show ?thesis
    unfolding edged_def using ne show_int_set [OF hd_in_set [OF ne]] show_int_set [OF last_in_set [OF ne]] isdigit_char by metis
qed

lemma plain_sid_edged: "plain_sid sid \<Longrightarrow> edged sid \<and> LF \<notin> set sid \<and> CHR 0x0D \<notin> set sid"
proof -
  assume sid: "plain_sid sid"
  then have ne: "sid \<noteq> []" by (simp add: plain_sid_def)
  have c: "\<forall>c \<in> set sid. \<not> isspace c" using sid plain_sid_char unfolding plain_sid_def list_all_iff by blast
  have "isspace LF" "isspace (CHR 0x0D)" by code_simp+
  then show ?thesis unfolding edged_def using c ne hd_in_set [OF ne] last_in_set [OF ne] by blast
qed

lemma answer_headers_ok:
  assumes "\<forall>sid \<in> fst ` set (cams m). plain_sid sid" and "hs = (''CSeq'', show_int c) # camera_list m"
  shows "\<forall>(k, v) \<in> set hs. edged k \<and> CHR '':'' \<notin> set k \<and> edged v" and "\<forall>kv \<in> set hs. clean_line (header_text kv)"
proof -
  have dig: "isdigit c \<Longrightarrow> c \<noteq> CHR '':'' \<and> c \<noteq> LF \<and> c \<noteq> CHR 0x0D" for c by (auto simp: isdigit_def less_eq_char_def)
  have n: "edged (show_nat i)" "CHR '':'' \<notin> set (show_nat i)" "LF \<notin> set (show_nat i)" "CHR 0x0D \<notin> set (show_nat i)" for i
    using edged_digits dig show_nat_set by blast+
  have k: "edged ''CSeq''" "CHR '':'' \<notin> set ''CSeq''" "edged ''CamNum''" "CHR '':'' \<notin> set ''CamNum''"
    "LF \<notin> set ''CSeq''" "CHR 0x0D \<notin> set ''CSeq''" "LF \<notin> set ''CamNum''" "CHR 0x0D \<notin> set ''CamNum''"
    by code_simp+
  have i: "LF \<notin> set (show_int c)" "CHR 0x0D \<notin> set (show_int c)" using show_int_set [of LF c] show_int_set [of "CHR 0x0D" c] dig by auto
  have all: "edged k \<and> CHR '':'' \<notin> set k \<and> LF \<notin> set k \<and> CHR 0x0D \<notin> set k \<and> edged v \<and> LF \<notin> set v \<and> CHR 0x0D \<notin> set v"
    if kv: "(k, v) \<in> set hs" for k v
  proof (cases "(k, v) \<in> set (camera_list m)")
    case False
    then have "k = ''CSeq'' \<and> v = show_int c" using kv by (simp add: assms(2))
    then show ?thesis using k i edged_show_int by simp
  next
    case True
    then have "k = ''CamNum'' \<and> v = show_nat (length (cams m)) \<or> (\<exists>i < length (cams m). k = show_nat i \<and> v = fst (cams m ! i))"
      using camera_list_map [of m] by blast
    moreover have "plain_sid (fst (cams m ! i))" if "i < length (cams m)" for i using assms(1) that by simp
    ultimately show ?thesis using k n plain_sid_edged by metis
  qed
  then show "\<forall>(k, v) \<in> set hs. edged k \<and> CHR '':'' \<notin> set k \<and> edged v" by blast
  show "\<forall>kv \<in> set hs. clean_line (header_text kv)"
  proof
    fix kv assume "kv \<in> set hs"
    then show "clean_line (header_text kv)" using all [of "fst kv" "snd kv"] by (simp add: clean_line_def edged_def)
  qed
qed

section \<open>Opening the streams\<close>

definition served :: "player \<Rightarrow> bool" where
  "served p \<longleftrightarrow> omap_ok (camMap p) \<and>
     (\<forall>(sid, u) \<in> set (camMap p). \<exists>h \<in> set (handlers p). streamName h = sid \<and> kh_port h = udpRtpPort u \<and>
        (\<exists>kcp. kh_kcp h = Some kcp \<and> conv kcp = port_conv u))"

lemma add_stream_served:
  assumes "allocator_total al" and "served p"
  shows "\<exists>p'. add_stream al n osp name p = Inr p' \<and> served p' \<and> fst ` set (camMap p') = insert name (fst ` set (camMap p)) \<and>
    p' = p\<lparr>pl_conv := pl_conv p', sockets := sockets p', handlers := handlers p', camMap := camMap p'\<rparr>"
proof -
  obtain kcp where kcp: "initKcp al n (pl_conv p + 1) = Inr kcp" "conv kcp = pl_conv p + 1"
    using mon_kcp_init_total [OF assms(1)] by (auto simp: initKcp_def mon_kcp_init_def)
  let ?h = "\<lparr> streamName = name, kh_port = osp (sockets p), kh_kcp = Some kcp, kh_sent = [] \<rparr>"
  let ?u = "\<lparr> udpRtpPort = osp (sockets p), udpRtcpPort = osp (sockets p + 1), port_conv = pl_conv p + 1 \<rparr>"
  define p' where "p' = p\<lparr>pl_conv := pl_conv p + 1, sockets := sockets p + 2, handlers := handlers p @ [?h],
    camMap := omap_insert name ?u (camMap p)\<rparr>"
  have "add_stream al n osp name p = Inr p'" using kcp(1) by (simp add: add_stream_def p'_def Let_def)
  moreover have "served p'"
    unfolding served_def
  proof (intro conjI ballI)
    show "omap_ok (camMap p')" using assms(2) by (simp add: served_def p'_def omap_ok_insert)
    fix e assume "e \<in> set (camMap p')"
    then have "e = (name, ?u) \<or> e \<in> set (camMap p)" using set_omap_insert [of "fst e" "snd e" name ?u "camMap p"] by (simp add: p'_def)
    then show "case e of (sid, u) \<Rightarrow> \<exists>h \<in> set (handlers p'). streamName h = sid \<and> kh_port h = udpRtpPort u \<and>
        (\<exists>kcp. kh_kcp h = Some kcp \<and> conv kcp = port_conv u)"
    proof
      assume "e \<in> set (camMap p)"
      then show ?thesis using assms(2) by (fastforce simp: served_def p'_def)
    qed (use kcp(2) in \<open>simp add: p'_def\<close>)
  qed
  ultimately show ?thesis by (intro exI [of _ p']) (simp add: p'_def)
qed

lemma add_streams_served:
  assumes "allocator_total al"
  shows "served p \<Longrightarrow> \<exists>p'. add_streams al n osp names p = Inr p' \<and> served p' \<and>
    fst ` set (camMap p') = set names \<union> fst ` set (camMap p) \<and>
    p' = p\<lparr>pl_conv := pl_conv p', sockets := sockets p', handlers := handlers p', camMap := camMap p'\<rparr>"
proof (induction names arbitrary: p)
  case (Cons name names)
  obtain p1 where 1: "add_stream al n osp name p = Inr p1" "served p1" "fst ` set (camMap p1) = insert name (fst ` set (camMap p))"
    "p1 = p\<lparr>pl_conv := pl_conv p1, sockets := sockets p1, handlers := handlers p1, camMap := camMap p1\<rparr>"
    using add_stream_served [OF assms Cons.prems, of n osp name] by blast
  obtain p2 where 2: "add_streams al n osp names p1 = Inr p2" "served p2" "fst ` set (camMap p2) = set names \<union> fst ` set (camMap p1)"
    "p2 = p1\<lparr>pl_conv := pl_conv p2, sockets := sockets p2, handlers := handlers p2, camMap := camMap p2\<rparr>"
    using Cons.IH [OF 1(2)] by blast
  have "p2 = p\<lparr>pl_conv := pl_conv p2, sockets := sockets p2, handlers := handlers p2, camMap := camMap p2\<rparr>"
    by (subst 2(4), subst 1(4)) simp
  then show ?case using 1 2 by auto
qed simp

section \<open>A player joins\<close>

lemma setup_text: "last (pl_sent (sendSetup p)) =
    unlines ((''SETUP'' @ '' '' @ local_name p) # map header_text [(''Cseq'', show_int (pl_cseq p + 1))])"
  by (simp add: sendSetup_def unlines_def Let_def)

lemma setup_answer:
  assumes "map_of (qtClients m) fd = Some client" and "qt_buffer client = []" and "word (localAddress p)"
    and "text = last (pl_sent (sendSetup p))" and "length text \<le> 256"
    and "c = client\<lparr>qt_buffer := [], Cseq := Cseq client + 1\<rparr>"
  shows "client_data al n fd (Data text) m = Inr (m\<lparr>qtClients := omap_insert fd c (qtClients m),
    mon_sent := mon_sent m @ [(fd, unlines (''200 OK'' # map header_text ((''CSeq'', show_int (Cseq c)) # camera_list m)))]\<rparr>)"
proof -
  let ?hs = "[(''Cseq'', show_int (pl_cseq p + 1))]" and ?m = "m\<lparr>qtClients := omap_insert fd c (qtClients m)\<rparr>"
  have k: "plain_key ''Cseq''" "CHR 0x0D \<notin> set ''Cseq''" "word ''SETUP''" by code_simp+
  have v: "CHR 0x0D \<notin> set (show_int (pl_cseq p + 1))"
    using show_int_set [of "CHR 0x0D" "pl_cseq p + 1"] by (auto simp: isdigit_def less_eq_char_def)
  have h: "printable ?hs" "\<forall>kv \<in> set ?hs. clean_line (header_text kv)"
    using k v plain_digits header_clean [OF k(1,2) plain_digits(2) v] by (simp_all add: printable_def)
  have "client_data al n fd (Data text) m = Inr (handle_setup fd c ?m)"
    using client_request [OF assms(1,2) assms(4) [unfolded setup_text] assms(5) k(3) local_name_word [OF assms(3)]
      h(1) _ h(2) assms(6) refl, of al n] by simp
  moreover have "concat (map (\<lambda>(k, v). k @ '': '' @ v @ crlf) hs) = concat (map (\<lambda>l. l @ crlf) (map header_text hs))" for hs
    by (induction hs) auto
  ultimately show ?thesis
    by (simp add: handle_setup_def sendRespond_def camera_list_def unlines_def Let_def)
qed

lemma answer_read:
  assumes "pl_buffer p = []" and "cams m \<noteq> []" and "length (cams m) < 2 ^ 31" and "\<forall>sid \<in> fst ` set (cams m). plain_sid sid"
    and "text = unlines (''200 OK'' # map header_text ((''CSeq'', show_int i) # camera_list m))"
  shows "onReadyRead al n osp text p =
    rbind (add_streams al n osp (map fst (cams m)) p) (\<lambda>p. Inr (sendMessage p))"
proof -
  define hs where "hs = (''CSeq'', show_int i) # camera_list m"
  define hm where "hm = fold (\<lambda>(k, v). omap_insert k v) hs []"
  define ls where "ls = ''200 OK'' # map header_text hs"
  note ok = answer_headers_ok [OF assms(4) hs_def]
  have words: "word ''200''" "word ''OK''" by code_simp+
  have "clean_line ''200 OK''" by code_simp
  then have "\<forall>l \<in> set ls. clean_line l" using ok(2) by (auto simp: ls_def)
  from find_unlines [OF _ this, of "[]"] have f: "find text head_end = Some (length (joined ls))"
    "take (length (joined ls)) text = joined ls" "length text = length (joined ls) + 4"
    by (simp_all add: assms(5) ls_def hs_def)
  have p: "parseRespond (joined ls) = (''200'', ''OK'', hm)" 
    using parse_answer [OF words ok] by (simp add: ls_def hm_def)
  note hm = camera_list_read [OF assms(2) hs_def hm_def]
  have n: "show_nat (length (cams m)) \<noteq> ''0''"
  proof -
    have "show_nat 0 = ''0''" by code_simp
    then show ?thesis using show_nat_inj [of "length (cams m)" 0] assms(2) by simp
  qed
  have names: "map (\<lambda>i. case map_of hm (show_nat i) of None \<Rightarrow> [] | Some name \<Rightarrow> name) [0..<length (cams m)] = map fst (cams m)"
    using hm by (intro nth_equalityI) simp_all
  have p0: "p\<lparr>pl_buffer := []\<rparr> = p" using assms(1) by (cases p) simp
  have "onReadyRead al n osp text p =
      rbind (add_streams al n osp (map fst (cams m)) (p\<lparr>pl_buffer := []\<rparr>)) (\<lambda>p. Inr (sendMessage p))"
    using f p hm n toInt_show_nat [OF assms(3)] names assms(1) by (simp add: onReadyRead_def Let_def)
  then show ?thesis unfolding p0 .
qed

lemma show_nat_length: "n < 10 ^ k \<Longrightarrow> 0 < k \<Longrightarrow> length (show_nat n) \<le> k"
proof (induction n arbitrary: k rule: show_nat.induct)
  case (1 n)
  show ?case
  proof (cases "n < 10")
    case False
    then obtain j where j: "k = Suc j" "0 < j" using 1(2,3) by (cases k; cases "k - 1") auto
    have "n div 10 < 10 ^ j" using 1(2) by (simp add: j less_mult_imp_div_less mult.commute)
    then show ?thesis using 1(1) [OF False _ j(2)] False by (subst show_nat.simps) (simp add: j)
  qed (use 1(3) in \<open>simp add: show_nat.simps\<close>)
qed

lemma message_length:
  "length (last (pl_sent (sendMessage p))) \<le> length (localAddress p) + 26 + length (show_int (pl_cseq p + 1)) +
     sum_list (map (\<lambda>k. length k + 26) (map fst (camMap p)))"
proof -
  have w: "unat (a :: u16) < 10 ^ 5" for a using unsigned_less [of a, where ?'a = nat] by simp
  have w2: "unat (a :: u32) < 10 ^ 10" for a using unsigned_less [of a, where ?'a = nat] by simp
  have l: "length (show_nat (unat (a :: u16))) \<le> 5" "length (show_nat (unat (b :: u32))) \<le> 10" for a b
    using show_nat_length [OF w, of a] show_nat_length [OF w2, of b] by simp_all
  have "length (concat (map (\<lambda>(name, u). stream_line name (udpRtpPort u) (udpRtcpPort u) (port_conv u)) cs)) \<le>
      sum_list (map (\<lambda>k. length k + 26) (map fst cs))" for cs :: "(string \<times> transUdpPort) list"
  proof (induction cs)
    case (Cons e cs)
    have "length (stream_line (fst e) (udpRtpPort (snd e)) (udpRtcpPort (snd e)) (port_conv (snd e))) \<le> length (fst e) + 26"
      using l(1) [of "udpRtpPort (snd e)"] l(1) [of "udpRtcpPort (snd e)"] l(2) [of "port_conv (snd e)"]
      by (simp add: stream_line_def)
    then show ?case using Cons by (simp add: case_prod_unfold)
  qed simp
  from this [of "camMap p"] show ?thesis
    using l(1) [of "localPort p"] by (simp add: sendMessage_def local_name_def Let_def)
qed

text \<open>The streams of the joined player, as the two ends know them.\<close>

lemma player_subscribed:
  assumes "allocator_total al" and "omap_ok (qtClients m)" and "map_of (qtClients m) fd = Some client"
    and "qt_buffer client = []" and "sessionMap client = []" and "word ip"
    and "cams m \<noteq> []" and "length (cams m) < 2 ^ 31" and "omap_ok (cams m)" and "\<forall>sid \<in> fst ` set (cams m). plain_sid sid"
    and "length ip + sum_list (map (\<lambda>(sid, _). length sid + 26) (cams m)) \<le> 229"
    and "p = sendSetup (new_player ip port)"
  shows "\<exists>m1 answer p1 m2 c.
    client_data al n fd (Data (last (pl_sent p))) m = Inr m1 \<and> last (mon_sent m1) = (fd, answer) \<and>
    onReadyRead al n osp answer p = Inr p1 \<and> served p1 \<and> map fst (camMap p1) = map fst (cams m) \<and>
    client_data al n fd (Data (last (pl_sent p1))) m1 = Inr m2 \<and> map_of (qtClients m2) fd = Some c \<and>
    (\<forall>(sid, u) \<in> set (camMap p1). \<exists>s. map_of (sessionMap c) sid = Some s \<and> watches (clientIp client) u s)"
proof -
  define p0 where "p0 = new_player ip port"
  have p0: "localAddress p0 = ip" "pl_cseq p0 = 0" "pl_buffer p = []" "camMap p = []" "localAddress p = ip" "pl_cseq p = 1"
    by (simp_all add: p0_def assms(12) new_player_def sendSetup_def Let_def)
  have one: "length (show_int 1) = 1" "length (show_int 2) = 1" by code_simp+
  have "length (show_nat (unat (localPort p0))) \<le> 5"
    using show_nat_length [of "unat (localPort p0)" 5] unsigned_less [of "localPort p0", where ?'a = nat] by simp
  then have len1: "length (last (pl_sent p)) \<le> 256"
    using assms(11) one p0 by (simp add: assms(12) p0_def [symmetric] sendSetup_def local_name_def Let_def)
  define c1 where "c1 = client\<lparr>qt_buffer := [], Cseq := Cseq client + 1\<rparr>"
  define answer where "answer = unlines (''200 OK'' # map header_text ((''CSeq'', show_int (Cseq c1)) # camera_list m))"
  define m1 where "m1 = m\<lparr>qtClients := omap_insert fd c1 (qtClients m), mon_sent := mon_sent m @ [(fd, answer)]\<rparr>"
  have 1: "client_data al n fd (Data (last (pl_sent p))) m = Inr m1"
    using setup_answer [OF assms(3,4) _ _ _ c1_def, of p0 "last (pl_sent p)" al n] len1 assms(6) p0
    by (simp add: m1_def answer_def assms(12) p0_def)
  obtain p2 where p2: "add_streams al n osp (map fst (cams m)) p = Inr p2" "served p2"
    "fst ` set (camMap p2) = fst ` set (cams m)" "p2 = p\<lparr>pl_conv := pl_conv p2, sockets := sockets p2, handlers := handlers p2, camMap := camMap p2\<rparr>"
    using add_streams_served [OF assms(1), of p n osp "map fst (cams m)"] p0(4) by (auto simp: served_def)
  define p1 where "p1 = sendMessage p2"
  have 2: "onReadyRead al n osp answer p = Inr p1"
    using answer_read [OF p0(3) assms(7,8,10) answer_def, of al n osp] p2(1) by (simp add: p1_def)
  have p1: "served p1" "camMap p1 = camMap p2" using p2(2) by (simp_all add: p1_def sendMessage_def served_def Let_def)
  have keys: "map fst (camMap p2) = map fst (cams m)"
    using p2(2,3) assms(9) by (intro strict_sorted_equal) (simp_all add: served_def)
  have l2: "localAddress p2 = ip" "pl_cseq p2 = 1" using p0(5,6) by (subst p2(4), simp)+
  have "sum_list (map (\<lambda>k. length k + 26) (map fst (cams m))) = sum_list (map (\<lambda>(sid, _). length sid + 26) (cams m))"
    by (simp add: case_prod_unfold comp_def)
  then have len2: "length (last (pl_sent p1)) \<le> 256"
    using message_length [of p2] assms(11) one(2) by (simp add: p1_def keys l2 del: map_map)
  have lk: "map_of (qtClients m1) fd = Some c1" "omap_ok (qtClients m1)"
    using assms(2) by (simp_all add: m1_def lookup_omap_insert omap_ok_insert)
  have "fst ` set (camMap p2) = fst ` set (cams m)" by (rule p2(3))
  then have sids: "\<forall>sid \<in> fst ` set (camMap p2). plain_sid sid \<and> map_of (sessionMap c1) sid = None"
    using assms(5,10) by (simp add: c1_def)
  have "omap_ok (camMap p2)" using p2(2) by (simp add: served_def)
  from message_understood [OF assms(1) lk(2,1) _ _ this _ sids refl, of n] obtain m2 c where
    "client_data al n fd (Data (last (pl_sent p1))) m1 = Inr m2" "map_of (qtClients m2) fd = Some c"
    "\<forall>(sid, u) \<in> set (camMap p2). \<exists>s. map_of (sessionMap c) sid = Some s \<and> watches (clientIp client) u s"
    using len2 assms(5,6) l2 by (auto simp: c1_def p1_def)
  then show ?thesis using 1 2 p1 keys by (auto simp: m1_def)
qed

section \<open>Two messages in one read\<close>

definition addcam_text :: "string \<Rightarrow> int \<Rightarrow> string \<Rightarrow> string" where
  "addcam_text addr i sid = ''ADDCAM '' @ addr @ crlf @ ''Cseq: '' @ show_int i @ crlf @ ''SessionId: '' @ sid @ crlf @ crlf"

abbreviation addcam_headers :: "int \<Rightarrow> string \<Rightarrow> (string \<times> string) list" where
  "addcam_headers i sid \<equiv> [(''Cseq'', show_int i), (''SessionId'', sid)]"

lemma addcam_lines: "addcam_text addr i sid = unlines ((''ADDCAM'' @ '' '' @ addr) # map header_text (addcam_headers i sid))"
  by (simp add: addcam_text_def unlines_def)

lemma addcam_headers_ok:
  assumes "plain_sid sid"
  shows "\<forall>(k, v) \<in> set (addcam_headers i sid). edged k \<and> CHR '':'' \<notin> set k \<and> edged v"
    and "\<forall>kv \<in> set (addcam_headers i sid). clean_line (header_text kv)"
proof -
  have k: "edged ''Cseq''" "CHR '':'' \<notin> set ''Cseq''" "edged ''SessionId''" "CHR '':'' \<notin> set ''SessionId''"
    "clean_line (''Cseq: '')" "clean_line (''SessionId: '')" by code_simp+
  have "LF \<notin> set (show_int i)" "CHR 0x0D \<notin> set (show_int i)"
    using show_int_set [of LF i] show_int_set [of "CHR 0x0D" i] by (auto simp: isdigit_def less_eq_char_def)
  then show "\<forall>kv \<in> set (addcam_headers i sid). clean_line (header_text kv)"
    using k(5,6) plain_sid_edged [OF assms] by (simp add: clean_line_def)
  show "\<forall>(k, v) \<in> set (addcam_headers i sid). edged k \<and> CHR '':'' \<notin> set k \<and> edged v"
    using k edged_show_int plain_sid_edged [OF assms] by simp
qed

text \<open>A message of these two headers in front of the buffer, whatever its first word.\<close>

lemma read_message:
  assumes "word meth" and "word addr" and "plain_sid sid"
    and "pl_buffer p @ got = unlines ((meth @ '' '' @ addr) # map header_text (addcam_headers i sid)) @ rest"
  shows "onReadyRead al n osp got p =
    add_or_remove al n osp meth [(''Cseq'', show_int i), (''SessionId'', sid)] (p\<lparr>pl_buffer := drop 1 rest\<rparr>)"
proof -
  let ?ls = "(meth @ '' '' @ addr) # map header_text (addcam_headers i sid)"
  note ok = addcam_headers_ok [OF assms(3), of i]
  have "clean_line (meth @ '' '' @ addr)" using word_clean [OF assms(1)] word_clean [OF assms(2)] by (simp add: clean_line_def)
  then have "\<forall>l \<in> set ?ls. clean_line l" using ok(2) by auto
  from find_unlines [OF _ this, of rest] have f: "find (unlines ?ls @ rest) head_end = Some (length (joined ?ls))"
    "take (length (joined ?ls)) (unlines ?ls) = joined ?ls" "length (unlines ?ls) = length (joined ?ls) + 4" by simp_all
  have t: "take (length (joined ?ls)) (unlines ?ls @ rest) = joined ?ls"
    "drop (length (joined ?ls) + 5) (unlines ?ls @ rest) = drop 1 rest" using f(2,3) by simp_all
  have h: "fold (\<lambda>(k, v). omap_insert k v) (addcam_headers i sid) [] = [(''Cseq'', show_int i), (''SessionId'', sid)]"
    by simp
  have b: "crlf @ crlf = head_end" by simp
  show ?thesis
    unfolding onReadyRead_def assms(4) Let_def b f(1) option.case t prod.case
      parse_answer [OF assms(1,2) ok] h by simp
qed

lemma two_messages_in_one_read:
  assumes "allocator_total al" and "served p" and "pl_buffer p = []" and "word addr" and "plain_sid s1" and "plain_sid s2"
  shows "\<exists>p1 p2. onReadyRead al n osp (addcam_text addr i s1 @ addcam_text addr j s2) p = Inr p1 \<and>
    fst ` set (camMap p1) = insert s1 (fst ` set (camMap p)) \<and>
    onReadyRead al n osp got p1 = Inr p2 \<and> camMap p2 = camMap p1 \<and> pl_sent p2 = pl_sent p1 \<and> pl_buffer p2 = drop 1 got"
proof -
  have w: "word ''ADDCAM''" "word ''DDCAM''" by code_simp+
  let ?p = "p\<lparr>pl_buffer := drop 1 (addcam_text addr j s2)\<rparr>"
  have "served ?p" using assms(2) by (simp add: served_def)
  from add_stream_served [OF assms(1) this, of n osp s1] obtain q where q:
    "add_stream al n osp s1 ?p = Inr q" "fst ` set (camMap q) = insert s1 (fst ` set (camMap p))"
    "q = ?p\<lparr>pl_conv := pl_conv q, sockets := sockets q, handlers := handlers q, camMap := camMap q\<rparr>" by auto
  define p1 where "p1 = sendAddCamRespond s1 q"
  have b1: "pl_buffer p1 = drop 1 (addcam_text addr j s2)" "camMap p1 = camMap q"
    using arg_cong [OF q(3), of pl_buffer] by (simp_all add: p1_def sendAddCamRespond_def Let_def)
  have 1: "onReadyRead al n osp (addcam_text addr i s1 @ addcam_text addr j s2) p = Inr p1"
    using read_message [OF w(1) assms(4,5), of p "addcam_text addr i s1 @ addcam_text addr j s2" i "addcam_text addr j s2" al n osp] q(1)
    by (simp add: assms(3) addcam_lines [of addr i s1] add_or_remove_def p1_def)
  have "pl_buffer p1 @ got = unlines ((''DDCAM'' @ '' '' @ addr) # map header_text (addcam_headers j s2)) @ got"
    unfolding b1 by (simp add: addcam_text_def unlines_def)
  from read_message [OF w(2) assms(4,6) this] have
    2: "onReadyRead al n osp got p1 = Inr (p1\<lparr>pl_buffer := drop 1 got\<rparr>)" by (simp add: add_or_remove_def)
  show ?thesis using 1 2 q(2) b1(2) by (intro exI [of _ p1] exI [of _ "p1\<lparr>pl_buffer := drop 1 got\<rparr>"]) simp
qed

section \<open>Equal conversation numbers\<close>

lemma find_target_earlier:
  assumes "omap_ok cs" and "map_of cs fd1 = Some c1" and "find_session cv (sessionMap c1) \<noteq> None"
  shows "\<exists>fd c sid s. find_target cv cs = Some (fd, c, sid, s) \<and> fd \<le> fd1"
  using assms
proof (induction cs)
  case (Cons e cs)
  obtain fd c where e: "e = (fd, c)" by (cases e)
  show ?case
  proof (cases "find_session cv (sessionMap c)")
    case None
    then have "fd \<noteq> fd1" using Cons.prems(2,3) by (auto simp: e)
    then show ?thesis using Cons None by (simp add: e)
  next
    case (Some x)
    have "fd \<le> fd1"
      using Cons.prems(1,2) by (fastforce simp: e split: if_splits dest!: map_of_SomeD)
    then show ?thesis using Some by (cases x) (simp add: e)
  qed
qed simp

lemma datagram_of_later_player:
  assumes "omap_ok (qtClients m)" and "map_of (qtClients m) fd1 = Some c1"
    and "find_session (kcp_getu32 (take 4 (got @ drop (length got) stale))) (sessionMap c1) \<noteq> None"
    and "fd1 < fd2" and "udp_data al stale got m = Inr m'"
  shows "map_of (qtClients m') fd2 = map_of (qtClients m) fd2"
proof -
  obtain fd c sid s where t: "find_target (kcp_getu32 (take 4 (got @ drop (length got) stale))) (qtClients m) = Some (fd, c, sid, s)"
    "fd \<le> fd1" using find_target_earlier [OF assms(1-3)] by blast
  then obtain k where "m' = m\<lparr>qtClients := omap_insert fd (c\<lparr>sessionMap := k\<rparr>) (qtClients m)\<rparr>"
    using assms(5) by (auto simp: udp_data_def Let_def fault_simps split: option.splits)
  then show ?thesis using assms(1,4) t(2) by (simp add: lookup_omap_insert)
qed

lemma find_session_exists: "map_of ss sid = Some s \<Longrightarrow> find_session (udp_conv s) ss \<noteq> None"
  by (induction ss) (auto split: if_splits)

lemma first_stream_conversation:
  "add_stream al n osp name (new_player ip port) = Inr p \<Longrightarrow> port_conv (the (map_of (camMap p) name)) = 1001"
  by (auto simp: add_stream_def new_player_def Let_def rbind_Inr_iff)

section \<open>Whatever the server sends\<close>

lemma served_frame: "camMap q = camMap p \<Longrightarrow> handlers q = handlers p \<Longrightarrow> served p \<Longrightarrow> served q"
  by (simp add: served_def)

lemma add_or_remove_served:
  assumes "allocator_total al" and "served p"
  shows "\<exists>p'. add_or_remove al n osp meth hs p = Inr p' \<and> served p'"
proof (cases "map_of hs ''SessionId''")
  case (Some name)
  obtain q where q: "add_stream al n osp name p = Inr q" "served q"
    using add_stream_served [OF assms, of n osp name] by blast
  have "served (sendAddCamRespond name q)" using q(2) by (rule served_frame [rotated 2]) (simp_all add: sendAddCamRespond_def Let_def)
  moreover have "served (p\<lparr>camMap := omap_erase name (camMap p)\<rparr>)"
    using assms(2) by (auto simp: served_def omap_ok_erase dest: set_omap_erase)
  ultimately show ?thesis using Some q(1) assms(2) by (simp add: add_or_remove_def)
qed (use assms in \<open>simp add: add_or_remove_def\<close>)

lemma onReadyRead_served:
  assumes "allocator_total al" and "served p"
  shows "\<exists>p'. onReadyRead al n osp got p = Inr p' \<and> served p'"
proof -
  have f: "served (p\<lparr>pl_buffer := b\<rparr>)" for b using assms(2) by (simp add: served_def)
  have "\<exists>p'. rbind (add_streams al n osp names (p\<lparr>pl_buffer := b\<rparr>)) (\<lambda>p. Inr (sendMessage p)) = Inr p' \<and> served p'" for names b
    using add_streams_served [OF assms(1) f, of n osp names b] by (auto simp: sendMessage_def served_def Let_def)
  then show ?thesis
    using add_or_remove_served [OF assms(1) f] by (simp add: onReadyRead_def Let_def split: prod.split option.split)
qed

end
