(* ===== verification/Event_Loop.thy ===== *)
theory Event_Loop
  imports Text
begin

text \<open>
  The server's event loops: the functions other threads queue for a loop and the eventfd that wakes
  it (\<^verbatim>\<open>Eventor.cc\<close>, a step relation), the registered descriptors and the dispatch of what \<^verbatim>\<open>epoll_wait\<close>
  returns (\<^verbatim>\<open>EventLoop.cc\<close>), and the choice of a loop for a new connection (\<^verbatim>\<open>MultiThreadEventLoop.cc\<close>).
  What the callbacks do to the loop is a parameter.
\<close>

section \<open>Queued functions\<close>

text \<open>
  The loop's thread reads the counter, swaps the list out under the mutex and runs it; \<open>queued\<close> and
  \<open>executed\<close> record the functions. A write to an eventfd whose counter is full blocks.
\<close>

record 'f eventor =
  pendings :: "'f list"
  counter :: nat
  reading :: bool
  tmp :: "'f list"
  queued :: "'f list"
  executed :: "'f list"

definition new_eventor :: "'f eventor" where
  "new_eventor = \<lparr> pendings = [], counter = 0, reading = False, tmp = [], queued = [], executed = [] \<rparr>"

definition addEventcb :: "'f \<Rightarrow> 'f eventor \<Rightarrow> 'f eventor" where
  "addEventcb f e = e\<lparr>pendings := pendings e @ [f], counter := counter e + 1, queued := queued e @ [f]\<rparr>"

inductive loop_step :: "'f eventor \<Rightarrow> 'f eventor \<Rightarrow> bool" where
  handleRead: "tmp e = [] \<Longrightarrow> \<not> reading e \<Longrightarrow> counter e > 0 \<Longrightarrow> loop_step e (e\<lparr>counter := 0, reading := True\<rparr>)"
| swap: "reading e \<Longrightarrow> loop_step e (e\<lparr>tmp := pendings e, pendings := [], reading := False\<rparr>)"
| execute: "tmp e = f # fs \<Longrightarrow> loop_step e (e\<lparr>tmp := fs, executed := executed e @ [f]\<rparr>)"

inductive eventor_step :: "'f eventor \<Rightarrow> 'f eventor \<Rightarrow> bool" where
  other: "counter e < 2 ^ 64 - 2 \<Longrightarrow> eventor_step e (addEventcb f e)"
| loop: "loop_step e e' \<Longrightarrow> eventor_step e e'"

inductive eventor_reach :: "'f eventor \<Rightarrow> bool" where
  start: "eventor_reach new_eventor"
| step: "eventor_reach e \<Longrightarrow> eventor_step e e' \<Longrightarrow> eventor_reach e'"

definition eventor_inv :: "'f eventor \<Rightarrow> bool" where
  "eventor_inv e \<longleftrightarrow> queued e = executed e @ tmp e @ pendings e \<and> (pendings e \<noteq> [] \<longrightarrow> counter e > 0 \<or> reading e) \<and>
     (reading e \<longrightarrow> tmp e = [])"

lemma eventor_step_inv:
  assumes "eventor_step e e'" and "eventor_inv e"
  shows "eventor_inv e'"
  using assms by cases (auto simp: eventor_inv_def addEventcb_def elim!: loop_step.cases)

lemma eventor_reach_inv: "eventor_reach e \<Longrightarrow> eventor_inv e"
proof (induction rule: eventor_reach.induct)
  case start
  show ?case by (simp add: eventor_inv_def new_eventor_def)
qed (rule eventor_step_inv)

text \<open>When the loop's thread has nothing left to do, everything queued was run.\<close>

lemma idle_all_executed:
  assumes "eventor_inv e" and "\<And>e'. \<not> loop_step e e'"
  shows "executed e = queued e"
proof -
  have "\<not> reading e" using assms(2) loop_step.swap by blast
  moreover have "tmp e = []" using assms(2) loop_step.execute by (metis neq_Nil_conv)
  moreover have "counter e = 0" using assms(2) loop_step.handleRead [of e] calculation by blast
  ultimately show ?thesis using assms(1) by (auto simp: eventor_inv_def)
qed

text \<open>Each function takes the loop's thread finitely many steps: what is left shrinks.\<close>

definition left_to_do :: "'f eventor \<Rightarrow> nat" where
  "left_to_do e = 3 * length (pendings e) + 2 * length (tmp e) + (if reading e then 1 else 0) + (if counter e > 0 then 2 else 0)"

lemma loop_step_progress: "loop_step e e' \<Longrightarrow> left_to_do e' < left_to_do e"
  by (cases rule: loop_step.cases) (auto simp: left_to_do_def)

lemma loop_finishes: "\<exists>e'. loop_step\<^sup>*\<^sup>* e e' \<and> (\<forall>e''. \<not> loop_step e' e'')"
proof (induction "left_to_do e" arbitrary: e rule: less_induct)
  case less
  show ?case
  proof (cases "\<exists>e1. loop_step e e1")
    case True
    then obtain e1 where "loop_step e e1" by blast
    then show ?thesis using less [OF loop_step_progress] by (meson converse_rtranclp_into_rtranclp)
  qed blast
qed

lemma loop_steps_inv: "loop_step\<^sup>*\<^sup>* e e' \<Longrightarrow> eventor_inv e \<Longrightarrow> eventor_inv e' \<and> queued e' = queued e"
proof (induction rule: rtranclp_induct)
  case (step y z)
  then have "queued z = queued y" by (auto elim!: loop_step.cases)
  then show ?case using step eventor_step_inv [OF eventor_step.loop [OF step(2)]] by simp
qed simp

section \<open>Dispatch\<close>

record 'c event_loop =
  epoll :: "int set"
  evtSize :: nat
  loopTcp :: "(int \<times> 'c) list"
  loopUdp :: "(int \<times> 'c) list"
  acceptFd :: int
  eventFd :: int
  timerFd :: int
  mainLoop :: bool

definition new_event_loop :: "int \<Rightarrow> int \<Rightarrow> int \<Rightarrow> bool \<Rightarrow> 'c event_loop" where
  "new_event_loop a e t main =
     \<lparr> epoll = (if main then {a} else {e, t}), evtSize = 1024, loopTcp = [], loopUdp = [],
       acceptFd = a, eventFd = e, timerFd = t, mainLoop = main \<rparr>"

definition loopAddTcp :: "int \<Rightarrow> 'c \<Rightarrow> 'c event_loop \<Rightarrow> 'c event_loop" where
  "loopAddTcp fd c l = l\<lparr>loopTcp := omap_insert fd c (loopTcp l), epoll := insert fd (epoll l)\<rparr>"

definition loopAddUdp :: "int \<Rightarrow> 'c \<Rightarrow> 'c event_loop \<Rightarrow> 'c event_loop" where
  "loopAddUdp fd c l =
     (let l = (if map_of (loopUdp l) fd \<noteq> None
               then l\<lparr>epoll := epoll l - {fd}, loopUdp := omap_erase fd (loopUdp l)\<rparr> else l)
      in l\<lparr>loopUdp := omap_insert fd c (loopUdp l), epoll := insert fd (epoll l)\<rparr>)"

definition loopRemoveTcp :: "int \<Rightarrow> 'c event_loop \<Rightarrow> 'c event_loop" where
  "loopRemoveTcp fd l = l\<lparr>loopTcp := omap_erase fd (loopTcp l), epoll := epoll l - {fd}\<rparr>"

definition loopRemoveUdp :: "int \<Rightarrow> 'c event_loop \<Rightarrow> 'c event_loop" where
  "loopRemoveUdp fd l = l\<lparr>loopUdp := omap_erase fd (loopUdp l), epoll := epoll l - {fd}\<rparr>"

datatype 'c action = Accept | Run_pending | Run_timers | Tcp_message 'c | Tcp_closed 'c | Tcp_writable 'c | Udp_message 'c

text \<open>The loop with the callbacks that ran, in their order; a callback may change the loop.\<close>

type_synonym 'c callbacks = "'c action \<Rightarrow> 'c event_loop \<Rightarrow> 'c event_loop"

definition call_back :: "'c callbacks \<Rightarrow> 'c action \<Rightarrow> 'c action list \<times> 'c event_loop \<Rightarrow> 'c action list \<times> 'c event_loop" where
  "call_back cb a st = (fst st @ [a], cb a (snd st))"

definition handleMessage ::
  "'c callbacks \<Rightarrow> ('c \<Rightarrow> bool) \<Rightarrow> int \<Rightarrow> 'c action list \<times> 'c event_loop \<Rightarrow> 'c action list \<times> 'c event_loop" where
  "handleMessage cb isClosed fd st =
     (case map_of (loopTcp (snd st)) fd of
        Some c \<Rightarrow>
          if isClosed c
          then (case call_back cb (Tcp_closed c) st of (acts, l) \<Rightarrow> (acts, loopRemoveTcp fd l))
          else call_back cb (Tcp_message c) st
      | None \<Rightarrow>
          (case map_of (loopUdp (snd st)) fd of
             Some c \<Rightarrow> call_back cb (Udp_message c) st
           | None \<Rightarrow> st))"

definition handleEvent ::
  "'c callbacks \<Rightarrow> ('c \<Rightarrow> bool) \<Rightarrow> int \<times> bool \<times> bool \<Rightarrow> 'c action list \<times> 'c event_loop \<Rightarrow> 'c action list \<times> 'c event_loop" where
  "handleEvent cb isClosed ev st =
     (case ev of (fd, readable, writable) \<Rightarrow>
        let l = snd st
        in if fd = acceptFd l then (if readable then call_back cb Accept st else st)
           else if fd = eventFd l then (if readable then call_back cb Run_pending st else st)
           else if fd = timerFd l then (if readable then call_back cb Run_timers st else st)
           else
             let st = (if readable then handleMessage cb isClosed fd st else st)
             in if writable then
                  (case map_of (loopTcp (snd st)) fd of
                     Some c \<Rightarrow> call_back cb (Tcp_writable c) st
                   | None \<Rightarrow> st)
                else st)"

text \<open>One wait: the events that were ready, at most as many as the list holds, which grows when it was full.\<close>

definition waitEpollFd ::
  "'c callbacks \<Rightarrow> ('c \<Rightarrow> bool) \<Rightarrow> (int \<times> bool \<times> bool) list \<Rightarrow> 'c event_loop \<Rightarrow> 'c action list \<times> 'c event_loop" where
  "waitEpollFd cb isClosed ready l =
     (let evs = take (evtSize l) ready;
          l = (if length evs = evtSize l then l\<lparr>evtSize := evtSize l * 2\<rparr> else l)
      in fold (handleEvent cb isClosed) evs ([], l))"

section \<open>What is registered\<close>

definition loop_inv :: "'c event_loop \<Rightarrow> bool" where
  "loop_inv l \<longleftrightarrow>
     (let base = (if mainLoop l then {acceptFd l} else {eventFd l, timerFd l});
          tcp = fst ` set (loopTcp l); udp = fst ` set (loopUdp l)
      in omap_ok (loopTcp l) \<and> omap_ok (loopUdp l) \<and> epoll l = base \<union> tcp \<union> udp \<and>
         tcp \<inter> udp = {} \<and> (tcp \<union> udp) \<inter> {acceptFd l, eventFd l, timerFd l} = {})"

lemma keys_omap_erase [simp]: "fst ` set (omap_erase k m) = fst ` set m - {k}"
  by (auto simp: omap_erase_def)

lemma new_event_loop_inv: "loop_inv (new_event_loop a e t main)"
  by (simp add: loop_inv_def new_event_loop_def Let_def)

lemma loopAddTcp_inv:
  assumes "loop_inv l" and "fd \<notin> fst ` set (loopUdp l)" and "fd \<notin> {acceptFd l, eventFd l, timerFd l}"
  shows "loop_inv (loopAddTcp fd c l)"
  using assms by (auto simp: loop_inv_def loopAddTcp_def Let_def omap_ok_insert keys_omap_insert split: if_splits)

lemma loopAddUdp_inv:
  assumes "loop_inv l" and "fd \<notin> fst ` set (loopTcp l)" and "fd \<notin> {acceptFd l, eventFd l, timerFd l}"
  shows "loop_inv (loopAddUdp fd c l)"
  using assms
  by (auto simp: loop_inv_def loopAddUdp_def Let_def omap_ok_insert omap_ok_erase keys_omap_insert split: if_splits)

lemma loopRemove_inv:
  assumes "loop_inv l"
  shows "fd \<in> fst ` set (loopTcp l) \<Longrightarrow> loop_inv (loopRemoveTcp fd l)"
    and "fd \<in> fst ` set (loopUdp l) \<Longrightarrow> loop_inv (loopRemoveUdp fd l)"
  using assms by (auto simp: loop_inv_def loopRemoveTcp_def loopRemoveUdp_def Let_def omap_ok_erase split: if_splits)

text \<open>What the dispatch expects of the callbacks: they keep the tables consistent, and closing a connection
  leaves the table of the TCP connections to the loop.\<close>

definition callbacks_ok :: "'c callbacks \<Rightarrow> bool" where
  "callbacks_ok cb \<longleftrightarrow> (\<forall>a l. loop_inv l \<longrightarrow> loop_inv (cb a l)) \<and> (\<forall>c l. loopTcp (cb (Tcp_closed c) l) = loopTcp l)"

lemma handleMessage_inv:
  assumes "callbacks_ok cb" and "loop_inv (snd st)"
  shows "loop_inv (snd (handleMessage cb isClosed fd st))"
proof (cases "map_of (loopTcp (snd st)) fd")
  case (Some c)
  then have "fd \<in> fst ` set (loopTcp (snd st))" using map_of_SomeD by force
  then show ?thesis
    using Some assms loopRemove_inv(1) [of "cb (Tcp_closed c) (snd st)" fd]
    by (simp add: handleMessage_def call_back_def callbacks_ok_def)
qed (use assms in \<open>auto simp: handleMessage_def call_back_def callbacks_ok_def split: option.split\<close>)

lemma handleEvent_inv:
  assumes "callbacks_ok cb" and "loop_inv (snd st)"
  shows "loop_inv (snd (handleEvent cb isClosed ev st))"
proof -
  have c: "loop_inv (snd st') \<Longrightarrow> loop_inv (snd (call_back cb a st'))" for a st'
    using assms(1) by (simp add: call_back_def callbacks_ok_def)
  show ?thesis
    using assms c handleMessage_inv [OF assms(1)]
    by (cases ev) (auto simp: handleEvent_def Let_def split: option.split)
qed

lemma waitEpollFd_inv:
  assumes "callbacks_ok cb" and "loop_inv l"
  shows "loop_inv (snd (waitEpollFd cb isClosed ready l))"
proof -
  have f: "loop_inv (snd st) \<Longrightarrow> loop_inv (snd (fold (handleEvent cb isClosed) evs st))" for evs st
    by (induction evs arbitrary: st) (simp_all add: handleEvent_inv [OF assms(1)])
  have "loop_inv (l\<lparr>evtSize := n\<rparr>) = loop_inv l" for n by (simp add: loop_inv_def Let_def)
  then show ?thesis using f assms(2) by (simp add: waitEpollFd_def Let_def)
qed

text \<open>A closed connection is taken out before its write event is looked at.\<close>

lemma closed_event:
  assumes "callbacks_ok cb" and "loop_inv l" and "map_of (loopTcp l) fd = Some c" and "isClosed c"
  shows "handleEvent cb isClosed (fd, True, writable) (acts, l) =
    (acts @ [Tcp_closed c], loopRemoveTcp fd (cb (Tcp_closed c) l))"
proof -
  have "fd \<in> fst ` set (loopTcp l)" using assms(3) map_of_SomeD by force
  then have "fd \<noteq> acceptFd l" "fd \<noteq> eventFd l" "fd \<noteq> timerFd l"
    using assms(2) unfolding loop_inv_def Let_def by blast+
  then show ?thesis
    using assms(3,4) by (simp add: handleEvent_def handleMessage_def call_back_def loopRemoveTcp_def lookup_omap_erase Let_def)
qed

section \<open>Round robin\<close>

definition getNextLoop :: "nat \<Rightarrow> 64 word \<Rightarrow> nat option \<times> 64 word" where
  "getNextLoop subLoops nextLoopIndex =
     (if subLoops = 0 then (None, nextLoopIndex)
      else (Some (unat nextLoopIndex mod subLoops), nextLoopIndex + 1))"

fun loops_of :: "nat \<Rightarrow> nat \<Rightarrow> 64 word \<Rightarrow> nat option list" where
  "loops_of subLoops 0 i = []"
| "loops_of subLoops (Suc n) i = (case getNextLoop subLoops i of (l, i) \<Rightarrow> l # loops_of subLoops n i)"

lemma loops_of_nth:
  assumes "0 < k" and "unat i + n < 2 ^ 64"
  shows "loops_of k n i = map (\<lambda>j. Some ((unat i + j) mod k)) [0..<n]"
  using assms(2)
proof (induction n arbitrary: i)
  case (Suc n)
  have "unat (i + 1) = unat i + 1" using Suc.prems by (simp add: unat_word_ariths)
  then have "loops_of k n (i + 1) = map (\<lambda>j. Some ((unat i + Suc j) mod k)) [0..<n]"
    using Suc.IH [of "i + 1"] Suc.prems by simp
  then show ?case using assms(1)
    by (simp add: getNextLoop_def map_upt_Suc del: upt_Suc)
qed simp

lemma mod_window: "0 < k \<Longrightarrow> (\<lambda>j. (n + j) mod k) ` {..<k} = {..<k}" for n k :: nat
proof -
  assume k: "0 < k"
  have eq: "x = y" if "(n + x) mod k = (n + y) mod k" "x \<le> y" "y < k" for x y
  proof -
    have "k dvd (n + y) - (n + x)" using mod_eq_dvd_iff_nat [of "n + x" "n + y" k] that by simp
    then show ?thesis using that by (auto dest: dvd_imp_le)
  qed
  have "inj_on (\<lambda>j. (n + j) mod k) {..<k}"
  proof (rule inj_onI)
    fix x y assume "x \<in> {..<k}" "y \<in> {..<k}" "(n + x) mod k = (n + y) mod k"
    then show "x = y" using eq [of x y] eq [of y x] by (cases "x \<le> y") auto
  qed
  moreover have "(\<lambda>j. (n + j) mod k) ` {..<k} \<subseteq> {..<k}" using k by auto
  ultimately show ?thesis by (intro endo_inj_surj) simp_all
qed

end
