(* ===== verification/Player_Samples.thy ===== *)
theory Player_Samples
  imports Player_Wire Kcp_Samples Event_Loop
begin

text \<open>Concrete players, loops and texts for the witnesses.\<close>

definition two_cameras :: MonitorServer where
  "two_cameras = accept_client 9 ''10.0.0.3''
     \<lparr> qtClients = [], cams = [(''19a2b3-1'', ''10.0.0.2:5000''), (''19a2b3-2'', ''10.0.0.4:5000'')],
       server_addr = ''10.0.0.1:9000'', mon_sent = [], mon_udp = [] \<rparr>"

definition two_players_session :: "u32 \<Rightarrow> udpSession" where
  "two_players_session cv =
     \<lparr> videoUdpRtp = \<lparr>addr_ip = ''10.0.0.3'', addr_port = 50000\<rparr>, videoUdpRtcp = \<lparr>addr_ip = ''10.0.0.3'', addr_port = 50001\<rparr>,
       udp_ikcp = create_ready sample_alloc 400 cv, udp_conv = cv, kcp_runing = True, kcpThread = True \<rparr>"

definition two_players_client :: "u32 \<Rightarrow> QtClient" where
  "two_players_client cv =
     \<lparr>clientIp = ''10.0.0.3'', sessionMap = [(''19a2b3-1'', two_players_session cv)], qt_buffer = [], Cseq = 2\<rparr>"

definition two_players :: "u32 \<Rightarrow> MonitorServer" where
  "two_players cv =
     \<lparr> qtClients = [(9, two_players_client cv), (10, two_players_client cv)], cams = [(''19a2b3-1'', ''10.0.0.2:5000'')],
       server_addr = ''10.0.0.1:9000'', mon_sent = [], mon_udp = [] \<rparr>"

definition sample_loop :: "nat event_loop" where
  "sample_loop = loopAddUdp 9 1 (loopAddTcp 7 0 (new_event_loop 3 4 5 False))"

text \<open>A callback that gives up the UDP connection of a connection that closes.\<close>

definition sample_callbacks :: "nat callbacks" where
  "sample_callbacks a l =
     (case a of Tcp_closed c \<Rightarrow> if map_of (loopUdp l) 9 \<noteq> None then loopRemoveUdp 9 l else l | _ \<Rightarrow> l)"

lemma sample_loop_inv: "loop_inv sample_loop"
proof -
  have "loop_inv (loopAddTcp 7 0 (new_event_loop 3 4 5 False))"
    by (rule loopAddTcp_inv [OF new_event_loop_inv]) (simp_all add: new_event_loop_def)
  then show ?thesis
    unfolding sample_loop_def by (rule loopAddUdp_inv) (simp_all add: new_event_loop_def loopAddTcp_def)
qed

lemma sample_callbacks_ok: "callbacks_ok sample_callbacks"
proof -
  have "loop_inv (loopRemoveUdp 9 l)" if "loop_inv l" "map_of (loopUdp l) 9 \<noteq> None" for l :: "nat event_loop"
    using that by (intro loopRemove_inv(2)) (auto dest!: map_of_SomeD intro: rev_image_eqI)
  then show ?thesis
    by (auto simp: callbacks_ok_def sample_callbacks_def loopRemoveUdp_def split: action.split)
qed

end
