(* ===== verification/Thread_Pool.thy ===== *)
theory Thread_Pool
  imports Prelude
begin

text \<open>
  The server's thread pool (\<^verbatim>\<open>ThreadPool.cc\<close>, \<^verbatim>\<open>TaskQueue.cc\<close>): the task queue with its mutex and its
  condition variables, the workers, and the shutdown. A step is one access to the shared state:
  the workers' steps stop where \<^verbatim>\<open>pop\<close> takes the mutex, where it found nothing to do and is about to
  wait, and where it waits. The mutex is held exactly by a worker that is about to wait; every
  other use of it is one step. \<open>added\<close> and \<open>started\<close> record the tasks put in and taken out.
\<close>

datatype 'a worker = At_loop | Popping | About_to_wait | Waiting | Executing 'a | Stopped

datatype stopper = Up | Exit_set | Flag_set | Draining | Joining | Joined

record 'a pool =
  queue :: "'a list"
  queueSize :: nat
  threadNum :: nat
  notExit :: bool
  isExit :: bool
  workers :: "'a worker list"
  stopper :: stopper
  added :: "'a list"
  started :: "'a list"

definition new_pool :: "nat \<Rightarrow> nat \<Rightarrow> 'a pool" where
  "new_pool threads n = \<lparr> queue = [], queueSize = n, threadNum = threads, notExit = True, isExit = False, workers = [], stopper = Up,
     added = [], started = [] \<rparr>"

definition isEmpty :: "'a pool \<Rightarrow> bool" where
  "isEmpty p \<longleftrightarrow> length (queue p) = 0"

definition isFull :: "'a pool \<Rightarrow> bool" where
  "isFull p \<longleftrightarrow> length (queue p) = queueSize p"

definition mutex_free :: "'a pool \<Rightarrow> bool" where
  "mutex_free p \<longleftrightarrow> About_to_wait \<notin> set (workers p)"

text \<open>\<^verbatim>\<open>notify_one\<close> wakes some waiting worker, \<^verbatim>\<open>notify_all\<close> every one.\<close>

definition wake :: "'a worker \<Rightarrow> 'a worker" where
  "wake w = (if w = Waiting then Popping else w)"

inductive worker_step :: "'a pool \<Rightarrow> 'a worker \<Rightarrow> 'a pool \<Rightarrow> 'a worker \<Rightarrow> bool" where
  go_on: "\<not> isExit p \<Longrightarrow> worker_step p At_loop p Popping"
| leave: "isExit p \<Longrightarrow> worker_step p At_loop p Stopped"
| nothing: "mutex_free p \<Longrightarrow> isEmpty p \<Longrightarrow> notExit p \<Longrightarrow> worker_step p Popping p About_to_wait"
| wait: "worker_step p About_to_wait p Waiting"
| take: "mutex_free p \<Longrightarrow> queue p = t # ts \<Longrightarrow> notExit p \<Longrightarrow>
    worker_step p Popping (p\<lparr>queue := ts, started := started p @ [t]\<rparr>) (Executing t)"
| refuse: "mutex_free p \<Longrightarrow> \<not> notExit p \<Longrightarrow> worker_step p Popping p At_loop"
| finish: "worker_step p (Executing t) p At_loop"

inductive pool_step :: "'a pool \<Rightarrow> 'a pool \<Rightarrow> bool" where
  worker: "i < length (workers p) \<Longrightarrow> worker_step p (workers p ! i) p' w \<Longrightarrow>
    pool_step p (p'\<lparr>workers := (workers p)[i := w]\<rparr>)"
| spurious: "i < length (workers p) \<Longrightarrow> workers p ! i = Waiting \<Longrightarrow>
    pool_step p (p\<lparr>workers := (workers p)[i := Popping]\<rparr>)"
| start: "length (workers p) < threadNum p \<Longrightarrow> pool_step p (p\<lparr>workers := workers p @ [At_loop]\<rparr>)"
| add_idle: "mutex_free p \<Longrightarrow> \<not> isFull p \<Longrightarrow> Waiting \<notin> set (workers p) \<Longrightarrow>
    pool_step p (p\<lparr>queue := queue p @ [t], added := added p @ [t]\<rparr>)"
| add_wake: "mutex_free p \<Longrightarrow> \<not> isFull p \<Longrightarrow> i < length (workers p) \<Longrightarrow> workers p ! i = Waiting \<Longrightarrow>
    pool_step p (p\<lparr>queue := queue p @ [t], added := added p @ [t], workers := (workers p)[i := Popping]\<rparr>)"
| stop_exit: "stopper p = Up \<Longrightarrow> pool_step p (p\<lparr>isExit := True, stopper := Exit_set\<rparr>)"
| stop_flag: "stopper p = Exit_set \<Longrightarrow> pool_step p (p\<lparr>notExit := False, stopper := Flag_set\<rparr>)"
| stop_notify: "stopper p = Flag_set \<Longrightarrow> pool_step p (p\<lparr>workers := map wake (workers p), stopper := Draining\<rparr>)"
| stop_drained: "stopper p = Draining \<Longrightarrow> isEmpty p \<Longrightarrow> pool_step p (p\<lparr>stopper := Joining\<rparr>)"
| stop_joined: "stopper p = Joining \<Longrightarrow> \<forall>w \<in> set (workers p). w = Stopped \<Longrightarrow> pool_step p (p\<lparr>stopper := Joined\<rparr>)"

inductive pool_reach :: "'a pool \<Rightarrow> 'a pool \<Rightarrow> bool" for p0 where
  reached_now: "pool_reach p0 p0"
| step: "pool_reach p0 p \<Longrightarrow> pool_step p p' \<Longrightarrow> pool_reach p0 p'"

inductive_cases worker_stepE [elim!]: "worker_step p w p' w'"

section \<open>Tasks are run once, in order\<close>

definition pool_inv :: "'a pool \<Rightarrow> bool" where
  "pool_inv p \<longleftrightarrow> added p = started p @ queue p \<and> length (queue p) \<le> queueSize p \<and>
     (isExit p \<longleftrightarrow> stopper p \<noteq> Up) \<and> (notExit p \<longleftrightarrow> stopper p \<in> {Up, Exit_set}) \<and>
     (Stopped \<in> set (workers p) \<longrightarrow> isExit p) \<and> (workers p = [] \<longrightarrow> started p = [])"

lemma new_pool_inv: "pool_inv (new_pool threads n)"
  by (simp add: pool_inv_def new_pool_def)

lemma worker_step_keeps:
  assumes "worker_step p w p' w'" and "pool_inv p"
  shows "added p' = started p' @ queue p' \<and> length (queue p') \<le> queueSize p' \<and> isExit p' = isExit p \<and>
    notExit p' = notExit p \<and> stopper p' = stopper p \<and> queueSize p' = queueSize p \<and> (w' = Stopped \<longrightarrow> isExit p)"
  using assms by (auto simp: pool_inv_def)

lemma pool_step_inv:
  assumes "pool_step p p'" and "pool_inv p"
  shows "pool_inv p' \<and> queueSize p' = queueSize p"
  using assms
proof cases
  case (worker i p1 w)
  have "workers p \<noteq> []" using worker(2) by auto
  moreover have "Stopped \<in> set ((workers p)[i := w]) \<Longrightarrow> w = Stopped \<or> Stopped \<in> set (workers p)"
    using set_update_subset_insert [of "workers p" i w] by auto
  ultimately show ?thesis
    using worker_step_keeps [OF worker(3) assms(2)] worker(1) assms(2) by (auto simp: pool_inv_def)
next
  case (spurious i)
  then show ?thesis
    using assms(2) set_update_subset_insert [of "workers p" i Popping] by (auto simp: pool_inv_def)
next
  case (add_wake i t)
  then show ?thesis
    using assms(2) set_update_subset_insert [of "workers p" i Popping] by (auto simp: pool_inv_def isFull_def)
qed (auto simp: pool_inv_def wake_def isFull_def isEmpty_def split: if_splits)

lemma pool_reach_inv:
  assumes "pool_reach (new_pool threads n) p"
  shows "pool_inv p \<and> queueSize p = n"
  using assms
proof induction
  case reached_now
  show ?case using new_pool_inv by (auto simp: new_pool_def)
qed (use pool_step_inv in metis)

section \<open>The shutdown\<close>

text \<open>Once the flag is down no worker takes a task, so that a queue with a task never becomes empty.\<close>

lemma stuck_step:
  assumes "pool_step p p'" and "\<not> notExit p" and "queue p \<noteq> []" and "stopper p \<in> {Flag_set, Draining}"
  shows "\<not> notExit p' \<and> queue p' \<noteq> [] \<and> stopper p' \<in> {Flag_set, Draining}"
  using assms by cases (auto simp: isEmpty_def)

lemma stuck_forever:
  assumes "pool_reach p p'" and "\<not> notExit p" and "queue p \<noteq> []" and "stopper p \<in> {Flag_set, Draining}"
  shows "\<not> notExit p' \<and> queue p' \<noteq> [] \<and> stopper p' \<in> {Flag_set, Draining}"
  using assms by induction (use stuck_step in blast)+

text \<open>
  A worker that found nothing to do when the flag was still up and waits only after the
  notification is not woken.
\<close>

definition sleeper :: "nat pool" where
  "sleeper = (new_pool 1 10)\<lparr>workers := [Waiting], isExit := True, notExit := False, stopper := Joining\<rparr>"

lemma sleeper_reached: "pool_reach (new_pool 1 10) sleeper"
proof -
  define p0 where "p0 = (new_pool 1 10 :: nat pool)"
  define p1 where "p1 = p0\<lparr>workers := [At_loop]\<rparr>"
  define p2 where "p2 = p1\<lparr>workers := [Popping]\<rparr>"
  define p3 where "p3 = p2\<lparr>workers := [About_to_wait]\<rparr>"
  define p4 where "p4 = p3\<lparr>isExit := True, stopper := Exit_set\<rparr>"
  define p5 where "p5 = p4\<lparr>notExit := False, stopper := Flag_set\<rparr>"
  define p6 where "p6 = p5\<lparr>workers := map wake (workers p5), stopper := Draining\<rparr>"
  define p7 where "p7 = p6\<lparr>workers := [Waiting]\<rparr>"
  note ps = p0_def p1_def p2_def p3_def p4_def p5_def p6_def p7_def new_pool_def
  have 1: "pool_step p0 p1" unfolding p1_def using pool_step.start [of p0] by (simp add: p0_def new_pool_def)
  have 2: "pool_step p1 p2" unfolding p2_def using pool_step.worker [of 0 p1 p1 Popping] by (simp add: ps worker_step.go_on)
  have 3: "pool_step p2 p3" unfolding p3_def
    using pool_step.worker [of 0 p2 p2 About_to_wait] worker_step.nothing [of p2] by (simp add: ps mutex_free_def isEmpty_def)
  have 4: "pool_step p3 p4" unfolding p4_def by (rule stop_exit) (simp add: ps)
  have 5: "pool_step p4 p5" unfolding p5_def by (rule stop_flag) (simp add: ps)
  have 6: "pool_step p5 p6" unfolding p6_def by (rule stop_notify) (simp add: ps)
  have 7: "pool_step p6 p7" unfolding p7_def
    using pool_step.worker [of 0 p6 p6 Waiting] worker_step.wait [of p6] by (simp add: ps wake_def)
  have 8: "pool_step p7 (p7\<lparr>stopper := Joining\<rparr>)" by (rule stop_drained) (simp_all add: ps isEmpty_def)
  have "sleeper = p7\<lparr>stopper := Joining\<rparr>" by (simp add: ps sleeper_def wake_def)
  then show ?thesis
    unfolding p0_def [symmetric]
    using pool_reach.step [OF pool_reach.step [OF pool_reach.step [OF pool_reach.step [OF pool_reach.step [OF pool_reach.step
      [OF pool_reach.step [OF pool_reach.step [OF pool_reach.reached_now 1] 2] 3] 4] 5] 6] 7] 8] by simp
qed

text \<open>A shutdown that comes before any worker took the task.\<close>

definition stuck_pool :: "nat pool" where
  "stuck_pool = (new_pool 2 10)\<lparr>queue := [5], added := [5], isExit := True, notExit := False, stopper := Flag_set\<rparr>"

lemma stuck_pool_reached: "pool_reach (new_pool 2 10) stuck_pool"
proof -
  define p1 where "p1 = (new_pool 2 10)\<lparr>queue := [5 :: nat], added := [5]\<rparr>"
  have 1: "pool_step (new_pool 2 10) p1"
    using pool_step.add_idle [of "new_pool 2 10" 5] by (simp add: p1_def new_pool_def mutex_free_def isFull_def)
  have 2: "pool_step p1 (p1\<lparr>isExit := True, stopper := Exit_set\<rparr>)" by (rule stop_exit) (simp add: p1_def new_pool_def)
  have 3: "pool_step (p1\<lparr>isExit := True, stopper := Exit_set\<rparr>) stuck_pool"
    using stop_flag [of "p1\<lparr>isExit := True, stopper := Exit_set\<rparr>"] by (simp add: p1_def stuck_pool_def)
  show ?thesis by (rule pool_reach.step [OF pool_reach.step [OF pool_reach.step [OF pool_reach.reached_now 1] 2] 3])
qed

end
