(* ===== verification/Cam_Removal.thy ===== *)
theory Cam_Removal
  imports Prelude
begin

text \<open>
  Removing a camera (\<^verbatim>\<open>MonitorServer::removeCam\<close>) against the thread that updates the player's
  control block (\<^verbatim>\<open>kcp_update_thread\<close>). The thread tests its flag, takes the session's mutex, updates
  and sleeps; the removal takes the same mutex, clears the flag, joins the thread and releases
  the control block before it gives the mutex back.
\<close>

datatype updater = At_test | At_lock | Updating | Ended

datatype remover = Not_yet | Holding | Cleared | Released

record removal =
  kcp_flag :: bool
  updater :: updater
  remover :: remover

definition watching :: removal where
  "watching = \<lparr> kcp_flag = True, updater = At_test, remover = Not_yet \<rparr>"

definition kcp_mutex_free :: "removal \<Rightarrow> bool" where
  "kcp_mutex_free s \<longleftrightarrow> updater s \<noteq> Updating \<and> remover s \<notin> {Holding, Cleared}"

inductive removal_step :: "removal \<Rightarrow> removal \<Rightarrow> bool" where
  test_on: "updater s = At_test \<Longrightarrow> kcp_flag s \<Longrightarrow> removal_step s (s\<lparr>updater := At_lock\<rparr>)"
| test_off: "updater s = At_test \<Longrightarrow> \<not> kcp_flag s \<Longrightarrow> removal_step s (s\<lparr>updater := Ended\<rparr>)"
| lock: "updater s = At_lock \<Longrightarrow> kcp_mutex_free s \<Longrightarrow> removal_step s (s\<lparr>updater := Updating\<rparr>)"
| unlock: "updater s = Updating \<Longrightarrow> removal_step s (s\<lparr>updater := At_test\<rparr>)"
| remove: "remover s = Not_yet \<Longrightarrow> kcp_mutex_free s \<Longrightarrow> removal_step s (s\<lparr>remover := Holding\<rparr>)"
| clear: "remover s = Holding \<Longrightarrow> removal_step s (s\<lparr>kcp_flag := False, remover := Cleared\<rparr>)"
| join: "remover s = Cleared \<Longrightarrow> updater s = Ended \<Longrightarrow> removal_step s (s\<lparr>remover := Released\<rparr>)"

inductive removal_reach :: "removal \<Rightarrow> bool" where
  initially: "removal_reach watching"
| step: "removal_reach s \<Longrightarrow> removal_step s s' \<Longrightarrow> removal_reach s'"

inductive_cases removal_stepE: "removal_step s s'"

definition removal_inv :: "removal \<Rightarrow> bool" where
  "removal_inv s \<longleftrightarrow> (kcp_flag s \<longleftrightarrow> remover s \<in> {Not_yet, Holding}) \<and>
     (updater s = Updating \<longrightarrow> remover s \<notin> {Holding, Cleared}) \<and>
     (updater s = Ended \<longrightarrow> \<not> kcp_flag s) \<and> (remover s = Released \<longrightarrow> updater s = Ended)"

lemma removal_reach_inv: "removal_reach s \<Longrightarrow> removal_inv s"
proof (induction rule: removal_reach.induct)
  case initially
  show ?case by (simp add: removal_inv_def watching_def)
next
  case (step s s')
  from step(2) show ?case
    by (rule removal_stepE) (use step(3) in \<open>auto simp: removal_inv_def kcp_mutex_free_def\<close>)
qed

definition deadlocked :: removal where
  "deadlocked = \<lparr> kcp_flag = False, updater = At_lock, remover = Cleared \<rparr>"

definition removed :: removal where
  "removed = \<lparr> kcp_flag = False, updater = Ended, remover = Released \<rparr>"

lemma deadlocked_reached: "removal_reach deadlocked"
proof -
  define s1 where "s1 = watching\<lparr>updater := At_lock\<rparr>"
  define s2 where "s2 = s1\<lparr>remover := Holding\<rparr>"
  have 1: "removal_step watching s1" unfolding s1_def by (rule test_on) (simp_all add: watching_def)
  have 2: "removal_step s1 s2" unfolding s2_def by (rule remove) (simp_all add: s1_def watching_def kcp_mutex_free_def)
  have 3: "removal_step s2 (s2\<lparr>kcp_flag := False, remover := Cleared\<rparr>)" by (rule clear) (simp add: s2_def)
  have "s2\<lparr>kcp_flag := False, remover := Cleared\<rparr> = deadlocked" by (simp add: s2_def s1_def watching_def deadlocked_def)
  with removal_reach.step [OF removal_reach.step [OF removal_reach.step [OF removal_reach.initially 1] 2] 3] show ?thesis by simp
qed

text \<open>A reachable state in which nothing can happen is the end of the removal or the deadlock.\<close>

lemma removal_ends:
  assumes "removal_reach s" and "\<forall>s'. \<not> removal_step s s'"
  shows "s = deadlocked \<or> s = removed"
proof -
  have n: "\<not> removal_step s s'" for s' using assms(2) by blast
  have i: "removal_inv s" using assms(1) by (rule removal_reach_inv)
  have u: "updater s \<noteq> Updating" "updater s \<noteq> At_test" "remover s \<noteq> Holding"
    using n removal_step.intros by metis+
  show ?thesis
  proof (cases "updater s")
    case At_lock
    then have "\<not> kcp_mutex_free s" using n removal_step.lock by metis
    then have "remover s = Cleared" using At_lock u(3) by (simp add: kcp_mutex_free_def)
    then show ?thesis using At_lock i by (cases s) (simp add: deadlocked_def removal_inv_def)
  next
    case Ended
    then have "\<not> kcp_flag s" using i by (auto simp: removal_inv_def)
    then have "remover s = Cleared \<or> remover s = Released" using i by (cases "remover s") (auto simp: removal_inv_def)
    moreover have "remover s \<noteq> Cleared" using n removal_step.join [of s] Ended by metis
    ultimately show ?thesis using Ended i by (cases s) (simp add: removed_def removal_inv_def)
  qed (use u in simp_all)
qed

lemma deadlocked_stuck: "\<not> removal_step deadlocked s'"
  by (auto simp: deadlocked_def kcp_mutex_free_def elim!: removal_stepE)

end
