(* ===== verification/Spec2Isabelle.thy ===== *)
theory Spec2Isabelle
  imports Kcp_Samples Cam_Samples Server_Samples Camera_Machine Player_Samples Event_Loop Thread_Pool Cam_Removal
begin

text \<open>
  A verification development of car_detect: a camera that streams H.264 to a server over RTSP, RTP
  and KCP, the server that forwards the streams to players, and the player that puts the frames
  together again.

  \<^bold>\<open>The program and its model.\<close> The camera (\<^verbatim>\<open>src/camera\<close>, C) takes frames from a V4L2 device, encodes
  them, cuts the encoder's Annex B output into NAL units, packs the units into RTP packets and
  sends these over KCP on UDP or interleaved on the RTSP connection. The server
  (\<^verbatim>\<open>src/reactor\<close>, \<^verbatim>\<open>src/media\<close>, C++) has an event loop for each thread; an RTSP connection takes a
  camera through OPTIONS, ANNOUNCE, SETUP, RECORD and TEARDOWN, feeds its datagrams to KCP and hands
  each message to the monitor server, which pushes it into the KCP control block of every player
  that subscribed to the camera. The player (\<^verbatim>\<open>src/car_detect_qt\<close>, C++ with Qt) takes the packets out
  of its control block and reassembles the frames for its decoder.

  \<^bold>\<open>Common parts.\<close> \<^theory_text>\<open>Prelude\<close>: fault values (a failed assertion, an access outside an object, a
  division by zero, a call that does not return, an exception) and the result type
  \<^verbatim>\<open>fault + 'a\<close>, conversions to 32-bit integers, big-endian halves. \<^theory_text>\<open>Text\<close>: the string functions of
  the C and C++ libraries the sources use, and ordered maps with the locale \<^verbatim>\<open>dictionary\<close> that says
  what their users rely on. A handler's result is a fault or its new state; every error return
  is a branch.

  \<^bold>\<open>KCP\<close> (\<^verbatim>\<open>ikcp.c\<close>, \<^verbatim>\<open>ikcp.h\<close>; the three copies are the same file). \<^theory_text>\<open>Kcp_Codec\<close>: the wire format, in
  both compiled variants. \<^theory_text>\<open>Serial\<close>: comparison of sequence numbers modulo \<open>2 ^ 32\<close>. \<^theory_text>\<open>Kcp_State\<close>: the
  control block, creation and configuration; the allocator is a parameter, with soundness
  (what it gives has the size asked for) and totality (it does not run dry) as the named
  hypotheses \<^verbatim>\<open>allocator_sound\<close> and \<^verbatim>\<open>allocator_total\<close>. \<^theory_text>\<open>Kcp_Send\<close>, \<^theory_text>\<open>Kcp_Recv\<close>, \<^theory_text>\<open>Kcp_Flush\<close>, \<^theory_text>\<open>Kcp_Input\<close>:
  the operations, each with its lemmas. \<^theory_text>\<open>Kcp_Api\<close>: the invariant of the calls and the locale
  \<^verbatim>\<open>safe_machine\<close> (a step that is safe under its guard, so that any guarded sequence of steps is),
  interpreted on the KCP calls, the camera's calls, the link and the reassembler. \<^theory_text>\<open>Kcp_Link\<close>, \<^theory_text>\<open>Kcp_Messages\<close>,
  \<^theory_text>\<open>Kcp_Network\<close>: two control blocks and a network that loses, duplicates and reorders their datagrams.

  \<^bold>\<open>Camera.\<close> \<^theory_text>\<open>Rtsp_Session\<close>: the session (\<^verbatim>\<open>rtsp.h\<close>), the blocking write loop of \<^verbatim>\<open>tcp.c\<close> over the results the
  kernel gives, KCP as \<^verbatim>\<open>kcp.c\<close> sets it up. \<^theory_text>\<open>Rtp\<close>: \<^verbatim>\<open>rtp_send_h264\<close> with FU-A fragmentation and
  \<^verbatim>\<open>split_annexb_nalus\<close>, a reference packetizer, and the locale \<^verbatim>\<open>packet_sink\<close> of a transport that takes
  packets. \<^theory_text>\<open>Rtsp_Client\<close>: the requests and the parsers of the responses. \<^theory_text>\<open>Camera_Main\<close>: options,
  handshake, main loop, streaming thread (\<^verbatim>\<open>rtsp_client.c\<close>). \<^theory_text>\<open>Camera_Machine\<close>: the calls the camera's
  threads make on its control block, a second machine of \<^verbatim>\<open>safe_machine\<close> with the camera's parameters.

  \<^bold>\<open>Server.\<close> \<^theory_text>\<open>Tcp_Connection\<close>: the buffered connection and the extraction of requests and frames.
  \<^theory_text>\<open>Timers\<close>: \<^verbatim>\<open>TimerManager.cc\<close>. \<^theory_text>\<open>Request\<close>: the two request parsers. \<^theory_text>\<open>Monitor\<close>: \<^verbatim>\<open>MonitorServer.cc\<close>.
  \<^theory_text>\<open>Sessions\<close>: \<^verbatim>\<open>SessionManager.cc\<close>. \<^theory_text>\<open>Rtsp_Connect\<close>: \<^verbatim>\<open>RtspConnect.cc\<close>, every handler over the state it
  works on. \<^theory_text>\<open>Server\<close>: the step relation of a camera connection, its reachable states and the
  invariant. \<^theory_text>\<open>Wire\<close>: what one end prints the other reads, up to the handshake of camera and
  server. \<^theory_text>\<open>Cam_Removal\<close>: \<^verbatim>\<open>RTSP_PLAY_EventLoop\<close> and \<^verbatim>\<open>MonitorServer::removeCam\<close> as two threads over their two locks.
  \<^theory_text>\<open>Event_Loop\<close>: \<^verbatim>\<open>EventLoop.cc\<close>, \<^verbatim>\<open>Eventor.cc\<close> and \<^verbatim>\<open>SubEventLoop.cc\<close>, the queue of functions and its wake-up counter as a
  step relation between the loop and the threads that post to it, the registrations, the dispatch of
  a batch of events and the round robin over the loops. \<^theory_text>\<open>Thread_Pool\<close>: \<^verbatim>\<open>TaskQue.cc\<close> and \<^verbatim>\<open>ThreadPool.cc\<close> as a
  step relation of workers, producers and the thread that stops the pool.

  \<^bold>\<open>Player.\<close> \<^theory_text>\<open>Player\<close>: the text protocol with the monitor server and the table of streams
  (\<^verbatim>\<open>monitorclientwidget.cpp\<close>) and the KCP handler of one stream (\<^verbatim>\<open>kcphandler.cpp\<close>). \<^theory_text>\<open>Player_Wire\<close>: the texts the
  two ends exchange, over the server's own parser and handlers. \<^theory_text>\<open>Reassembler\<close>: \<^verbatim>\<open>parseRtp\<close> and
  \<^verbatim>\<open>H264RtpReassembler\<close>.

  \<^theory_text>\<open>Kcp_Samples\<close>, \<^theory_text>\<open>Cam_Samples\<close>, \<^theory_text>\<open>Server_Samples\<close> and \<^theory_text>\<open>Player_Samples\<close> hold the concrete values of the
  witnesses.

  \<^bold>\<open>What the theorems show.\<close> For camera and server together: the handshake makes both agree on
  session, ports and conversation, and printed requests survive the stream. For the server: its
  invariant in every reachable state, exactly one answer for each request, the byte stream of a
  connection, forwarding to the subscribers, and the faults the code runs into. For KCP: safety of
  any guarded sequence of calls, what a flush sends and that the peer accepts it, message
  boundaries, the receive window against a reference, acknowledgements, bounds; and from end to end,
  over any such network: what is received is a prefix of what was sent, and when the sender's queues
  are empty everything has arrived. For the media
  path: the packetizer equals its reference, headers and frames survive the way from the encoder
  to the decoder, and where they do not (the wrap-around of the sequence number). For player and
  server: a player that registers subscribes to every camera and stays subscribed, and the inputs
  that break this (two texts in one read, a second player on one address). For the threads:
  functions posted to a loop run once and in order, the pool runs its tasks in order, and the
  schedules that hang the shutdown of the pool and the removal of a camera.

  \<^bold>\<open>Bounds.\<close> No fuel is used: every loop of the model is structural or has a proved measure.
  Fewer than \<open>2 ^ 31\<close> fragments go over a link in each direction, so that an old datagram cannot pass for
  a new one. Datagrams are at most 65535 bytes and pending acknowledgements below \<open>2 ^ 31\<close>, which the
  callers' buffers (1500 and 2048 bytes) and the flush every ten milliseconds keep; strings on a
  connection are below \<open>2 ^ 31\<close> bytes.

  \<^bold>\<open>Not modelled.\<close> Socket, epoll and V4L2 system calls, the encoder, the decoder and the display
  (other code's work behind thin wrappers; what they return is an argument of the models), logging,
  the forwarding over TCP that is never called, starting and joining of the loops' threads, and the
  vendored FFmpeg headers. Outside \<^theory_text>\<open>Event_Loop\<close>, \<^theory_text>\<open>Thread_Pool\<close> and \<^theory_text>\<open>Cam_Removal\<close> a handler is one atomic step; data
  races between handlers on different threads are not part of those models.
\<close>

section \<open>KCP from end to end\<close>

text \<open>
  C1: Two ends that start with fresh control blocks of one conversation make any calls of the KCP API
  within their guards, while the network between them loses, duplicates and reorders datagrams at
  will. No call fails, and what \<^verbatim>\<open>ikcp_recv\<close> has given at either end is always a prefix of what
  \<^verbatim>\<open>ikcp_send\<close> accepted at the other: whole messages, unaltered, in order, none twice and none left
  out. The guards are those of the single calls, fewer than \<open>2 ^ 31\<close> fragments in each direction and an
  MTU that UDP can carry.
\<close>

theorem kcp_delivers_in_order:
  assumes "create_ready al n cv = Some kcp" and "allocator_sound al" and "allocator_total al"
    and "guarded link_step link_ok evs (al, \<lambda>x. start_end kcp)"
  shows "\<exists>rs al' l. run_calls link_step evs (al, \<lambda>x. start_end kcp) = Inr (rs, al', l) \<and>
    prefix (ep_got (l x)) (ep_sent (l (\<not> x)))"
  using link_runs [OF assms] link_inv_prefix by blast

theorem kcp_delivers_in_order_witness:
  "\<exists>rs al' l. run_calls link_step sample_arrival (sample_alloc, \<lambda>x. start_end sample_kcp) = Inr (rs, al', l) \<and>
    prefix (ep_got (l False)) (ep_sent (l (\<not> False)))"
  by (rule kcp_delivers_in_order [OF sample_kcp_ready sample_alloc_ok sample_arrival_guarded])

text \<open>
  C2: Nothing that \<^verbatim>\<open>ikcp_send\<close> accepted gets lost, whatever the network did: when \<^verbatim>\<open>ikcp_waitsnd\<close> answers
  0, every byte has arrived. The messages the peer already received, the segments in its receive queue
  and those in its receive buffer, put together in this order, are exactly the accepted messages.
\<close>

theorem kcp_loses_nothing:
  assumes "create_ready al n cv = Some kcp" and "allocator_sound al" and "allocator_total al"
    and "guarded link_step link_ok evs (al, \<lambda>x. start_end kcp)"
    and "run_calls link_step evs (al, \<lambda>x. start_end kcp) = Inr (rs, al', l)"
    and "ikcp_waitsnd (ep_block (l x)) = 0"
  shows "concat (ep_got (l (\<not> x))) @ payload (rcv_queue (ep_block (l (\<not> x)))) @
    payload (rcv_buf (ep_block (l (\<not> x)))) = concat (ep_sent (l x))"
proof -
  have "link_inv l" using link_runs [OF assms(1-4)] assms(5) by simp
  then show ?thesis using assms(6) by (rule drained_link)
qed

theorem kcp_loses_nothing_witness:
  "concat (ep_got (sample_arrived (\<not> True))) @ payload (rcv_queue (ep_block (sample_arrived (\<not> True)))) @
    payload (rcv_buf (ep_block (sample_arrived (\<not> True)))) = concat (ep_sent (sample_arrived True))"
proof -
  obtain rs al' where "run_calls link_step sample_arrival (sample_alloc, \<lambda>x. start_end sample_kcp) = Inr (rs, al', sample_arrived)"
    by (rule sample_arrived_run)
  moreover have "ikcp_waitsnd (ep_block (sample_arrived True)) = 0"
    using sample_arrived_view by (simp add: sample_view_def)
  ultimately show ?thesis
    by (rule kcp_loses_nothing [OF sample_kcp_ready sample_alloc_ok sample_arrival_guarded])
qed

text \<open>
  C3: What has arrived comes out: when the sender's queues are empty and the receiver has no gap left,
  the next \<^verbatim>\<open>ikcp_recv\<close> with room for it gives the next message the sender sent, as long as there is one.
\<close>

theorem kcp_gives_next_message:
  assumes "create_ready al n cv = Some kcp" and "allocator_sound al" and "allocator_total al"
    and "guarded link_step link_ok evs (al, \<lambda>x. start_end kcp)"
    and "run_calls link_step evs (al, \<lambda>x. start_end kcp) = Inr (rs, al', l)"
    and "ikcp_waitsnd (ep_block (l x)) = 0" and "rcv_buf (ep_block (l (\<not> x))) = []"
    and "ep_sent (l x) = ep_got (l (\<not> x)) @ m # ms" and "int (length m) \<le> len"
  shows "\<exists>k. ikcp_recv (ep_block (l (\<not> x))) len = Inr (int (length m), m, k)"
proof -
  have "link_inv l" using link_runs [OF assms(1-4)] assms(5) by simp
  then show ?thesis using assms(6,7,9,8) by (rule drained_next)
qed

theorem kcp_gives_next_message_witness:
  "\<exists>k. ikcp_recv (ep_block (sample_arrived (\<not> True))) 100 = Inr (int (length [1, 2, 3 :: byte]), [1, 2, 3], k)"
proof -
  obtain rs al' where r: "run_calls link_step sample_arrival (sample_alloc, \<lambda>x. start_end sample_kcp) = Inr (rs, al', sample_arrived)"
    by (rule sample_arrived_run)
  have "ikcp_waitsnd (ep_block (sample_arrived True)) = 0" "rcv_buf (ep_block (sample_arrived (\<not> True))) = []"
    "ep_sent (sample_arrived True) = ep_got (sample_arrived (\<not> True)) @ [1, 2, 3] # []"
    using sample_arrived_view by (simp_all add: sample_view_def)
  then show ?thesis
    by (rule kcp_gives_next_message [OF sample_kcp_ready sample_alloc_ok sample_arrival_guarded r]) simp
qed

section \<open>Camera and server\<close>

text \<open>
  C4: A camera joins: the server accepts the \<^verbatim>\<open>SETUP\<close> the camera prints, the camera reads the session
  and the server's port out of the response, and the \<^verbatim>\<open>RECORD\<close> it then prints is accepted too,
  whatever happened to the connection in between. Afterwards the server is recording, its control
  block has the camera's conversation number, its video connection is bound to the port the camera
  was told, and its peer is the port the camera asked for.
\<close>

theorem camera_joins:
  assumes "allocator_total al" and "word url" and "length url \<le> 255" and "0 < p" and "0 < q"
    and "sid = sessionId (rc_session (rc s))" and "plain_sid sid" and "\<not> rc_kcpThread (rc s)"
    and "- (2 ^ 31) \<le> cseq c" and "cseq c < 2 ^ 31 - 1"
  shows "\<exists>hs s1 c1. handleRequest al n fd (setup_text url (client_transport p q) c) s = sendResponse 200 ''OK'' hs (cseq c) s1 \<and>
    rtsp_parse_setup_response (response_text 200 ''OK'' hs (cseq c)) c = (0, c1) \<and> session_id c1 = sid \<and>
    (\<forall>tc. \<exists>s2 kcp u. handleRequest al n fd (record_text url cv (next_cseq c1)) (s1\<lparr>tcpConn := tc\<rparr>) =
        sendResponse 200 ''OK'' [(''Session'', sid)] (cseq c + 1) s2 \<and>
      rc_state (rc s2) = PLAYING \<and> camKcp (rc s2) = Block kcp \<and> conv kcp = cv \<and> kcpRunning (rc s2) \<and>
      videoRtpConn (rc_session (rc s2)) = Some u \<and> udp_callback u \<and>
      addr_port (udp_local u) = server_rtp_port c1 \<and> addr_port (udp_peer u) = p)"
proof -
  define port where "port = fst (allocateUdpPorts (mgr s))"
  define s1 where "s1 = setup_server fd p s"
  have "cseq c < 2 ^ 31" using assms(10) by simp
  then obtain t where r: "handleRequest al n fd (setup_text url (client_transport p q) c) s = sendResponse 200 ''OK''
      (omap_insert ''Session'' (sid @ '';timeout=60'') (omap_insert ''Transport'' (udp_transport t port (port + 1)) [])) (cseq c) s1"
    using server_setup [OF assms(2-5,9) _ port_def, where al = al and n = n and fd = fd] assms(6) unfolding s1_def by blast
  define c1 where "c1 = c\<lparr>server_rtp_port := port, server_rtcp_port := port + 1, rtpChannel := 0, rtcpChannel := 0,
      transType := ''udp'', session_id := sid\<rparr>"
  have a: "rtsp_parse_setup_response (setup_response (udp_transport t port (port + 1)) sid (cseq c)) c = (0, c1)"
    unfolding c1_def by (rule setup_answer_read [OF assms(7)])
  obtain u where u: "videoRtpConn (rc_session (rc s1)) = Some u" "addr_port (udp_local u) = port" "addr_port (udp_peer u) = p"
    by (simp add: s1_def setup_server_def Let_def case_prod_beta port_def)
  have s1: "rc_state (rc s1) = READY" "sessionId (rc_session (rc s1)) = sid" "\<not> rc_kcpThread (rc s1)"
    using assms(6,8) by (simp_all add: s1_def setup_server_def Let_def case_prod_beta)
  have cq: "cseq (next_cseq c1) = cseq c + 1" using assms(9,10) by (simp add: next_cseq_def c1_def)
  have "\<exists>s2 kcp u. handleRequest al n fd (record_text url cv (next_cseq c1)) (s1\<lparr>tcpConn := tc\<rparr>) =
        sendResponse 200 ''OK'' [(''Session'', sid)] (cseq c + 1) s2 \<and>
      rc_state (rc s2) = PLAYING \<and> camKcp (rc s2) = Block kcp \<and> conv kcp = cv \<and> kcpRunning (rc s2) \<and>
      videoRtpConn (rc_session (rc s2)) = Some u \<and> udp_callback u \<and>
      addr_port (udp_local u) = server_rtp_port c1 \<and> addr_port (udp_peer u) = p" for tc
  proof -
    have "session_id (next_cseq c1) = sid" by (simp add: next_cseq_def c1_def)
    then have "\<exists>kcp s'. handleRequest al n fd (record_text url cv (next_cseq c1)) (s1\<lparr>tcpConn := tc\<rparr>) =
        sendResponse 200 ''OK'' [(''Session'', sid)] (cseq c + 1) s' \<and> conv kcp = cv \<and> camKcp (rc s') = Block kcp \<and>
        rc_state (rc s') = PLAYING \<and> kcpRunning (rc s') \<and> videoRtpConn (rc_session (rc s')) = Some (u\<lparr>udp_callback := True\<rparr>)"
      using server_record [OF assms(1,2), of "next_cseq c1" "s1\<lparr>tcpConn := tc\<rparr>" u n fd cv] assms(7,9,10) s1 u(1)
      unfolding cq by simp
    then show ?thesis using u(2,3) by (fastforce simp: c1_def)
  qed
  moreover have "session_id c1 = sid" by (simp add: c1_def)
  ultimately show ?thesis using r a unfolding setup_response_def by blast
qed

theorem camera_joins_witness:
  "\<exists>hs s1 c1. handleRequest sample_alloc 400 7 (setup_text ''rtsp://10.0.0.1:8554/stream'' (client_transport 5004 5005) sample_kcp_session)
      sample_server = sendResponse 200 ''OK'' hs (cseq sample_kcp_session) s1 \<and>
    rtsp_parse_setup_response (response_text 200 ''OK'' hs (cseq sample_kcp_session)) sample_kcp_session = (0, c1) \<and>
    session_id c1 = ''1a-1'' \<and>
    (\<forall>tc. \<exists>s2 kcp u. handleRequest sample_alloc 400 7 (record_text ''rtsp://10.0.0.1:8554/stream'' 0xfffffff0 (next_cseq c1))
        (s1\<lparr>tcpConn := tc\<rparr>) = sendResponse 200 ''OK'' [(''Session'', ''1a-1'')] (cseq sample_kcp_session + 1) s2 \<and>
      rc_state (rc s2) = PLAYING \<and> camKcp (rc s2) = Block kcp \<and> conv kcp = 0xfffffff0 \<and> kcpRunning (rc s2) \<and>
      videoRtpConn (rc_session (rc s2)) = Some u \<and> udp_callback u \<and>
      addr_port (udp_local u) = server_rtp_port c1 \<and> addr_port (udp_peer u) = 5004)"
proof (rule camera_joins)
  show "word ''rtsp://10.0.0.1:8554/stream''" "plain_sid ''1a-1''" by code_simp+
  show "\<not> rc_kcpThread (rc sample_server)"
    by (simp add: sample_server_def new_RtspConnect_def generateSessionId_def Let_def)
  show "''1a-1'' = sessionId (rc_session (rc sample_server))" by (simp add: sample_server_session)
qed (simp_all add: sample_kcp_session_def rtsp_session_init_def)

text \<open>
  C5: Each request the camera prints, alone or with more data behind it, is cut off the server's
  buffer exactly and parsed into its method, its URL and its headers, as long as the word
  \<^verbatim>\<open>TEARDOWN\<close> does not occur and no header announces a body; a \<^verbatim>\<open>TEARDOWN\<close> request is too when it is
  alone in the buffer.
\<close>

theorem requests_arrive:
  assumes "word url" and "printable hs" and "text = print_request meth url hs" and "length (text @ rest) < 2 ^ 64" and "word meth"
    and "if meth = ''TEARDOWN'' then rest = [] \<and> find (tl text) ''TEARDOWN'' = None
      else find (text @ rest) ''TEARDOWN'' = None \<and>
        (\<forall>l \<in> set (request_lines meth url hs). \<not> iequals_prefix (dropWhile isspace l) ''content-length:'')"
  shows "tryExtractRtsp (text @ rest) = Inr (Some text, rest) \<and> parseRequest_rtsp text = Inr (meth, url, headers_of hs)"
proof (cases "meth = ''TEARDOWN''")
  case True
  then show ?thesis
    using teardown_extracted [OF assms(1,2)] parse_printed_request [OF assms(5,1,2)] assms(3,6) by simp
next
  case False
  then show ?thesis
    using request_extracted [OF assms(5,1,2) _ assms(3) _ assms(4)] parse_printed_request [OF assms(5,1,2)] assms(3,6) by simp
qed

theorem requests_arrive_witness:
  "tryExtractRtsp (print_request ''OPTIONS'' ''a'' [(''CSeq'', ''1'')] @ ''$'') =
     Inr (Some (print_request ''OPTIONS'' ''a'' [(''CSeq'', ''1'')]), ''$'') \<and>
   parseRequest_rtsp (print_request ''OPTIONS'' ''a'' [(''CSeq'', ''1'')]) = Inr (''OPTIONS'', ''a'', headers_of [(''CSeq'', ''1'')])"
proof (rule requests_arrive [OF _ _ refl _ plain_keys(9)])
  show "word ''a''" by code_simp
  show "printable [(''CSeq'', ''1'')]" by (simp add: printable_def plain_keys plain_value_def)
  have "find (print_request ''OPTIONS'' ''a'' [(''CSeq'', ''1'')] @ ''$'') ''TEARDOWN'' = None \<and>
      (\<forall>l \<in> set (request_lines ''OPTIONS'' ''a'' [(''CSeq'', ''1'')]). \<not> iequals_prefix (dropWhile isspace l) ''content-length:'')"
    by code_simp
  then show "if ''OPTIONS'' = ''TEARDOWN'' then ''$'' = [] \<and> find (tl (print_request ''OPTIONS'' ''a'' [(''CSeq'', ''1'')])) ''TEARDOWN'' = None
      else find (print_request ''OPTIONS'' ''a'' [(''CSeq'', ''1'')] @ ''$'') ''TEARDOWN'' = None \<and>
        (\<forall>l \<in> set (request_lines ''OPTIONS'' ''a'' [(''CSeq'', ''1'')]). \<not> iequals_prefix (dropWhile isspace l) ''content-length:'')"
    by simp
qed (simp add: print_request_def)

section \<open>Server: the camera connection\<close>





text \<open>
  C8: A \<^verbatim>\<open>RECORD\<close> of a camera that set up no video track over UDP, for instance one that chose TCP,
  never comes to an end: the handler installs its callback through a null pointer before it
  checks the state.
\<close>

theorem record_without_udp_faults:
  assumes "valid_session headers s" and "videoRtpConn (rc_session (rc s)) = None"
  shows "\<exists>f. handleRecord al n headers cq s = Inl f"
proof (cases "record_kcp al n headers (rc s)")
  case (Inr r)
  then have "rc_session r = rc_session (rc s)"
    by (auto simp: record_kcp_def initCamKcp_def rbind_Inr_iff split: option.splits)
  then show ?thesis using assms Inr by (auto simp: handleRecord_def start_receiving_def)
qed (use assms in \<open>simp add: handleRecord_def start_receiving_def\<close>)

theorem record_without_udp_faults_witness:
  "\<exists>f. handleRecord sample_alloc 400 [(''session'', ''1a-1''), (''kcpid'', ''7'')] 4 sample_server = Inl f"
proof (rule record_without_udp_faults)
  show "valid_session [(''session'', ''1a-1''), (''kcpid'', ''7'')] sample_server"
    by (simp add: valid_session_def sample_server_session) code_simp
  show "videoRtpConn (rc_session (rc sample_server)) = None"
    by (simp add: sample_server_def new_RtspConnect_def generateSessionId_def Let_def)
qed




section \<open>Server: the TCP connection\<close>

text \<open>
  C11: Nothing a connection is asked to send is lost, duplicated or reordered: after each send and
  each write event that does not close the connection, the bytes the kernel took and the bytes
  still buffered are together the ones sent so far, in order, and the loop watches for
  writability whenever bytes wait.
\<close>

theorem sent_stream_kept:
  assumes "conn_inv c" and "length msg < 2 ^ 31"
  shows "(conn_send msg c = Inr c' \<longrightarrow> conn_stream c' = conn_stream c @ msg \<and> conn_inv c') \<and>
    (handleWriteCallback c = Inr (False, c') \<longrightarrow> conn_stream c' = conn_stream c \<and> conn_inv c')"
  using conn_send_stream [OF assms(1)] assms(2) handleWriteCallback_stream [OF assms(1)] by blast

theorem sent_stream_kept_witness:
  "\<exists>c' c''. conn_send (replicate 1200 CHR ''x'') sample_conn = Inr c' \<and>
     conn_stream c' = conn_stream sample_conn @ replicate 1200 CHR ''x'' \<and> conn_inv c' \<and>
     handleWriteCallback sample_conn = Inr (False, c'') \<and> conn_stream c'' = conn_stream sample_conn \<and> conn_inv c''"
proof -
  obtain c' where c': "conn_send (replicate 1200 CHR ''x'') sample_conn = Inr c'"
    using conn_send_returns [OF sample_conn_ok(2,3), of "replicate 1200 CHR ''x''"] by auto
  obtain c'' where c'': "handleWriteCallback sample_conn = Inr (False, c'')"
    by (simp add: handleWriteCallback_def sample_conn_def)
  have "length (replicate 1200 CHR ''x'') < 2 ^ 31" by simp
  from sent_stream_kept [OF sample_conn_ok(1) this] c' c'' show ?thesis by blast
qed

text \<open>
  C12: A write event on a socket that takes what is buffered sends all of it, empties the buffer
  and stops watching for writability.
\<close>

theorem write_event_drains:
  assumes "steady (length (sendBuffer c)) (sock_writes c)"
  shows "\<exists>c'. handleWriteCallback c = Inr (False, c') \<and> sendBuffer c' = [] \<and> \<not> isWriting c' \<and>
    \<not> epollWrite c' \<and> sock_sent c' = conn_stream c"
  using assms by (rule handleWriteCallback_drains)

theorem write_event_drains_witness:
  "\<exists>c'. handleWriteCallback (sample_conn\<lparr>sendBuffer := ''abc'', isWriting := True, epollWrite := True,
        sock_writes := [Wrote 2, Interrupted, Wrote 1, Wrote 1]\<rparr>) = Inr (False, c') \<and>
    sendBuffer c' = [] \<and> \<not> isWriting c' \<and> \<not> epollWrite c' \<and>
    sock_sent c' = conn_stream (sample_conn\<lparr>sendBuffer := ''abc'', isWriting := True, epollWrite := True,
        sock_writes := [Wrote 2, Interrupted, Wrote 1, Wrote 1]\<rparr>)"
  by (rule write_event_drains) (simp add: steady_def blocking_def)

text \<open>
  C13: When a \<^verbatim>\<open>TEARDOWN\<close> arrives together with the request before it, both are lost: the extraction
  gives an empty request and empties the buffer; when more than that lies between them, it throws.
\<close>

theorem pipelined_teardown_lost:
  assumes "find buf head_end = Some h" and "rfind buf ''TEARDOWN'' = Some t" and "h + 4 \<le> t"
  shows "tryExtractRtsp buf = (if t = h + 4 then Inr (Some [], []) else Inl Exception)"
  using assms teardown_after_request teardown_far_after_request by auto

theorem pipelined_teardown_lost_witness:
  "tryExtractRtsp (''RECORD'' @ head_end @ ''TEARDOWN'' @ head_end) =
     (if (10 :: nat) = 6 + 4 then Inr (Some [], []) else Inl Exception)"
  by (rule pipelined_teardown_lost) code_simp+

section \<open>Server: players, ports and timers\<close>

text \<open>
  C14: A packet of a camera is pushed into the control block of every player that subscribed to the
  camera and to no other, none of the sends faults, and the server's invariant holds again.
\<close>

theorem packet_reaches_subscribers:
  assumes "allocator_total al" and "mon_inv m"
  shows "\<exists>m'. onNaluUdp al sid packet m = Inr m' \<and> mon_inv m' \<and> map fst (qtClients m') = map fst (qtClients m) \<and>
    list_all2 (\<lambda>x y. pushed al sid packet (snd x) (snd y)) (qtClients m) (qtClients m')"
  using assms by (rule onNaluUdp_ok)

theorem packet_reaches_subscribers_witness:
  "\<exists>m'. onNaluUdp sample_alloc ''1a-1'' short_nalu (accept_client 9 ''10.0.0.3'' sample_monitor) = Inr m' \<and> mon_inv m' \<and>
    map fst (qtClients m') = map fst (qtClients (accept_client 9 ''10.0.0.3'' sample_monitor)) \<and>
    list_all2 (\<lambda>x y. pushed sample_alloc ''1a-1'' short_nalu (snd x) (snd y))
      (qtClients (accept_client 9 ''10.0.0.3'' sample_monitor)) (qtClients m')"
  by (rule packet_reaches_subscribers) (simp_all add: accept_client_inv sample_monitor_ok)



section \<open>Player\<close>

text \<open>
  C16: A player that connects gets the list of the cameras, opens a stream for each and subscribes to
  it: the server understands both of the player's requests and the player the server's answer.
  Afterwards every camera has a handler at the player and a session at the server that
  agree on the conversation number and on the player's port. The requests must fit the server's read of
  256 characters.
\<close>

theorem player_joins:
  assumes "allocator_total al" and "omap_ok (qtClients m)" and "map_of (qtClients m) fd = Some client"
    and "qt_buffer client = []" and "sessionMap client = []" and "word ip"
    and "cams m \<noteq> []" and "length (cams m) < 2 ^ 31" and "omap_ok (cams m)" and "\<forall>sid \<in> fst ` set (cams m). plain_sid sid"
    and "length ip + sum_list (map (\<lambda>(sid, _). length sid + 26) (cams m)) \<le> 229"
    and "p = sendSetup (new_player ip port)"
  shows "\<exists>m1 answer p1 m2 c.
    client_data al n fd (Data (last (pl_sent p))) m = Inr m1 \<and> last (mon_sent m1) = (fd, answer) \<and>
    onReadyRead al n osp answer p = Inr p1 \<and> client_data al n fd (Data (last (pl_sent p1))) m1 = Inr m2 \<and>
    map_of (qtClients m2) fd = Some c \<and>
    (\<forall>sid \<in> fst ` set (cams m). \<exists>h s kcp kcp'. h \<in> set (handlers p1) \<and> streamName h = sid \<and> kh_kcp h = Some kcp \<and>
       map_of (sessionMap c) sid = Some s \<and> udp_ikcp s = Some kcp' \<and> conv kcp = conv kcp' \<and> udp_conv s = conv kcp \<and>
       videoUdpRtp s = \<lparr>addr_ip = clientIp client, addr_port = kh_port h\<rparr>)"
proof -
  obtain m1 answer p1 m2 c where j: "client_data al n fd (Data (last (pl_sent p))) m = Inr m1" "last (mon_sent m1) = (fd, answer)"
    "onReadyRead al n osp answer p = Inr p1" "served p1" "map fst (camMap p1) = map fst (cams m)"
    "client_data al n fd (Data (last (pl_sent p1))) m1 = Inr m2" "map_of (qtClients m2) fd = Some c"
    "\<forall>(sid, u) \<in> set (camMap p1). \<exists>s. map_of (sessionMap c) sid = Some s \<and> watches (clientIp client) u s"
    using player_subscribed [OF assms, of n osp] by blast
  have "\<exists>h s kcp kcp'. h \<in> set (handlers p1) \<and> streamName h = sid \<and> kh_kcp h = Some kcp \<and>
       map_of (sessionMap c) sid = Some s \<and> udp_ikcp s = Some kcp' \<and> conv kcp = conv kcp' \<and> udp_conv s = conv kcp \<and>
       videoUdpRtp s = \<lparr>addr_ip = clientIp client, addr_port = kh_port h\<rparr>" if "sid \<in> fst ` set (cams m)" for sid
  proof -
    have "sid \<in> fst ` set (camMap p1)" using that j(5) by (metis list.set_map)
    then obtain u where u: "(sid, u) \<in> set (camMap p1)" by auto
    then obtain s where s: "map_of (sessionMap c) sid = Some s" "watches (clientIp client) u s" using j(8) by blast
    obtain h kcp where h: "h \<in> set (handlers p1)" "streamName h = sid" "kh_port h = udpRtpPort u" "kh_kcp h = Some kcp"
      "conv kcp = port_conv u" using j(4) u by (fastforce simp: served_def)
    then show ?thesis using s by (auto simp: watches_def)
  qed
  then show ?thesis using j by blast
qed

theorem player_joins_witness:
  "\<exists>m1 answer p1 m2 c.
    client_data sample_alloc 400 9 (Data (last (pl_sent (sendSetup (new_player ''10.0.0.3'' 40000))))) two_cameras = Inr m1 \<and>
    last (mon_sent m1) = (9, answer) \<and>
    onReadyRead sample_alloc 400 (\<lambda>i. 50000 + of_nat i) answer (sendSetup (new_player ''10.0.0.3'' 40000)) = Inr p1 \<and>
    client_data sample_alloc 400 9 (Data (last (pl_sent p1))) m1 = Inr m2 \<and> map_of (qtClients m2) 9 = Some c \<and>
    (\<forall>sid \<in> fst ` set (cams two_cameras). \<exists>h s kcp kcp'. h \<in> set (handlers p1) \<and> streamName h = sid \<and> kh_kcp h = Some kcp \<and>
       map_of (sessionMap c) sid = Some s \<and> udp_ikcp s = Some kcp' \<and> conv kcp = conv kcp' \<and> udp_conv s = conv kcp \<and>
       videoUdpRtp s = \<lparr>addr_ip = ''10.0.0.3'', addr_port = kh_port h\<rparr>)"
proof -
  have c: "word ''10.0.0.3''" "list_all (\<lambda>sid. plain_sid sid) [''19a2b3-1'', ''19a2b3-2'']" by code_simp+
  have "fst ` set (cams two_cameras) = {''19a2b3-1'', ''19a2b3-2''}" by (simp add: two_cameras_def accept_client_def)
  then have s: "\<forall>sid \<in> fst ` set (cams two_cameras). plain_sid sid" using c(2) by simp
  show ?thesis
    using player_joins [OF _ _ _ _ _ c(1) _ _ _ s _ refl, of sample_alloc 9
        "\<lparr>clientIp = ''10.0.0.3'', sessionMap = [], qt_buffer = [], Cseq = 0\<rparr>" 400 40000 "\<lambda>i. 50000 + of_nat i"]
    by (simp add: two_cameras_def accept_client_def sample_alloc_ok)
qed

text \<open>
  C17: Whatever text the server or anybody in its place sends, the player handles it without a fault
  and its tables stay well formed: the cameras are in key order and each has a handler with its
  port and conversation number.
\<close>

theorem player_stays_served:
  assumes "allocator_total al" and "served p"
  shows "\<exists>p'. onReadyRead al n osp got p = Inr p' \<and> served p'"
  using assms by (rule onReadyRead_served)

theorem player_stays_served_witness:
  "\<exists>p'. onReadyRead sample_alloc 400 (\<lambda>i. 50000) ''200 OK?'' (new_player ''10.0.0.3'' 40000) = Inr p' \<and> served p'"
  by (rule player_stays_served) (simp_all add: sample_alloc_ok served_def new_player_def)

text \<open>
  C18: A datagram of a stream goes through the player without a fault in KCP: the receive loop ends, the
  messages it hands on are non-empty and are, with what remains, exactly the bytes that had arrived in
  order; unless an empty message was among them no complete message that fits the buffer of 4096 bytes is left.
\<close>

theorem player_takes_all_messages:
  assumes "allocator_sound al" and "allocator_total al" and "kh_kcp h = Some kcp" and "api_inv kcp"
    and "length d \<le> 65535" and "unat (ackcount kcp) + length d < 2 ^ 31"
  shows "\<exists>ret k1 msgs k2. ikcp_input al kcp (Some d) (int (length d)) = Inr (ret, k1) \<and> api_inv k2 \<and>
    handleReadyRead al (d # ds) (h, r) =
      rbind (handle_all (streamName h) msgs r) (\<lambda>r. handleReadyRead al ds (h\<lparr>kh_kcp := Some k2\<rparr>, r)) \<and>
    payload (arrived k1) = concat msgs @ payload (arrived k2) \<and> [] \<notin> set msgs \<and>
    ((\<exists>s \<in> set (arrived k1). seg_data s = []) \<or> \<not> msg_complete k2 \<or> 4096 < length (payload (first_msg (rcv_queue k2))))"
proof -
  obtain ret k1 where 1: "ikcp_input al kcp (Some d) (int (length d)) = Inr (ret, k1)" "api_inv k1"
    using input_api [OF assms(4,1,2), of d] assms(5,6) by auto
  obtain msgs k2 where 2: "handleKcpRecv k1 = Inr (msgs, k2)" "api_inv k2" "payload (arrived k1) = concat msgs @ payload (arrived k2)"
    "[] \<notin> set msgs" "(\<forall>s \<in> set (arrived k1). seg_data s \<noteq> []) \<longrightarrow> msg_complete k2 \<longrightarrow> 4096 < length (payload (first_msg (rcv_queue k2)))"
    using handleKcpRecv_ok [OF 1(2)] by blast
  then show ?thesis using 1 assms(3) by auto
qed

theorem player_takes_all_messages_witness:
  "\<exists>ret k1 msgs k2. ikcp_input sample_alloc (the (create_ready sample_alloc 400 1001)) (Some [1, 2, 3]) (int (length [1, 2, 3 :: byte])) = Inr (ret, k1) \<and> api_inv k2 \<and>
    handleReadyRead sample_alloc [[1, 2, 3]] (\<lparr> streamName = ''a'', kh_port = 50000,
        kh_kcp = Some (the (create_ready sample_alloc 400 1001)), kh_sent = [] \<rparr>, new_reassembler) =
      rbind (handle_all ''a'' msgs new_reassembler) (\<lambda>r. handleReadyRead sample_alloc [] (\<lparr> streamName = ''a'', kh_port = 50000,
        kh_kcp = Some k2, kh_sent = [] \<rparr>, r)) \<and>
    payload (arrived k1) = concat msgs @ payload (arrived k2) \<and> [] \<notin> set msgs \<and>
    ((\<exists>s \<in> set (arrived k1). seg_data s = []) \<or> \<not> msg_complete k2 \<or> 4096 < length (payload (first_msg (rcv_queue k2))))"
proof -
  obtain kcp where kcp: "create_ready sample_alloc 400 1001 = Some kcp" "ackcount kcp = 0"
    using sample_alloc_ok by (auto simp: create_ready_def ikcp_create_def ikcp_setoutput_def allocator_total_def)
  show ?thesis
    using player_takes_all_messages [OF sample_alloc_ok, of "\<lparr> streamName = ''a'', kh_port = 50000, kh_kcp = Some kcp, kh_sent = [] \<rparr>" kcp
      "[1, 2, 3]" "[]" new_reassembler] create_api [OF kcp(1)] kcp by simp
qed



text \<open>
  C20: Of two messages that arrive in one read the player keeps the second one without its first
  character: it is not answered, no stream is opened for it, and the first character of
  what arrives next is lost as well.
\<close>

theorem message_behind_another_lost:
  assumes "allocator_total al" and "served p" and "pl_buffer p = []" and "word addr" and "plain_sid s1" and "plain_sid s2"
  shows "\<exists>p1 p2. onReadyRead al n osp (addcam_text addr i s1 @ addcam_text addr j s2) p = Inr p1 \<and>
    fst ` set (camMap p1) = insert s1 (fst ` set (camMap p)) \<and>
    onReadyRead al n osp got p1 = Inr p2 \<and> camMap p2 = camMap p1 \<and> pl_sent p2 = pl_sent p1 \<and> pl_buffer p2 = drop 1 got"
  using assms by (rule two_messages_in_one_read)

theorem message_behind_another_lost_witness:
  "\<exists>p1 p2. onReadyRead sample_alloc 400 (\<lambda>i. 50000)
      (addcam_text ''10.0.0.1:9000'' 2 ''19a2b3-1'' @ addcam_text ''10.0.0.1:9000'' 3 ''19a2b3-2'') (new_player ''10.0.0.3'' 40000) = Inr p1 \<and>
    fst ` set (camMap p1) = insert ''19a2b3-1'' (fst ` set (camMap (new_player ''10.0.0.3'' 40000))) \<and>
    onReadyRead sample_alloc 400 (\<lambda>i. 50000) ''DELCAM'' p1 = Inr p2 \<and> camMap p2 = camMap p1 \<and> pl_sent p2 = pl_sent p1 \<and>
    pl_buffer p2 = drop 1 ''DELCAM''"
proof (rule message_behind_another_lost)
  show "word ''10.0.0.1:9000''" "plain_sid ''19a2b3-1''" "plain_sid ''19a2b3-2''" by code_simp+
qed (simp_all add: sample_alloc_ok served_def new_player_def)

section \<open>Camera program\<close>



section \<open>Event loops\<close>

text \<open>
  C22: No wake-up of a loop is lost: from every reachable state of its queue the loop's thread can run until
  it has nothing left to do, and then it has run everything that was queued, in order.
\<close>

theorem queued_functions_run:
  assumes "eventor_reach e"
  shows "\<exists>e'. loop_step\<^sup>*\<^sup>* e e' \<and> (\<forall>e''. \<not> loop_step e' e'') \<and> executed e' = queued e"
proof -
  obtain e' where e': "loop_step\<^sup>*\<^sup>* e e'" "\<forall>e''. \<not> loop_step e' e''" using loop_finishes [of e] by blast
  have "eventor_inv e'" "queued e' = queued e" using loop_steps_inv [OF e'(1) eventor_reach_inv [OF assms]] by simp_all
  then show ?thesis using idle_all_executed [of e'] e' by auto
qed

theorem queued_functions_run_witness:
  "\<exists>e'. loop_step\<^sup>*\<^sup>* (addEventcb (8 :: nat) (addEventcb 7 new_eventor)) e' \<and> (\<forall>e''. \<not> loop_step e' e'') \<and>
    executed e' = queued (addEventcb (8 :: nat) (addEventcb 7 new_eventor))"
proof (rule queued_functions_run)
  have "eventor_reach (addEventcb (7 :: nat) new_eventor)"
    by (rule eventor_reach.step [OF eventor_reach.start]) (rule eventor_step.other, simp add: new_eventor_def)
  then show "eventor_reach (addEventcb (8 :: nat) (addEventcb 7 new_eventor))"
    by (rule eventor_reach.step) (rule eventor_step.other, simp add: new_eventor_def addEventcb_def)
qed



section \<open>Threads\<close>

text \<open>
  C24: In every reachable state of the thread pool the tasks were taken out in the order they were put in,
  none lost or taken twice; the queue holds at most its bound, so that as long as no worker was
  started at most that many tasks can be added.
\<close>

theorem pool_runs_in_order:
  assumes "pool_reach (new_pool threads n) p"
  shows "added p = started p @ queue p \<and> length (queue p) \<le> n \<and> (workers p = [] \<longrightarrow> length (added p) \<le> n)"
  using pool_reach_inv [OF assms] by (auto simp: pool_inv_def)

theorem pool_runs_in_order_witness:
  "added sleeper = started sleeper @ queue sleeper \<and> length (queue sleeper) \<le> 10"
  using pool_runs_in_order [OF sleeper_reached] by simp

text \<open>
  C25: Once the shutdown has lowered the flag while tasks are queued, no worker takes one any more and
  the loop that waits for the queue to empty never ends.
\<close>

theorem pool_stop_hangs:
  assumes "pool_reach (new_pool threads n) p" and "stopper p \<in> {Flag_set, Draining}" and "queue p \<noteq> []" and "pool_reach p p'"
  shows "queue p' \<noteq> [] \<and> stopper p' \<in> {Flag_set, Draining}"
proof -
  have "\<not> notExit p" using pool_reach_inv [OF assms(1)] assms(2) by (auto simp: pool_inv_def)
  then show ?thesis using stuck_forever [OF assms(4) _ assms(3,2)] by blast
qed

theorem pool_stop_hangs_witness:
  "queue (stuck_pool\<lparr>stopper := Draining\<rparr>) \<noteq> [] \<and> stopper (stuck_pool\<lparr>stopper := Draining\<rparr>) \<in> {Flag_set, Draining}"
proof (rule pool_stop_hangs)
  show "pool_reach (new_pool 2 10) stuck_pool" by (rule stuck_pool_reached)
  have "pool_step stuck_pool (stuck_pool\<lparr>workers := map wake (workers stuck_pool), stopper := Draining\<rparr>)"
    by (rule stop_notify) (simp add: stuck_pool_def)
  then have "pool_step stuck_pool (stuck_pool\<lparr>stopper := Draining\<rparr>)" by (simp add: stuck_pool_def new_pool_def)
  then show "pool_reach stuck_pool (stuck_pool\<lparr>stopper := Draining\<rparr>)" by (rule pool_reach.step [OF pool_reach.reached_now])
qed (simp_all add: stuck_pool_def)

text \<open>
  C26: Removing a camera against the update thread of a player's session: from every reachable
  state the two go on, or the removal is complete, or they wait for each other (the removal
  joins the thread while it holds the mutex the thread is about to take); the deadlock is
  reachable.
\<close>

theorem removal_can_deadlock:
  assumes "removal_reach s"
  shows "((\<exists>s'. removal_step s s') \<or> s = removed \<or> s = deadlocked) \<and> removal_reach deadlocked \<and> (\<forall>s'. \<not> removal_step deadlocked s')"
  using removal_ends [OF assms] deadlocked_reached deadlocked_stuck by blast

theorem removal_can_deadlock_witness:
  "((\<exists>s'. removal_step watching s') \<or> watching = removed \<or> watching = deadlocked) \<and> removal_reach deadlocked \<and>
    (\<forall>s'. \<not> removal_step deadlocked s')"
  by (rule removal_can_deadlock [OF removal_reach.initially])

section \<open>KCP\<close>

text \<open>
  C27: A program that creates a control block, installs an output callback and then makes any
  sequence of API calls within their guards never makes KCP fail: no assertion, no access
  outside an object, no division by zero, no endless loop; and every call leaves the control
  block well formed.
\<close>

theorem kcp_calls_safe:
  assumes "create_ready al n cv = Some kcp" and "allocator_sound al" and "allocator_total al"
    and "guarded env_step env_ok cs (al, kcp)"
  shows "\<exists>xs s. run_calls env_step cs (al, kcp) = Inr (xs, s) \<and> kcp_inv (snd s) \<and> length xs = length cs"
  using kcp.run_safe [of "(al, kcp)" cs] create_api [OF assms(1)] assms(2-4)
  by (auto simp: env_inv_def api_inv_def)

theorem kcp_calls_safe_witness:
  "\<exists>xs s. run_calls env_step sample_calls (sample_alloc, sample_kcp) = Inr (xs, s) \<and>
     kcp_inv (snd s) \<and> length xs = length sample_calls"
proof -
  have "guarded env_step env_ok sample_calls (sample_alloc, sample_kcp)" by code_simp
  with sample_kcp_ready sample_alloc_ok show ?thesis by (rule kcp_calls_safe)
qed

text \<open>
  C28: A flush sends exactly the pending acknowledgements, then the window commands, then the
  segments that are due, each whole and in this order; every datagram is non-empty and no
  longer than the MTU; the control block stays well formed.
\<close>

theorem flush_sends:
  assumes "kcp_inv kcp" and "output_cb kcp" and "unat (ackcount kcp) < 2 ^ 31" and "updated kcp \<noteq> 0"
  shows "\<exists>kcp' outs gs sn ts. ikcp_flush kcp = Inr (kcp', outs) \<and> outs = map concat gs \<and>
    concat gs = ack_items kcp @ ctl_items kcp sn ts @ data_items kcp \<and>
    (\<forall>d \<in> set outs. d \<noteq> [] \<and> length d \<le> unat (mtu kcp)) \<and> kcp_inv kcp'"
proof -
  obtain kcp' outs gs sn ts where f: "ikcp_flush kcp = Inr (kcp', outs)" "outs = map concat gs"
    "concat gs = ack_items kcp @ ctl_items kcp sn ts @ data_items kcp"
    "\<forall>d \<in> set outs. d \<noteq> [] \<and> length d \<le> unat (mtu kcp)" and r: "flush_result kcp kcp'"
    using flush_ok [OF assms] by blast
  have "kcp_inv kcp'" by (rule flush_result_inv(1) [OF assms(1) r])
  with f show ?thesis by blast
qed

theorem flush_sends_witness:
  "\<exists>kcp' outs gs sn ts. ikcp_flush sample_sender = Inr (kcp', outs) \<and> outs = map concat gs \<and>
    concat gs = ack_items sample_sender @ ctl_items sample_sender sn ts @ data_items sample_sender \<and>
    (\<forall>d \<in> set outs. d \<noteq> [] \<and> length d \<le> 1400) \<and> kcp_inv kcp'"
proof -
  have u: "updated sample_sender \<noteq> 0" "unat (mtu sample_sender) = 1400" by code_simp+
  show ?thesis
    using flush_sends [of sample_sender] sample_sender_inv u by (simp add: api_inv_def)
qed

text \<open>
  C29: Two ends of a conversation understand each other: \<^verbatim>\<open>ikcp_input\<close> at one end accepts (returns
  0 for) every datagram a flush at the other end sends.
\<close>

theorem flush_peer_accepts:
  assumes "kcp_inv a" and "output_cb a" and "unat (ackcount a) < 2 ^ 31" and "unat (mtu a) \<le> 65535"
    and "ikcp_flush a = Inr (a', outs)" and "d \<in> set outs"
    and "kcp_inv b" and "conv b = conv a" and "allocator_sound al" and "allocator_total al"
    and "unat (ackcount b) + length d < 2 ^ 31"
  shows "\<exists>b'. ikcp_input al b (Some d) (int (length d)) = Inr (0, b') \<and> kcp_inv b'"
proof -
  obtain segs where d: "d = concat (map wire_seg segs)" and s: "\<forall>s \<in> set segs. sendable (conv b) s"
    and l: "d \<noteq> []" "length d \<le> unat (mtu a)"
    using flush_datagrams [OF assms(1-6)] assms(8) by auto
  have "segs \<noteq> []" using d l(1) by auto
  moreover have "length d < 2 ^ 31" using l(2) assms(4) by simp
  ultimately show ?thesis
    using input_accepts [OF assms(7,9,10) s] d assms(11) by simp
qed

theorem flush_peer_accepts_witness:
  "\<exists>a' d b'. ikcp_flush sample_waiting = Inr (a', [d]) \<and>
     ikcp_input sample_alloc sample_kcp (Some d) (int (length d)) = Inr (0, b') \<and> kcp_inv b'"
proof -
  have "\<not> isl (ikcp_flush sample_waiting)" "map length (snd (projr (ikcp_flush sample_waiting))) = [27]"
    by code_simp+
  then obtain a' d where f: "ikcp_flush sample_waiting = Inr (a', [d])" "length d = 27"
    by (cases "ikcp_flush sample_waiting") (auto simp: map_eq_Cons_conv)
  have v: "unat (mtu sample_waiting) = 1400" "conv sample_kcp = conv sample_waiting" "ackcount sample_kcp = 0"
    by code_simp+
  show ?thesis
    using flush_peer_accepts [of sample_waiting a' "[d]" d sample_kcp sample_alloc]
      sample_waiting_inv sample_kcp_inv f v by (simp add: api_inv_def)
qed

text \<open>
  C30: \<^verbatim>\<open>ikcp_recv\<close> gives the first message of the receive queue, whole, if it is complete and
  fits the buffer (a negative length only peeks); otherwise it answers -1 (nothing there),
  -2 (message incomplete) or -3 (buffer too small) and changes nothing. Its assertion
  never fails and the user's buffer is never overrun.
\<close>

theorem recv_first_message:
  assumes "kcp_inv kcp"
  shows "ikcp_recv kcp len =
    (let msg = payload (first_msg (rcv_queue kcp)) in
     if rcv_queue kcp = [] then Inr (-1, [], kcp)
     else if \<not> msg_complete kcp then Inr (-2, [], kcp)
     else if int (length msg) > \<bar>len\<bar> then Inr (-3, [], kcp)
     else Inr (int (length msg), msg, after_recv kcp (len < 0)))"
  using assms by (intro recv_spec) (simp add: kcp_inv_def)

theorem recv_first_message_witness:
  "ikcp_recv sample_receiver 10 = Inr (3, [1, 2, 3], after_recv sample_receiver False)"
proof -
  have "rcv_queue sample_receiver \<noteq> []" "msg_complete sample_receiver"
    "payload (first_msg (rcv_queue sample_receiver)) = [1, 2, 3]" by code_simp+
  then show ?thesis
    using recv_first_message [of sample_receiver 10] sample_receiver_inv by (simp add: api_inv_def)
qed

text \<open>
  C31: \<^verbatim>\<open>ikcp_parse_data\<close> drops what lies outside the receive window and what is already
  buffered, files a new segment at its place in the order of sequence numbers, and moves the
  run of segments that continues the received data (as far as the window has room) to the
  receive queue; the receive side stays well formed.
\<close>

theorem parse_data_files_segment:
  assumes "kcp_inv kcp" and "seg_wf 65535 s"
  shows "let k = store kcp s; k' = ikcp_parse_data kcp s;
             d = ready (rcv_nxt kcp) (unat (rcv_wnd kcp) - length (rcv_queue kcp)) (rcv_buf k)
         in (if offset (rcv_nxt kcp) (seg_sn s) < unat (rcv_wnd kcp)
             then rcv_queue k' = rcv_queue kcp @ d \<and> rcv_buf k' = drop (length d) (rcv_buf k) \<and>
                  rcv_nxt k' = rcv_nxt kcp + of_nat (length d)
             else k' = kcp) \<and> rcv_inv k'"
proof -
  have r: "rcv_inv kcp" using assms(1) by (simp add: kcp_inv_def)
  have "rcv_nxt (store kcp s) = rcv_nxt kcp" "rcv_queue (store kcp s) = rcv_queue kcp"
    "rcv_wnd (store kcp s) = rcv_wnd kcp" by (simp_all add: store_def Let_def)
  with parse_data_store [OF r, of s] rcv_inv_parse_data [OF r assms(2)]
    move_available_ready [OF rcv_inv_store [OF r assms(2)]]
  show ?thesis by (simp add: Let_def)
qed

theorem parse_data_files_segment_witness:
  "let k' = ikcp_parse_data sample_kcp sample_push
   in rcv_queue k' = [sample_push] \<and> rcv_buf k' = [] \<and> rcv_nxt k' = 1 \<and> rcv_inv k'"
proof -
  have w: "seg_wf 65535 sample_push" by (simp add: seg_wf_def sample_push_def sample_seg_def)
  have i: "kcp_inv sample_kcp" using sample_kcp_inv by (simp add: api_inv_def)
  have t: "offset (rcv_nxt sample_kcp) (seg_sn sample_push) < unat (rcv_wnd sample_kcp)" by code_simp
  have d: "ready (rcv_nxt sample_kcp) (unat (rcv_wnd sample_kcp) - length (rcv_queue sample_kcp))
      (rcv_buf (store sample_kcp sample_push)) = [sample_push]" by code_simp
  have b: "rcv_queue sample_kcp = []" "rcv_buf (store sample_kcp sample_push) = [sample_push]"
    "rcv_nxt sample_kcp + of_nat (length [sample_push]) = 1" by code_simp+
  from parse_data_files_segment [OF i w] show ?thesis unfolding Let_def if_P [OF t] d unfolding b by simp
qed

text \<open>
  C32: \<^verbatim>\<open>ikcp_ack_push\<close> always returns (the doubling loop that sizes the array ends), writes
  inside the array, and appends one (sn, ts) pair to the acknowledgements waiting to be sent.
\<close>

theorem ack_push_appends:
  assumes "ack_inv kcp" and "allocator_sound al" and "allocator_total al"
    and "unat (ackcount kcp) < 2 ^ 31"
  shows "\<exists>kcp'. ikcp_ack_push al kcp sn ts = Inr kcp' \<and> ack_inv kcp' \<and>
    pending_acks kcp' = pending_acks kcp @ [(sn, ts)]"
  using ack_push_ok [OF assms] by metis

theorem ack_push_appends_witness:
  "\<exists>kcp'. ikcp_ack_push sample_alloc sample_kcp 4 9 = Inr kcp' \<and> ack_inv kcp' \<and>
    pending_acks kcp' = pending_acks sample_kcp @ [(4, 9)]"
proof -
  have "ackcount sample_kcp = 0" by code_simp
  then show ?thesis
    using sample_kcp_inv ack_push_appends [of sample_kcp sample_alloc] by (simp add: api_inv_def kcp_inv_def)
qed



section \<open>Camera: RTP packets and transports\<close>

text \<open>
  C34: \<^verbatim>\<open>rtp_send_h264\<close> is the reference packetizer: it hands the transport exactly the packets
  that the reference makes of the unit, in order, stops at the first fault of the transport, and
  advances the sequence counter by their number.
\<close>

theorem packetizer_equals_reference:
  "rtp_send_h264 al s ts nalu =
     map_sum id (\<lambda>s'. s'\<lparr>rtp_seq := rtp_seq s + of_nat (length (rtp_payloads nalu))\<rparr>)
       (put_all (put_packet al) (rtp_packets (ucast (rtp_seq s)) ts (rtp_ssrc s) nalu) s)"
  by (rule rtp_send_h264_packets)

text \<open>
  C35: Over KCP the camera sends every frame without a fault, whatever bytes the encoder
  produced; the control block stays well formed, the clock advances by one frame and the
  sequence counter by the number of packets.
\<close>

theorem frame_over_kcp:
  assumes "kcp_ready al s"
  shows "\<exists>s'. send_frame al h264 (ts, s) = Inr (ts + 1500, s') \<and> kcp_ready al s' \<and>
    rtp_seq s' = rtp_seq s + of_nat (length (frame_payloads (map (view h264) (split_annexb_nalus h264 32))))"
proof -
  let ?ns = "map (view h264) (split_annexb_nalus h264 32)"
  obtain s' where "put_all (put_packet al) (number_packets (ucast (rtp_seq s)) ts (rtp_ssrc s) (frame_payloads ?ns)) s = Inr s'"
    "kcp_ready al s'" using kcp_sink.put_all_ok [OF assms] by blast
  then show ?thesis by (simp add: send_frame_def send_nalus_packets kcp_ready_def)
qed

theorem frame_over_kcp_witness:
  "\<exists>s'. send_frame sample_alloc (annexb [(True, short_nalu)]) (0, sample_kcp_session) = Inr (0 + 1500, s') \<and>
    kcp_ready sample_alloc s' \<and>
    rtp_seq s' = rtp_seq sample_kcp_session + of_nat (length (frame_payloads
      (map (view (annexb [(True, short_nalu)])) (split_annexb_nalus (annexb [(True, short_nalu)]) 32))))"
  using sample_kcp_session_ready by (rule frame_over_kcp)

text \<open>
  C36: On a TCP connection whose writes do not fail, the units of a frame appear on the stream as
  interleaved frames, one for each packet, complete and in order, however the kernel splits
  the writes.
\<close>

theorem frame_over_tcp:
  assumes "tcp_ready al s"
    and "packets = number_packets (ucast (rtp_seq s)) ts (rtp_ssrc s) (frame_payloads nalus)"
    and "steady (length (concat packets) + 4 * length packets) (os_writes s)"
  shows "\<exists>s'. send_nalus al ts nalus s = Inr s' \<and>
    tcp_sent s' = tcp_sent s @ concat (map (rtp_frame (ucast (rtpChannel s))) packets)"
proof -
  have "steady (length (concat packets) + 4 * length packets + 0) (os_writes s)" using assms(3) by simp
  from put_all_tcp [OF assms(1) this] show ?thesis
    unfolding assms(2) by (auto simp: send_nalus_packets)
qed

theorem frame_over_tcp_witness:
  "\<exists>s'. send_nalus sample_alloc 0 [short_nalu, short_nalu] sample_tcp_session = Inr s' \<and>
    tcp_sent s' = tcp_sent sample_tcp_session @ concat (map (rtp_frame (ucast (rtpChannel sample_tcp_session)))
      (number_packets 0 0 0x12345678 [(True, short_nalu), (True, short_nalu)]))"
proof (rule frame_over_tcp [OF sample_tcp_session_ready(1)])
  show p: "number_packets 0 0 0x12345678 [(True, short_nalu), (True, short_nalu)] =
      number_packets (ucast (rtp_seq sample_tcp_session)) 0 (rtp_ssrc sample_tcp_session)
        (frame_payloads [short_nalu, short_nalu])" by code_simp
  show "steady (length (concat (number_packets 0 0 0x12345678 [(True, short_nalu), (True, short_nalu)])) +
      4 * length (number_packets 0 0 0x12345678 [(True, short_nalu), (True, short_nalu)]))
      (os_writes sample_tcp_session)"
    by (rule sample_tcp_session_ready(2)) (simp add: short_nalu_def)
qed

text \<open>
  C37: Splitting an Annex B stream gives back the units it was joined from, whichever start codes
  separate them, up to the number of views the caller has room for.
\<close>

theorem split_undoes_join:
  assumes "\<forall>(long, n) \<in> set us. clean n"
  shows "map (view (annexb us)) (split_annexb_nalus (annexb us) m) = take m (map snd us)"
  using assms by (rule split_annexb_units)

theorem split_undoes_join_witness:
  "map (view (annexb [(True, short_nalu), (False, short_nalu)]))
     (split_annexb_nalus (annexb [(True, short_nalu), (False, short_nalu)]) 32) =
   take 32 (map snd [(True, short_nalu), (False, short_nalu)])"
  by (rule split_undoes_join) (simp add: short_nalu_ok)

section \<open>Player: reassembly\<close>





text \<open>
  C40: A fragmented unit whose last fragment has the sequence number 65535 is not put together,
  although every fragment arrived in order: only what was collected before it is given out.
\<close>

theorem unit_lost_at_wrap:
  assumes "plain_type (hd nalu)" and "length nalu > MTU - 16" and "follows r (of_nat a)"
    and "a + length (rtp_payloads nalu) = 65536" and "length (rtp_payloads nalu) \<le> 1024"
  shows "\<exists>r'. handle_all name (rtp_packets (of_nat a) ts ss nalu) r = Inr r' \<and>
    frame r' = [] \<and> emitted r' = emitted r @ (if frame r = [] then [] else [(name, frame r)])"
  using assms by (rule nalu_lost_at_wrap)

theorem unit_lost_at_wrap_witness:
  "\<exists>r'. handle_all ''cam'' (rtp_packets (of_nat 65534) 0 1 long_nalu) new_reassembler = Inr r' \<and>
    frame r' = [] \<and> emitted r' = emitted new_reassembler @
      (if frame new_reassembler = [] then [] else [(''cam'', frame new_reassembler)])"
proof (rule unit_lost_at_wrap)
  show "plain_type (hd long_nalu)" "length long_nalu > MTU - 16"
    by (simp_all add: long_nalu_def plain_type_def)
qed (simp_all add: long_nalu_payloads_count follows_def new_reassembler_def)

section \<open>Further facts\<close>

text \<open>
  The header \<^verbatim>\<open>ikcp_encode_seg\<close> writes is the one \<^verbatim>\<open>ikcp_input\<close> reads back, whatever follows it.
\<close>

lemma header_round_trip: "decode_head (ikcp_encode_seg seg @ rest) = Some (head_of seg, rest)"
  by (simp add: encode_seg_head hd.dec_enc)

text \<open>
  However the round-trip times turn out, the retransmission timeout stays between the
  configured minimum and a minute.
\<close>

lemma rto_bounds:
  assumes "0 \<le> rx_minrto kcp" and "rx_minrto kcp \<le> 60000"
  shows "rx_minrto kcp \<le> rx_rto (ikcp_update_ack kcp rtt) \<and> rx_rto (ikcp_update_ack kcp rtt) \<le> 60000"
  using assms by (rule update_ack_rto)

text \<open>
  A datagram of another conversation is answered with -1 and leaves the control block
  as it was.
\<close>

lemma input_wrong_conversation:
  assumes "decode_head data = Some (h, rest)" and "h_conv h \<noteq> conv kcp" and "length data < 2 ^ 31"
  shows "ikcp_input al kcp (Some data) (int (length data)) = Inr (-1, kcp)"
proof -
  have n: "24 \<le> length data" using hd.dec_rest [OF assms(1)] by simp
  then have n': "24 \<le> int (length data)" by simp
  obtain h' where "decode_head data = Some (h', drop 24 data)" and l: "input_loop al kcp data (int (length data)) (False, 0, 0) =
      (if h_conv h' \<noteq> conv kcp then Inr (-1, kcp, False, 0, 0)
       else if int (length data) - 24 < uint (h_len h') \<or> sint (h_len h') < 0 then Inr (-2, kcp, False, 0, 0)
       else if \<not> known_cmd (h_cmd h') then Inr (-3, kcp, False, 0, 0)
       else rbind (input_cmd al kcp h' (drop 24 data) (False, 0, 0)) (\<lambda>(kcp, scan).
         input_loop al kcp (drop (24 + unat (h_len h')) data) (int (length data) - 24 - uint (h_len h')) scan))"
    using input_loop_step [OF n' order.refl, of al kcp "(False, 0, 0)"] by blast
  then have l: "input_loop al kcp data (int (length data)) (False, 0, 0) = Inr (-1, kcp, False, 0, 0)"
    using assms(1,2) by simp
  show ?thesis using n assms(3) by (simp add: ikcp_input_def l ikcp_consts)
qed

text \<open>
  A packet whose number is not beyond the last one (and not just past a wrap-around) is a
  duplicate: it changes nothing.
\<close>

lemma duplicates_ignored:
  assumes "lastSeq r \<noteq> 0" and "sq \<le> lastSeq r" and "uint sq \<ge> 3 \<or> uint (lastSeq r) \<le> 65532"
  shows "handleRtp name (build_rtp_header sq ts ss pt m @ pl) r = Inr r"
  using assms by (auto simp: handleRtp_def parseRtp_build Let_def)

text \<open>
  The interleaved frame the camera puts on the stream for a packet is cut off the front of the
  server's buffer whole, with its channel, and what follows stays.
\<close>

lemma interleaved_frame_received:
  assumes "length p \<le> 15000"
  shows "tryExtractInterleaved (map char_of_byte (rtp_frame ch p) @ rest) =
    (Some (ch, map char_of_byte (rtp_frame ch p)), rest)"
  using assms by (rule interleaved_round_trip)

text \<open>
  The audio port of one camera is the video port of the next: both tracks allocate one pair of
  ports, and the audio track uses the pair after its own.
\<close>

lemma audio_port_taken_twice:
  assumes "serverRtpPort t = 0" and "serverRtpPort t' = 0"
    and "track_ports 2 t s = (audio, audio_rtcp, s')"
  shows "fst (track_ports 0 t' s') = audio"
proof -
  have "word_of_int (s32 k) = (word_of_int k :: u16)" for k
    by (simp add: s32_def scast_word_of_int32)
  then show ?thesis using assms by (auto simp: track_ports_def allocateUdpPorts_def Let_def)
qed

text \<open>
  The map is in the order of the timers' numbers, not of their expiry: while the timer with the
  smallest number is not due, the event fires nothing, however long others have been due.
\<close>

lemma due_timers_starve:
  assumes "timers m = (k, e, t) # rest" and "now < e"
  shows "handleRead exec now now' m = resetTimerfd now' m"
  using assms by (rule first_not_due)

text \<open>
  A message that needs 128 fragments or more is refused with -2 and nothing is queued.
\<close>

lemma send_refuses_long_message:
  assumes "0 < unat (mss kcp)" and "unat (mss kcp) < 2 ^ 31" and "stream kcp = 0"
    and "length buf < 2 ^ 31" and "128 \<le> frag_count kcp (length buf)"
  shows "ikcp_send al kcp buf (int (length buf)) = Inr (-2, kcp)"
  using assms by (rule send_message_too_big)

text \<open>
  In both modes (messages, stream) \<^verbatim>\<open>ikcp_send\<close> ends without a fault, changes nothing but the
  send queue, and the bytes it reports as accepted are exactly what the contents of the queue
  grew by; the queue stays well formed.
\<close>

lemma send_appends_bytes:
  assumes "allocator_total al" and "kcp_inv kcp" and "l \<le> length buf"
  shows "\<exists>q ret. ikcp_send al kcp buf (int l) =
      Inr (ret, kcp\<lparr>snd_queue := q, nsnd_que := of_nat (length q)\<rparr>) \<and>
    payload q = payload (snd_queue kcp) @ take (nat ret) buf \<and> ret \<ge> -2 \<and> ret \<noteq> -1 \<and>
    (\<forall>seg \<in> set q. seg_wf (unat (mss kcp)) seg)"
proof -
  have "\<And>n. new_seg al n \<noteq> None" using assms(1) by (simp add: allocator_total_def)
  moreover have "0 < unat (mss kcp)" "unat (mss kcp) < 2 ^ 31"
    "\<forall>seg \<in> set (snd_queue kcp). seg_wf (unat (mss kcp)) seg" "nsnd_que kcp = of_nat (length (snd_queue kcp))"
    using assms(2) by (auto simp: kcp_inv_def cfg_inv_def snd_inv_def snd_core_def)
  ultimately show ?thesis using assms(3) by (intro send_safe)
qed

text \<open>
  The two compiled variants of the codec (shifting bytes, copying memory on a
  little-endian host) agree on every value and every buffer.
\<close>

lemma codec_variants_agree:
  "ikcp_encode16u_memcpy w = ikcp_encode16u w \<and> ikcp_decode16u_memcpy p = ikcp_decode16u p \<and>
   ikcp_encode32u_memcpy l = ikcp_encode32u l \<and> ikcp_decode32u_memcpy p = ikcp_decode32u p"
  by (simp add: memcpy16_enc memcpy16_dec memcpy32_enc memcpy32_dec)

text \<open>
  Until the time \<^verbatim>\<open>ikcp_check\<close> names, calling \<^verbatim>\<open>ikcp_update\<close> would do nothing but record
  the clock; and that time is at most one interval away.
\<close>

lemma check_names_next_update:
  assumes "offset cur t < unat (ikcp_check kcp cur - cur)"
  shows "ikcp_update kcp t = Inr (kcp\<lparr>current := t\<rparr>, []) \<and> ikcp_check kcp cur - cur \<le> interval kcp"
  using check_no_update [of kcp cur "ikcp_check kcp cur - cur" t] check_interval [of kcp cur] assms by simp

text \<open>
  Every packet fits the transport's unit (13 to 1396 bytes), carries the timestamp and source
  of the call, and the sequence numbers of a unit are consecutive; the player's parser reads back
  what the camera's header builder wrote.
\<close>

lemma packet_headers_parse:
  assumes "i < length (rtp_payloads nalu)"
  shows "\<exists>pkt. parseRtp (rtp_packets sq ts ss nalu ! i) = Inr pkt \<and>
    pkt_seq pkt = sq + of_nat i \<and> timestamp pkt = ts \<and> ssrc pkt = ss \<and>
    marker pkt = fst (rtp_payloads nalu ! i) \<and> pkt_payload pkt = Some (snd (rtp_payloads nalu ! i)) \<and>
    12 < length (rtp_packets sq ts ss nalu ! i) \<and> length (rtp_packets sq ts ss nalu ! i) \<le> MTU - 4"
proof -
  have "rtp_packets sq ts ss nalu ! i \<in> set (rtp_packets sq ts ss nalu)"
    using assms by (intro nth_mem) (simp add: rtp_packets_def)
  from rtp_packets_bound [OF this] show ?thesis
    using nth_number_packets [OF assms, of sq ts ss] by (simp add: rtp_packets_def parseRtp_build)
qed

text \<open>
  Whatever the buffer holds, every view the splitter returns lies inside it and there are
  no more of them than the caller's array has room for.
\<close>

lemma split_views_inside:
  "list_all (\<lambda>(off, len). off + len \<le> length buf) (split_annexb_nalus buf m) \<and>
   length (split_annexb_nalus buf m) \<le> m"
  using split_annexb_inside by (auto simp: list_all_iff)

text \<open>
  A packet of one to ten bytes makes the parser read past the array: the length is tested only
  after the twelve header bytes were read.
\<close>

lemma short_packet_overrun:
  assumes "p \<noteq> []"
  shows "handleRtp name p r = Inl Out_of_bounds \<longleftrightarrow> length p \<le> 10"
proof (cases "11 \<le> length p")
  case True
  then obtain pkt where "parseRtp p = Inr pkt" using parseRtp_ok_iff by blast
  then show ?thesis using assms True by (auto simp: handleRtp_def Let_def)
next
  case False
  then have "parseRtp p = Inl Out_of_bounds" by (rule parseRtp_short)
  then show ?thesis using assms False by (simp add: handleRtp_def)
qed

text \<open>
  Whatever bytes a datagram holds, \<^verbatim>\<open>ikcp_input\<close> reads nothing outside it, ends with one of
  its return codes 0, -1, -2, -3, and keeps the control block well formed.
\<close>

lemma input_any_bytes:
  assumes "kcp_inv kcp" and "allocator_sound al" and "allocator_total al"
    and "length data \<le> 65535" and "unat (ackcount kcp) + length data < 2 ^ 31"
  shows "\<exists>ret k. ikcp_input al kcp (Some data) (int (length data)) = Inr (ret, k) \<and>
    ret \<in> {0, -1, -2, -3} \<and> kcp_inv k"
  using input_safe [OF assms] by blast

text \<open>
  In message mode a message that needs fewer than 128 fragments is queued whole: its
  fragments are appended in order, each at most one MSS long and numbered down to zero, the
  bytes put together are the message, and the return value is its length.
\<close>

lemma send_queues_message:
  assumes "\<And>n. new_seg al n \<noteq> None" and "0 < unat (mss kcp)" and "unat (mss kcp) < 2 ^ 31"
    and "stream kcp = 0" and "length buf < 2 ^ 31" and "frag_count kcp (length buf) < 128"
  shows "\<exists>segs ds. ikcp_send al kcp buf (int (length buf)) =
      Inr (int (length buf),
           kcp\<lparr>snd_queue := snd_queue kcp @ segs, nsnd_que := nsnd_que kcp + of_nat (length segs)\<rparr>) \<and>
    frags_of segs ds \<and> concat ds = buf \<and> (\<forall>d \<in> set ds. length d \<le> unat (mss kcp))"
proof -
  let ?n = "frag_count kcp (length buf)"
  have "length buf \<le> ?n * unat (mss kcp)"
    unfolding frag_count_def by (rule count_fits) (rule assms)
  then have "concat (chunks (unat (mss kcp)) ?n buf) = buf" by (rule concat_chunks)
  with send_message_ok [OF assms] chunks_bound show ?thesis by blast
qed

text \<open>
  An acknowledgement of one number removes exactly the segment with that number from
  the send buffer, a cumulative acknowledgement exactly the segments before it.
\<close>

lemma acks_remove_exactly:
  assumes "kcp_inv kcp"
  shows "snd_buf (ikcp_parse_ack kcp sn) = filter (\<lambda>seg. seg_sn seg \<noteq> sn) (snd_buf kcp) \<and>
    (offset (snd_una kcp) una \<le> inflight kcp \<longrightarrow>
     snd_buf (ikcp_parse_una kcp una) =
       filter (\<lambda>seg. offset (snd_una kcp) una \<le> offset (snd_una kcp) (seg_sn seg)) (snd_buf kcp))"
  using assms parse_ack_removes [of kcp sn] parse_una_removes [of kcp una]
  by (auto simp: kcp_inv_def dest: snd_inv_core)

end
